(* ===== verification/Ozy_Prelude.thy ===== *)
theory Ozy_Prelude
  imports Main "HOL-Library.Word"
begin

text \<open>
  Shared vocabulary of the development: the machine types of the Go sources
  (bytes, 64-bit integers, floats by their bit pattern), big-endian bit lists of
  words, the fallible state-passing computations that model Go methods with an
  error result, and the locale of \<^emph>\<open>sources\<close>, the contract under which every
  decoder of the program is proved to undo its encoder.
\<close>

unbundle bit_operations_syntax

section \<open>Machine types\<close>

text \<open>
  A Go \<open>byte\<close> is an 8-bit word, \<open>uint64\<close> and \<open>int64\<close> are 64-bit words (read with
  \<open>uint\<close> and \<open>sint\<close>; addition and subtraction wrap as in Go), and a \<open>float64\<close> is
  the word \<open>math.Float64bits\<close> returns for it.
\<close>

type_synonym byte = "8 word"
type_synonym u64 = "64 word"
type_synonym i64 = "64 word"
type_synonym f64 = "64 word"

named_theorems bits_simps \<open>rewrites of bit lists and words to single bits\<close>
named_theorems source_intros \<open>decoders that undo an encoding\<close>

text \<open>Comparison of \<open>float64\<close> values with Go's \<open>==\<close>: NaN equals nothing, and the
  two zeros are equal.\<close>

definition f64_exponent :: "f64 \<Rightarrow> u64" where
  "f64_exponent x = drop_bit 52 x AND 0x7ff"

definition f64_mantissa :: "f64 \<Rightarrow> u64" where
  "f64_mantissa x = x AND 0xfffffffffffff"

definition f64_is_nan :: "f64 \<Rightarrow> bool" where
  "f64_is_nan x \<longleftrightarrow> f64_exponent x = 0x7ff \<and> f64_mantissa x \<noteq> 0"

definition f64_is_zero :: "f64 \<Rightarrow> bool" where
  "f64_is_zero x \<longleftrightarrow> x AND 0x7fffffffffffffff = 0"

definition f64_eq :: "f64 \<Rightarrow> f64 \<Rightarrow> bool" where
  "f64_eq x y \<longleftrightarrow> \<not> f64_is_nan x \<and> \<not> f64_is_nan y \<and> (x = y \<or> f64_is_zero x \<and> f64_is_zero y)"

lemma f64_eq_refl [simp]: "\<not> f64_is_nan x \<Longrightarrow> f64_eq x x"
  by (simp add: f64_eq_def)

section \<open>Bit lists of words\<close>

lemma bit_push_bit_word [bits_simps]:
  "bit (push_bit n (u::'a::len word)) i = (n \<le> i \<and> i < LENGTH('a) \<and> bit u (i - n))"
  by (simp only: bit_push_bit_iff possible_bit_word)

text \<open>The low \<open>n\<close> bits of a word, most significant first.\<close>

definition low_bits :: "'a::len word \<Rightarrow> nat \<Rightarrow> bool list" where
  "low_bits u n = map (bit u) (rev [0..<n])"

lemma length_low_bits [simp]: "length (low_bits u n) = n"
  by (simp add: low_bits_def)

lemma low_bits_0 [simp]: "low_bits u 0 = []"
  by (simp add: low_bits_def)

lemma low_bits_Suc: "low_bits u (Suc n) = bit u n # low_bits u n"
  by (simp add: low_bits_def)

lemma nth_low_bits: "i < n \<Longrightarrow> low_bits u n ! i = bit u (n - Suc i)"
  by (simp add: low_bits_def rev_nth)

lemma low_bits_eqI:
  assumes "\<And>i. i < n \<Longrightarrow> bit u i = bit v i"
  shows "low_bits u n = low_bits v n"
  using assms by (auto simp: low_bits_def)

lemma low_bits_split:
  "low_bits u (m + n) = low_bits (drop_bit n u) m @ low_bits u n"
proof (rule nth_equalityI)
  show "length (low_bits u (m + n)) = length (low_bits (drop_bit n u) m @ low_bits u n)"
    by simp
next
  fix i assume "i < length (low_bits u (m + n))"
  then have i: "i < m + n" by simp
  show "low_bits u (m + n) ! i = (low_bits (drop_bit n u) m @ low_bits u n) ! i"
  proof (cases "i < m")
    case True
    then have "n + (m - Suc i) = m + n - Suc i" by simp
    with True i show ?thesis
      by (simp add: nth_append nth_low_bits bit_drop_bit_eq)
  next
    case False
    with i show ?thesis by (simp add: nth_append nth_low_bits add.commute)
  qed
qed

text \<open>Reading bits back: the accumulator of a most-significant-first loop.\<close>

definition shift_in :: "u64 \<Rightarrow> bool \<Rightarrow> u64" where
  "shift_in u b = push_bit 1 u OR (if b then 1 else 0)"

lemma bit_shift_in [bits_simps]:
  "bit (shift_in u b) i = (if i = 0 then b else i < 64 \<and> bit u (i - 1))"
proof -
  have "bit (push_bit 1 u) i = (1 \<le> i \<and> i < 64 \<and> bit u (i - 1))"
    by (simp only: bit_push_bit_word) simp
  then have "bit (shift_in u b) i \<longleftrightarrow>
      1 \<le> i \<and> i < 64 \<and> bit u (i - 1) \<or> bit (if b then 1 else 0 :: u64) i"
    by (simp only: shift_in_def bit_or_iff)
  then show ?thesis by (cases b; cases i) (simp_all add: bit_1_iff)
qed

lemma bit_foldl_shift_in:
  "bit (foldl shift_in u bs) i =
     (i < 64 \<and> (if i < length bs then bs ! (length bs - Suc i) else bit u (i - length bs)))"
proof (induction bs arbitrary: i rule: rev_induct)
  case Nil
  then show ?case by (auto dest: bit_imp_le_length)
next
  case (snoc b bs)
  show ?case
    by (cases i) (auto simp: bit_shift_in snoc.IH nth_append)
qed

lemma foldl_shift_in_low_bits:
  assumes "n \<le> 64"
  shows "foldl shift_in 0 (low_bits (u::u64) n) = take_bit n u"
  by (rule bit_word_eqI) (use assms in \<open>auto simp: bit_foldl_shift_in nth_low_bits bit_simps\<close>)

lemma foldl_shift_in_byte:
  "foldl shift_in u (low_bits (w::byte) 8) = push_bit 8 u OR ucast w"
  by (rule bit_word_eqI)
    (auto simp: bit_foldl_shift_in nth_low_bits bit_simps dest: bit_imp_le_length)

section \<open>Fallible computations over a state\<close>

text \<open>
  A Go method with receiver state \<open>'s\<close> that returns a value or an error, keeping the
  state it has mutated in either case.
\<close>

type_synonym ('s, 'e, 'a) fallible = "'s \<Rightarrow> ('e + 'a) \<times> 's"

definition ret :: "'a \<Rightarrow> ('s, 'e, 'a) fallible" where
  "ret x s = (Inr x, s)"

definition throw :: "'e \<Rightarrow> ('s, 'e, 'a) fallible" where
  "throw e s = (Inl e, s)"

definition seq :: "('s, 'e, 'a) fallible \<Rightarrow> ('a \<Rightarrow> ('s, 'e, 'b) fallible) \<Rightarrow> ('s, 'e, 'b) fallible" where
  "seq m f s = (case m s of (Inl e, s') \<Rightarrow> (Inl e, s') | (Inr x, s') \<Rightarrow> f x s')"

lemma ret_simp [simp]: "ret x s = (Inr x, s)"
  by (simp add: ret_def)

lemma throw_simp [simp]: "throw e s = (Inl e, s)"
  by (simp add: throw_def)

section \<open>Sources\<close>

text \<open>
  A source is a reader whose state \<open>s\<close> still holds the symbols \<open>remaining s\<close>.
  \<open>reads m xs v\<close> says that \<open>m\<close> consumes exactly \<open>xs\<close> and returns \<open>v\<close>, whatever follows.
  The contract of a provider is that it can read one symbol; the laws of sequencing
  are proved once, here, for the bit reader of chunks and the byte decoders of the log.
\<close>

locale source =
  fixes remaining :: "'s \<Rightarrow> 'x list"
    and good :: "'s \<Rightarrow> bool"
    and next_symbol :: "('s, 'e, 'x) fallible"
  assumes next_symbol_Cons:
    "\<And>s x xs. good s \<Longrightarrow> remaining s = x # xs \<Longrightarrow>
       \<exists>s'. next_symbol s = (Inr x, s') \<and> good s' \<and> remaining s' = xs"
begin

definition reads :: "('s, 'e, 'a) fallible \<Rightarrow> 'x list \<Rightarrow> 'a \<Rightarrow> bool" where
  "reads m xs v \<longleftrightarrow>
     (\<forall>s rest. good s \<and> remaining s = xs @ rest \<longrightarrow>
        (\<exists>s'. m s = (Inr v, s') \<and> good s' \<and> remaining s' = rest))"

lemma readsI [intro?]:
  assumes "\<And>s rest. good s \<Longrightarrow> remaining s = xs @ rest \<Longrightarrow>
    \<exists>s'. m s = (Inr v, s') \<and> good s' \<and> remaining s' = rest"
  shows "reads m xs v"
  using assms unfolding reads_def by blast

lemma readsE:
  assumes "reads m xs v" and "good s" and "remaining s = xs @ rest"
  obtains s' where "m s = (Inr v, s')" and "good s'" and "remaining s' = rest"
  using assms unfolding reads_def by blast

lemma reads_ret [source_intros]: "reads (ret v) [] v"
  by (simp add: reads_def)

lemma reads_next [source_intros]: "reads next_symbol [x] x"
  using next_symbol_Cons by (auto simp: reads_def)

lemma reads_seq:
  assumes "reads m xs u" and "reads (f u) ys v"
  shows "reads (seq m f) (xs @ ys) v"
proof
  fix s rest
  assume s: "good s" "remaining s = (xs @ ys) @ rest"
  then have "remaining s = xs @ (ys @ rest)" by simp
  with assms(1) s(1) obtain s1 where
    s1: "m s = (Inr u, s1)" "good s1" "remaining s1 = ys @ rest"
    by (rule readsE)
  from assms(2) s1(2,3) obtain s2 where
    "f u s1 = (Inr v, s2)" "good s2" "remaining s2 = rest"
    by (rule readsE)
  with s1(1) show "\<exists>s'. seq m f s = (Inr v, s') \<and> good s' \<and> remaining s' = rest"
    by (simp add: seq_def)
qed

lemma reads_seq_Cons:
  "reads m [x] u \<Longrightarrow> reads (f u) ys v \<Longrightarrow> reads (seq m f) (x # ys) v"
  using reads_seq [of m "[x]" u f ys v] by simp

end

end
