(* ===== verification/Go_Binary.thy ===== *)
theory Go_Binary
  imports Ozy_Prelude
begin

text \<open>
  The part of Go's \<open>encoding/binary\<close> the storage engine uses: variable-length
  integers, zig-zag, and fixed-width integers in both byte orders. Every codec of
  the write-ahead log and of the chunks goes through these.
\<close>

section \<open>Variable-length integers\<close>

text \<open>\<open>binary.AppendUvarint\<close>: seven bits per byte, least significant group first, the
  top bit of a byte set when another follows.\<close>

function putUvarint :: "u64 \<Rightarrow> byte list" where
  "putUvarint u =
     (if 0x80 \<le> u then (ucast u OR 0x80) # putUvarint (drop_bit 7 u) else [ucast u])"
  by pat_completeness auto

lemma unat_drop_bit_7: "unat (drop_bit 7 (u::u64)) = unat u div 128"
  by (simp add: drop_bit_eq_div unat_div)

termination putUvarint
proof (relation "measure unat")
  fix u :: u64
  assume "0x80 \<le> u"
  then have "128 \<le> unat u" by (simp add: word_le_nat_alt)
  then show "(drop_bit 7 u, u) \<in> measure unat"
    by (simp add: unat_drop_bit_7)
qed simp

declare putUvarint.simps [simp del]

text \<open>\<open>binary.Uvarint\<close>: the value and the number of bytes read, 0 when the buffer is too
  short and negative when the value overflows 64 bits.\<close>

fun uvarint_loop :: "nat \<Rightarrow> u64 \<Rightarrow> nat \<Rightarrow> byte list \<Rightarrow> u64 \<times> int" where
  "uvarint_loop i x s [] = (0, 0)"
| "uvarint_loop i x s (b # bs) =
     (if i = 10 then (0, - (int i + 1))
      else if b < 0x80
           then if i = 9 \<and> 1 < b then (0, - (int i + 1))
                else (x OR push_bit s (ucast b), int i + 1)
           else uvarint_loop (i + 1) (x OR push_bit s (ucast (b AND 0x7f))) (s + 7) bs)"

definition getUvarint :: "byte list \<Rightarrow> u64 \<times> int" where
  "getUvarint bs = uvarint_loop 0 0 0 bs"

text \<open>Zig-zag: small magnitudes of either sign become small unsigned values.\<close>

definition zigzag :: "i64 \<Rightarrow> u64" where
  "zigzag v = (let u = push_bit 1 v in if sint v < 0 then NOT u else u)"

definition unzigzag :: "u64 \<Rightarrow> i64" where
  "unzigzag u = (let i = drop_bit 1 u in if u AND 1 \<noteq> 0 then NOT i else i)"

definition putVarint :: "i64 \<Rightarrow> byte list" where
  "putVarint v = putUvarint (zigzag v)"

definition getVarint :: "byte list \<Rightarrow> i64 \<times> int" where
  "getVarint bs = (let (u, n) = getUvarint bs in (unzigzag u, n))"

section \<open>Fixed-width integers\<close>

definition putUint64LE :: "u64 \<Rightarrow> byte list" where
  "putUint64LE u = map (\<lambda>i. ucast (drop_bit (8 * i) u)) [0..<8]"

definition getUint64LE :: "byte list \<Rightarrow> u64" where
  "getUint64LE bs = foldr (\<lambda>b u. push_bit 8 u OR ucast b) (take 8 bs) 0"

definition putUint32BE :: "32 word \<Rightarrow> byte list" where
  "putUint32BE u = [ucast (drop_bit 24 u), ucast (drop_bit 16 u), ucast (drop_bit 8 u), ucast u]"

definition getUint32BE :: "byte list \<Rightarrow> 32 word" where
  "getUint32BE bs = push_bit 24 (ucast (bs ! 0)) OR push_bit 16 (ucast (bs ! 1))
     OR push_bit 8 (ucast (bs ! 2)) OR ucast (bs ! 3)"

definition putUint16BE :: "16 word \<Rightarrow> byte list" where
  "putUint16BE u = [ucast (drop_bit 8 u), ucast u]"

definition getUint16BE :: "byte list \<Rightarrow> 16 word" where
  "getUint16BE bs = push_bit 8 (ucast (bs ! 0)) OR ucast (bs ! 1)"

section \<open>Round trips\<close>

lemma bit_0x80: "bit (0x80::byte) i = (i = 7)"
proof -
  have "bit (push_bit 7 1 :: byte) i = (i = 7)"
    by (simp only: bit_push_bit_word bit_1_iff) auto
  then show ?thesis by simp
qed

lemma bit_0x7f: "bit (0x7f::byte) i = (i < 7)"
proof -
  have m: "(0x7f::byte) = mask 7" by (simp add: mask_eq_exp_minus_1)
  show ?thesis unfolding m by (auto simp: bit_simps)
qed

lemma unat_ucast_byte: "unat (ucast (u::u64) :: byte) = unat u mod 256"
  by (simp add: unsigned_ucast_eq take_bit_eq_mod)

lemma varint_low_group:
  "ucast ((ucast (u::u64) OR 0x80 :: byte) AND 0x7f) = take_bit 7 u"
  by (rule bit_word_eqI)
    (auto simp only: bit_word_ucast_iff bit_and_iff bit_or_iff bit_0x80 bit_0x7f bit_take_bit_iff, simp_all)

lemma varint_more: "\<not> (ucast (u::u64) OR 0x80 :: byte) < 0x80"
proof -
  have "(ucast u OR 0x80) AND 0x80 = (0x80::byte)"
    by (rule bit_word_eqI) (auto simp: bit_simps bit_0x80)
  with word_and_le1 [of "0x80::byte" "ucast u OR 0x80"] show ?thesis
    by (metis word_and_le2 linorder_not_less)
qed

lemma varint_last:
  assumes "\<not> 0x80 \<le> (u::u64)"
  shows "(ucast u :: byte) < 0x80" and "ucast (ucast u :: byte) = u"
proof -
  from assms have u: "unat u < 128" by (simp add: word_le_nat_alt)
  then have b: "unat (ucast u :: byte) = unat u" by (simp add: unat_ucast_byte)
  with u show "(ucast u :: byte) < 0x80" by (simp add: word_less_nat_alt)
  have "(ucast (ucast u :: byte) :: u64) = take_bit 8 u"
    by (rule bit_word_eqI) (auto simp: bit_simps)
  moreover have "take_bit 8 u = u"
    using u by (simp add: word_unat_eq_iff unat_mod take_bit_eq_mod)
  ultimately show "ucast (ucast u :: byte) = u" by simp
qed

lemma varint_low_7f:
  assumes "(b::byte) < 0x80"
  shows "b AND 0x7f = b"
proof -
  have "unat b < 128" using assms by (simp add: word_less_nat_alt)
  then have "take_bit 7 b = b" by (simp add: word_unat_eq_iff unat_mod take_bit_eq_mod)
  then show ?thesis by (simp add: take_bit_eq_mask mask_eq_exp_minus_1)
qed

lemma varint_join:
  "(x OR push_bit s (take_bit 7 u)) OR push_bit (s + 7) (drop_bit 7 u) = x OR push_bit s (u::u64)"
proof (rule bit_word_eqI)
  fix n assume n: "n < LENGTH(64)"
  show "bit ((x OR push_bit s (take_bit 7 u)) OR push_bit (s + 7) (drop_bit 7 u)) n =
      bit (x OR push_bit s u) n"
  proof (cases "s + 7 \<le> n")
    case True
    then have "7 + (n - (s + 7)) = n - s" by simp
    with True n show ?thesis
      by (auto simp: bit_or_iff bit_push_bit_word bit_take_bit_iff bit_drop_bit_eq)
  next
    case False
    with n show ?thesis
      by (auto simp: bit_or_iff bit_push_bit_word bit_take_bit_iff)
  qed
qed

lemma varint_room:
  assumes "unat (u::u64) < 2 ^ (64 - s)" and "0x80 \<le> u" and "s < 64"
  shows "s + 7 < 64" and "unat (drop_bit 7 u) < 2 ^ (64 - (s + 7))"
proof -
  from assms(2) have u: "128 \<le> unat u" by (simp add: word_le_nat_alt)
  have "(2::nat) ^ 7 \<le> unat u" using u by simp
  with assms(1) have "(2::nat) ^ 7 < 2 ^ (64 - s)" by (rule le_less_trans [rotated])
  then have "7 < 64 - s" by (rule power_less_imp_less_exp [rotated]) simp
  then show "s + 7 < 64" by simp
  then have "64 - s = 64 - (s + 7) + 7" by simp
  then have "(2::nat) ^ (64 - s) = 2 ^ (64 - (s + 7)) * 2 ^ 7"
    by (metis power_add)
  with assms(1) have "unat u < 2 ^ (64 - (s + 7)) * 2 ^ 7" by (simp only:)
  then have "unat u div 2 ^ 7 < 2 ^ (64 - (s + 7))" by (rule less_mult_imp_div_less)
  then show "unat (drop_bit 7 u) < 2 ^ (64 - (s + 7))"
    by (simp add: unat_drop_bit_7)
qed

lemma putUvarint_step: "0x80 \<le> u \<Longrightarrow> putUvarint u = (ucast u OR 0x80) # putUvarint (drop_bit 7 u)"
  by (subst putUvarint.simps) simp

lemma putUvarint_stop: "\<not> 0x80 \<le> u \<Longrightarrow> putUvarint u = [ucast u]"
  by (subst putUvarint.simps) simp

lemma uvarint_loop_put:
  assumes "i < 10" and "unat u < 2 ^ (64 - 7 * i)"
  shows "uvarint_loop i x (7 * i) (putUvarint u @ rest) =
    (x OR push_bit (7 * i) u, int (i + length (putUvarint u)))"
  using assms
proof (induction u arbitrary: i x rule: putUvarint.induct)
  case (1 u)
  show ?case
  proof (cases "0x80 \<le> u")
    case True
    with "1.prems" have "7 * i + 7 < 64" "unat (drop_bit 7 u) < 2 ^ (64 - (7 * i + 7))"
      using varint_room [of u "7 * i"] by auto
    then have i: "i + 1 < 10" "unat (drop_bit 7 u) < 2 ^ (64 - 7 * (i + 1))"
      by (simp_all add: algebra_simps)
    have s: "7 * (i + 1) = 7 * i + 7" by simp
    have "uvarint_loop (i + 1) (x OR push_bit (7 * i) (take_bit 7 u)) (7 * i + 7)
        (putUvarint (drop_bit 7 u) @ rest) =
      (x OR push_bit (7 * i) u, int (i + 1 + length (putUvarint (drop_bit 7 u))))"
      using "1.IH" [OF True i, of "x OR push_bit (7 * i) (take_bit 7 u)"]
      unfolding s varint_join .
    then have "uvarint_loop i x (7 * i) ((ucast u OR 0x80) # putUvarint (drop_bit 7 u) @ rest) =
      (x OR push_bit (7 * i) u, int (i + 1 + length (putUvarint (drop_bit 7 u))))"
      using "1.prems"(1) varint_more [of u]
      by (simp only: uvarint_loop.simps varint_low_group if_False) simp
    then show ?thesis by (simp add: putUvarint_step [OF True])
  next
    case False
    have "\<not> (i = 9 \<and> 1 < (ucast u :: byte))"
    proof
      assume a: "i = 9 \<and> 1 < (ucast u :: byte)"
      with "1.prems"(2) have "unat u < 2" by simp
      moreover have "1 < unat (ucast u :: byte)"
        using a by (simp add: word_less_nat_alt)
      ultimately show False by (simp add: unat_ucast_byte)
    qed
    then have "uvarint_loop i x (7 * i) (ucast u # rest) = (x OR push_bit (7 * i) u, int i + 1)"
      using "1.prems"(1) varint_last [OF False] by (simp only: uvarint_loop.simps) simp
    then show ?thesis by (simp add: putUvarint_stop [OF False])
  qed
qed

lemma getUvarint_put: "getUvarint (putUvarint u @ rest) = (u, int (length (putUvarint u)))"
proof -
  have "unat u < 2 ^ (64 - 7 * 0)" using unsigned_less [of u] by simp
  then show ?thesis using uvarint_loop_put [of 0 u 0 rest] by (simp add: getUvarint_def)
qed

lemma length_putUvarint_aux:
  "i < 10 \<Longrightarrow> unat u < 2 ^ (64 - 7 * i) \<Longrightarrow> length (putUvarint u) \<le> 10 - i"
proof (induction u arbitrary: i rule: putUvarint.induct)
  case (1 u)
  show ?case
  proof (cases "0x80 \<le> u")
    case True
    with "1.prems" have "7 * i + 7 < 64" "unat (drop_bit 7 u) < 2 ^ (64 - (7 * i + 7))"
      using varint_room [of u "7 * i"] by auto
    then have "i + 1 < 10" "unat (drop_bit 7 u) < 2 ^ (64 - 7 * (i + 1))"
      by (simp_all add: algebra_simps)
    with "1.IH" True have "length (putUvarint (drop_bit 7 u)) \<le> 10 - (i + 1)" by blast
    with True \<open>i + 1 < 10\<close> show ?thesis by (simp add: putUvarint_step)
  next
    case False
    with "1.prems" show ?thesis by (simp add: putUvarint_stop)
  qed
qed

lemma length_putUvarint: "0 < length (putUvarint u)" "length (putUvarint u) \<le> 10"
proof -
  have "unat u < 2 ^ (64 - 7 * 0)" using unsigned_less [of u] by simp
  then show "length (putUvarint u) \<le> 10" using length_putUvarint_aux [of 0 u] by simp
  show "0 < length (putUvarint u)" by (subst putUvarint.simps) simp
qed

lemma putUvarint_nonempty [simp]: "putUvarint u \<noteq> []"
  using length_putUvarint(1) [of u] by auto

lemma bit_zigzag:
  "bit (zigzag v) i = (if i = 0 then bit v 63 else i < 64 \<and> (bit v (i - 1) \<noteq> bit v 63))"
proof -
  have sign: "sint v < 0 \<longleftrightarrow> bit v 63"
    using bit_last_iff [of v] by simp
  have p: "bit (push_bit 1 v) i = (1 \<le> i \<and> i < 64 \<and> bit v (i - 1))"
    by (simp only: bit_push_bit_word) simp
  have "bit (NOT (push_bit 1 v)) i = (i < 64 \<and> \<not> bit (push_bit 1 v) i)"
    by (simp only: bit_not_iff possible_bit_word) simp
  with p have "bit (zigzag v) i =
      (if bit v 63 then i < 64 \<and> \<not> (1 \<le> i \<and> bit v (i - 1)) else 1 \<le> i \<and> i < 64 \<and> bit v (i - 1))"
    unfolding zigzag_def Let_def sign by (simp only: if_distrib [of "\<lambda>w. bit w i"]) auto
  then show ?thesis by auto
qed

lemma unzigzag_zigzag [simp]: "unzigzag (zigzag v) = v"
proof (rule bit_word_eqI)
  fix n assume n: "n < LENGTH(64)"
  have "(zigzag v AND 1 \<noteq> 0) = bit (zigzag v) 0"
    by (simp add: and_one_eq bit_0 odd_iff_mod_2_eq_one)
  then have odd: "(zigzag v AND 1 \<noteq> 0) = bit v 63"
    by (simp add: bit_zigzag)
  have d: "bit (drop_bit 1 (zigzag v)) n = bit (zigzag v) (Suc n)"
    by (simp only: bit_drop_bit_eq o_def) simp
  have "bit (NOT (drop_bit 1 (zigzag v))) n = (\<not> bit (drop_bit 1 (zigzag v)) n)"
    using n by (simp only: bit_not_iff possible_bit_word) simp
  with d n have "bit (unzigzag (zigzag v)) n = (bit (zigzag v) (Suc n) \<noteq> bit v 63)"
    unfolding unzigzag_def Let_def odd by (simp only: if_distrib [of "\<lambda>w. bit w n"]) auto
  moreover have "n < 63 \<or> n = 63" using n by auto
  ultimately show "bit (unzigzag (zigzag v)) n = bit v n"
    by (auto simp: bit_zigzag)
qed

lemma getVarint_put: "getVarint (putVarint v @ rest) = (v, int (length (putVarint v)))"
  by (simp add: getVarint_def putVarint_def getUvarint_put)

lemma getUint16BE_put [simp]: "getUint16BE (putUint16BE u @ rest) = u"
  by (rule bit_word_eqI)
    (auto simp: getUint16BE_def putUint16BE_def bit_simps)

lemma getUint32BE_put [simp]: "getUint32BE (putUint32BE u @ rest) = u"
proof (rule bit_word_eqI)
  fix n assume "n < LENGTH(32)"
  then have "n < 8 \<or> 8 \<le> n \<and> n < 16 \<or> 16 \<le> n \<and> n < 24 \<or> 24 \<le> n \<and> n < 32" by auto
  then show "bit (getUint32BE (putUint32BE u @ rest)) n = bit u n"
    by (elim disjE) (auto simp: getUint32BE_def putUint32BE_def bit_simps)
qed

lemma length_putUint32BE [simp]: "length (putUint32BE u) = 4"
  by (simp add: putUint32BE_def)

lemma length_putUint64LE [simp]: "length (putUint64LE u) = 8"
  by (simp add: putUint64LE_def)

lemma foldr_le_bytes:
  "foldr (\<lambda>b u. push_bit 8 u OR ucast b) (map (\<lambda>i. ucast (drop_bit (8 * i) (u::u64)) :: byte) [k..<k + n]) 0
     = take_bit (8 * n) (drop_bit (8 * k) u)"
proof (induction n arbitrary: k)
  case 0
  then show ?case by simp
next
  case (Suc n)
  have up: "[k..<k + Suc n] = k # [Suc k..<Suc k + n]"
    by (simp add: upt_conv_Cons)
  have "push_bit 8 (take_bit (8 * n) (drop_bit (8 * Suc k) u)) OR
      ucast (ucast (drop_bit (8 * k) u) :: byte) = take_bit (8 * Suc n) (drop_bit (8 * k) u)"
  proof (rule bit_word_eqI)
    fix i assume i: "i < LENGTH(64)"
    show "bit (push_bit 8 (take_bit (8 * n) (drop_bit (8 * Suc k) u)) OR
      ucast (ucast (drop_bit (8 * k) u) :: byte)) i = bit (take_bit (8 * Suc n) (drop_bit (8 * k) u)) i"
    proof (cases "i < 8")
      case True
      with i show ?thesis by (auto simp: bit_simps)
    next
      case False
      then have "8 * Suc k + (i - 8) = 8 * k + i" by simp
      with False i show ?thesis
        by (auto simp: bit_or_iff bit_push_bit_word bit_take_bit_iff bit_drop_bit_eq
            bit_word_ucast_iff)
    qed
  qed
  with Suc [of "Suc k"] show ?case by (simp only: up list.map foldr.simps o_def)
qed

lemma getUint64LE_put [simp]: "getUint64LE (putUint64LE u @ rest) = u"
  using foldr_le_bytes [of u 0 8]
  by (simp add: getUint64LE_def putUint64LE_def take_bit_word_eq_self)

end
