(* ===== verification/Bit_Stream.thy ===== *)
theory Bit_Stream
  imports Go_Binary
begin

text \<open>
  \<open>internal/tsdb/chunkenc/bstream.go\<close>: the append-only bit writer and the bit reader
  under every compressed chunk. The writer's abstraction is the list of bits written
  so far, the reader's the list of bits still to come; every operation is proved
  against these lists, so that the chunk codec above never looks at bytes again.
\<close>

section \<open>Errors and state\<close>

datatype chunkenc_error =
    ErrEndOfStream
  | VarintOverflow
  | WindowReused
  | ImpossibleWindow int

record bstream =
  bs_stream :: "byte list"
  bs_count :: nat

record bstreamReader =
  br_stream :: "byte list"
  br_pos :: nat
  br_count :: nat

section \<open>Writer\<close>

definition writeBit :: "bstream \<Rightarrow> bool \<Rightarrow> bstream" where
  "writeBit b x =
     (let b1 = (if bs_count b = 0
                then b\<lparr>bs_stream := bs_stream b @ [0], bs_count := 8\<rparr> else b);
          b2 = (if x
                then b1\<lparr>bs_stream := (bs_stream b1)[length (bs_stream b1) - 1 :=
                          last (bs_stream b1) OR push_bit (bs_count b1 - 1) 1]\<rparr>
                else b1)
      in b2\<lparr>bs_count := bs_count b2 - 1\<rparr>)"

text \<open>The two loops of \<open>writeBits\<close>: whole aligned bytes, then bit by bit.\<close>

fun writeBits_bytes :: "bstream \<Rightarrow> u64 \<Rightarrow> nat \<Rightarrow> bstream \<times> u64 \<times> nat" where
  "writeBits_bytes b u n =
     (if 8 \<le> n \<and> bs_count b = 0
      then writeBits_bytes (b\<lparr>bs_stream := bs_stream b @ [ucast (drop_bit 56 u)]\<rparr>)
             (push_bit 8 u) (n - 8)
      else (b, u, n))"

declare writeBits_bytes.simps [simp del]

fun writeBits_bits :: "bstream \<Rightarrow> u64 \<Rightarrow> nat \<Rightarrow> bstream" where
  "writeBits_bits b u 0 = b"
| "writeBits_bits b u (Suc n) =
     writeBits_bits (writeBit b (u AND push_bit 63 1 \<noteq> 0)) (push_bit 1 u) n"

definition writeBits :: "bstream \<Rightarrow> u64 \<Rightarrow> int \<Rightarrow> bstream" where
  "writeBits b u nbits =
     (if nbits \<le> 0 then b
      else let u' = (if nbits < 64 then push_bit (nat (64 - nbits)) u else u);
               (b1, u1, n1) = writeBits_bytes b u' (nat nbits)
           in writeBits_bits b1 u1 n1)"

definition writeByte :: "bstream \<Rightarrow> byte \<Rightarrow> bstream" where
  "writeByte b v = writeBits b (ucast v) 8"

text \<open>\<open>writeVarint\<close>: zig-zag, then seven bits per byte, low bits first.\<close>

function writeUvarint :: "bstream \<Rightarrow> u64 \<Rightarrow> bstream" where
  "writeUvarint b u =
     (if 0x80 \<le> u then writeUvarint (writeByte b (ucast u OR 0x80)) (drop_bit 7 u)
      else writeByte b (ucast u))"
  by pat_completeness auto
termination
proof (relation "measure (\<lambda>(b, u). unat u)")
  fix b :: bstream and u :: u64
  assume "0x80 \<le> u"
  then have "128 \<le> unat u" by (simp add: word_le_nat_alt)
  then show "((writeByte b (ucast u OR 0x80), drop_bit 7 u), b, u) \<in> measure (\<lambda>(b, u). unat u)"
    by (simp add: unat_drop_bit_7)
qed simp

declare writeUvarint.simps [simp del]

definition writeVarint :: "bstream \<Rightarrow> i64 \<Rightarrow> bstream" where
  "writeVarint b v = writeUvarint b (zigzag v)"

section \<open>Reader\<close>

definition newBReader :: "byte list \<Rightarrow> bstreamReader" where
  "newBReader bs = \<lparr>br_stream = bs, br_pos = 0, br_count = 8\<rparr>"

definition readBit :: "(bstreamReader, chunkenc_error, bool) fallible" where
  "readBit r =
     (if length (br_stream r) \<le> br_pos r then (Inl ErrEndOfStream, r)
      else let r1 = (if br_count r = 0 then r\<lparr>br_pos := br_pos r + 1\<rparr> else r)
           in if br_count r = 0 \<and> length (br_stream r1) \<le> br_pos r1
              then (Inl ErrEndOfStream, r1)
              else let r2 = (if br_count r = 0 then r1\<lparr>br_count := 8\<rparr> else r1);
                       r3 = r2\<lparr>br_count := br_count r2 - 1\<rparr>
                   in (Inr (br_stream r3 ! br_pos r3 AND push_bit (br_count r3) 1 \<noteq> 0), r3))"

fun readBits_bytes :: "nat \<Rightarrow> u64 \<Rightarrow> (bstreamReader, chunkenc_error, u64 \<times> nat) fallible" where
  "readBits_bytes n u r =
     (if 8 \<le> n \<and> br_count r = 8
      then if length (br_stream r) \<le> br_pos r then (Inl ErrEndOfStream, r)
           else readBits_bytes (n - 8) (push_bit 8 u OR ucast (br_stream r ! br_pos r))
                  (r\<lparr>br_pos := br_pos r + 1\<rparr>)
      else (Inr (u, n), r))"

declare readBits_bytes.simps [simp del]

fun readBits_bits :: "nat \<Rightarrow> u64 \<Rightarrow> (bstreamReader, chunkenc_error, u64) fallible" where
  "readBits_bits 0 u = ret u"
| "readBits_bits (Suc n) u = seq readBit (\<lambda>b. readBits_bits n (shift_in u b))"

definition readBits :: "int \<Rightarrow> (bstreamReader, chunkenc_error, u64) fallible" where
  "readBits nbits = seq (readBits_bytes (nat nbits) 0) (\<lambda>(u, n). readBits_bits n u)"

definition readByte :: "(bstreamReader, chunkenc_error, byte) fallible" where
  "readByte = seq (readBits 8) (\<lambda>u. ret (ucast u))"

function readUvarint :: "nat \<Rightarrow> u64 \<Rightarrow> (bstreamReader, chunkenc_error, u64) fallible" where
  "readUvarint shift u r =
     (if 64 \<le> shift then (Inl VarintOverflow, r)
      else case readByte r of
             (Inl e, r') \<Rightarrow> (Inl e, r')
           | (Inr v, r') \<Rightarrow>
               let u' = u OR push_bit shift (ucast (v AND 0x7f))
               in if v < 0x80 then (Inr u', r') else readUvarint (shift + 7) u' r')"
  by pat_completeness auto
termination
  by (relation "measure (\<lambda>(shift, u, r). 64 - shift)") auto

declare readUvarint.simps [simp del]

definition readVarint :: "(bstreamReader, chunkenc_error, i64) fallible" where
  "readVarint = seq (readUvarint 0 0) (\<lambda>u. ret (unzigzag u))"

section \<open>The bits of a byte stream\<close>

definition stream_bits :: "byte list \<Rightarrow> bool list" where
  "stream_bits bs = concat (map (\<lambda>w. low_bits w 8) bs)"

lemma stream_bits_simps [simp]:
  "stream_bits [] = []"
  "stream_bits (w # bs) = low_bits w 8 @ stream_bits bs"
  "stream_bits (bs @ bs') = stream_bits bs @ stream_bits bs'"
  by (simp_all add: stream_bits_def)

lemma length_stream_bits [simp]: "length (stream_bits bs) = 8 * length bs"
  by (induction bs) simp_all

lemma nth_stream_bits:
  "i < length bs \<Longrightarrow> j < 8 \<Longrightarrow> stream_bits bs ! (8 * i + j) = bit (bs ! i) (7 - j)"
proof (induction bs arbitrary: i)
  case Nil
  then show ?case by simp
next
  case (Cons w bs)
  show ?case
  proof (cases i)
    case 0
    with Cons.prems show ?thesis by (simp add: nth_append nth_low_bits)
  next
    case (Suc k)
    with Cons show ?thesis by (simp add: nth_append)
  qed
qed

lemma drop_stream_bits: "drop (8 * i) (stream_bits bs) = stream_bits (drop i bs)"
proof (induction bs arbitrary: i)
  case Nil
  then show ?case by simp
next
  case (Cons w bs)
  then show ?case by (cases i) simp_all
qed

lemma take_low_bits:
  assumes "k \<le> n"
  shows "take k (low_bits u n) = low_bits (drop_bit (n - k) u) k"
proof -
  have "low_bits u (k + (n - k)) = low_bits (drop_bit (n - k) u) k @ low_bits u (n - k)"
    by (rule low_bits_split)
  with assms show ?thesis by simp
qed

section \<open>Correctness of the writer\<close>

definition bs_wf :: "bstream \<Rightarrow> bool" where
  "bs_wf b \<longleftrightarrow> bs_count b < 8 \<and>
     (0 < bs_count b \<longrightarrow>
        bs_stream b \<noteq> [] \<and> take_bit (bs_count b) (last (bs_stream b)) = 0)"

definition bs_bits :: "bstream \<Rightarrow> bool list" where
  "bs_bits b = take (8 * length (bs_stream b) - bs_count b) (stream_bits (bs_stream b))"

text \<open>One bit more in the last byte.\<close>

lemma byte_write_bit:
  fixes w :: byte and x :: bool
  assumes "c < 8" and "take_bit (Suc c) w = 0"
  defines "w' \<equiv> (if x then w OR push_bit c 1 else w)"
  shows "take (8 - c) (low_bits w' 8) = take (7 - c) (low_bits w 8) @ [x]"
    and "take_bit c w' = 0"
proof -
  have low: "\<not> bit w i" if "i \<le> c" for i
    using assms(2) that by (metis bit_take_bit_iff bit_0_eq bot_apply bot_bool_def less_Suc_eq_le)
  have bit_c: "bit w' c = x"
    using low assms(1) by (auto simp: w'_def bit_simps)
  have bit_other: "bit w' i = bit w i" if "i \<noteq> c" for i
    using that by (auto simp: w'_def bit_simps)
  have "low_bits (drop_bit c w') (8 - c) = low_bits (drop_bit (Suc c) w) (7 - c) @ [x]"
  proof (rule nth_equalityI)
    fix i assume "i < length (low_bits (drop_bit c w') (8 - c))"
    then have i: "i < 8 - c" by simp
    then have "c + (8 - c - Suc i) = 7 - i" using assms(1) by simp
    then have l: "low_bits (drop_bit c w') (8 - c) ! i = bit w' (7 - i)"
      using i by (simp add: nth_low_bits bit_drop_bit_eq)
    show "low_bits (drop_bit c w') (8 - c) ! i = (low_bits (drop_bit (Suc c) w) (7 - c) @ [x]) ! i"
    proof (cases "i < 7 - c")
      case True
      then have "Suc c + (7 - c - Suc i) = 7 - i" by simp
      with True l show ?thesis
        by (simp add: nth_append nth_low_bits bit_drop_bit_eq bit_other)
    next
      case False
      with i have "i = 7 - c" by simp
      with l bit_c assms(1) show ?thesis by (simp add: nth_append)
    qed
  qed (use assms(1) in simp)
  then show "take (8 - c) (low_bits w' 8) = take (7 - c) (low_bits w 8) @ [x]"
    using assms(1) by (simp add: take_low_bits)
  show "take_bit c w' = 0"
    by (rule bit_word_eqI) (use low bit_other in \<open>auto simp: bit_simps\<close>)
qed

text \<open>The writer appends exactly the bit it is given, in an aligned stream (a fresh
  byte) and inside a byte alike.\<close>

lemma writeBit_aligned:
  assumes "bs_count b = 0"
  shows "writeBit b x = b\<lparr>bs_stream := bs_stream b @ [if x then push_bit 7 1 else 0], bs_count := 7\<rparr>"
  using assms by (simp add: writeBit_def Let_def)

lemma writeBit_inside:
  assumes "bs_count b = Suc c" and "bs_stream b = bs @ [w]"
  shows "writeBit b x =
    b\<lparr>bs_stream := bs @ [if x then w OR push_bit c 1 else w], bs_count := c\<rparr>"
  using assms by (cases b) (simp add: writeBit_def Let_def)

lemma writeBit_correct:
  assumes "bs_wf b"
  shows "bs_wf (writeBit b x)" and "bs_bits (writeBit b x) = bs_bits b @ [x]"
proof -
  have "bs_wf (writeBit b x) \<and> bs_bits (writeBit b x) = bs_bits b @ [x]"
  proof (cases "bs_count b")
    case 0
    have z: "take_bit (Suc 7) (0::byte) = 0" by simp
    show ?thesis
      using byte_write_bit [of 7 0 x, OF _ z] 0
      by (cases x) (simp_all add: writeBit_aligned bs_wf_def bs_bits_def)
  next
    case (Suc c)
    with assms have c: "c < 8" and "bs_stream b \<noteq> []"
      and low: "take_bit (Suc c) (last (bs_stream b)) = 0"
      by (auto simp: bs_wf_def)
    then obtain bs w where st: "bs_stream b = bs @ [w]"
      by (meson rev_exhaust)
    with low have lw: "take_bit (Suc c) w = 0" by simp
    have k: "8 * length bs + 8 - c = 8 * length bs + (8 - c)"
      "8 * length bs + 8 - Suc c = 8 * length bs + (7 - c)"
      using c Suc assms by (auto simp: bs_wf_def)
    show ?thesis
      using byte_write_bit [OF c lw, of x] assms Suc st
      by (auto simp: writeBit_inside [OF Suc st] bs_wf_def bs_bits_def k)
  qed
  then show "bs_wf (writeBit b x)" and "bs_bits (writeBit b x) = bs_bits b @ [x]"
    by simp_all
qed

lemma writeBit_nonempty: "bs_stream (writeBit b x) \<noteq> [] \<or> bs_stream b = [] \<and> bs_count b \<noteq> 0"
  by (auto simp: writeBit_def Let_def)

text \<open>The top \<open>n\<close> bits of a left-aligned word, the order the loops of \<open>writeBits\<close> emit.\<close>

definition top_bits :: "u64 \<Rightarrow> nat \<Rightarrow> bool list" where
  "top_bits u n = map (\<lambda>i. i < 64 \<and> bit u (63 - i)) [0..<n]"

lemma length_top_bits [simp]: "length (top_bits u n) = n"
  by (simp add: top_bits_def)

lemma top_bits_0 [simp]: "top_bits u 0 = []"
  by (simp add: top_bits_def)

lemma top_bits_shift:
  "top_bits u (k + n) = top_bits u k @ top_bits (push_bit k u) n"
proof (rule nth_equalityI)
  fix i assume "i < length (top_bits u (k + n))"
  then show "top_bits u (k + n) ! i = (top_bits u k @ top_bits (push_bit k u) n) ! i"
    by (auto simp: top_bits_def nth_append bit_push_bit_word)
qed simp

lemma top_bits_Suc: "top_bits u (Suc n) = bit u 63 # top_bits (push_bit 1 u) n"
  using top_bits_shift [of u 1 n] by (simp add: top_bits_def)

lemma top_bits_byte: "top_bits u 8 = low_bits (ucast (drop_bit 56 u) :: byte) 8"
  by (rule nth_equalityI) (auto simp: top_bits_def nth_low_bits bit_simps)

lemma top_bits_align:
  assumes "n \<le> 64"
  shows "top_bits (push_bit (64 - n) u) n = low_bits u n"
  by (rule nth_equalityI) (use assms in \<open>auto simp: top_bits_def nth_low_bits bit_push_bit_word\<close>)

lemma and_push_bit_iff: "((u::'a::len word) AND push_bit k 1 \<noteq> 0) = (k < LENGTH('a) \<and> bit u k)"
proof
  assume "u AND push_bit k 1 \<noteq> 0"
  then obtain i where "bit (u AND push_bit k 1) i"
    by (metis bit_0_eq bit_eq_iff bot_apply bot_bool_def)
  then show "k < LENGTH('a) \<and> bit u k"
    by (auto simp: bit_simps)
next
  assume "k < LENGTH('a) \<and> bit u k"
  then have "bit (u AND push_bit k 1) k"
    by (auto simp: bit_simps)
  then show "u AND push_bit k 1 \<noteq> 0" by auto
qed

lemma writeBits_bits_correct:
  assumes "bs_wf b"
  shows "bs_wf (writeBits_bits b u n) \<and> bs_bits (writeBits_bits b u n) = bs_bits b @ top_bits u n"
  using assms
proof (induction n arbitrary: b u)
  case 0
  then show ?case by simp
next
  case (Suc n)
  have "(u AND push_bit 63 1 \<noteq> 0) = bit u 63"
    by (simp only: and_push_bit_iff) simp
  then have "writeBits_bits b u (Suc n) = writeBits_bits (writeBit b (bit u 63)) (push_bit 1 u) n"
    by (simp only: writeBits_bits.simps)
  with Suc.IH [OF writeBit_correct(1) [OF Suc.prems]] show ?case
    by (simp only: writeBit_correct(2) [OF Suc.prems] top_bits_Suc append_assoc append.simps)
qed

lemma writeBits_bytes_correct:
  assumes "bs_wf b" and "writeBits_bytes b u n = (b1, u1, n1)"
  shows "bs_wf b1 \<and> bs_bits b1 @ top_bits u1 n1 = bs_bits b @ top_bits u n"
  using assms
proof (induction b u n rule: writeBits_bytes.induct)
  case (1 b u n)
  show ?case
  proof (cases "8 \<le> n \<and> bs_count b = 0")
    case True
    let ?b = "b\<lparr>bs_stream := bs_stream b @ [ucast (drop_bit 56 u)]\<rparr>"
    have "bs_wf ?b" using True by (simp add: bs_wf_def)
    moreover have "writeBits_bytes ?b (push_bit 8 u) (n - 8) = (b1, u1, n1)"
      using 1(3) True by (simp add: writeBits_bytes.simps [of b u n])
    ultimately have IH: "bs_wf b1 \<and>
        bs_bits b1 @ top_bits u1 n1 = bs_bits ?b @ top_bits (push_bit 8 u) (n - 8)"
      using 1(1) True by blast
    have "bs_bits ?b = bs_bits b @ top_bits u 8"
      using True by (simp add: bs_bits_def top_bits_byte)
    moreover have "top_bits u n = top_bits u 8 @ top_bits (push_bit 8 u) (n - 8)"
      using True top_bits_shift [of u 8 "n - 8"] by simp
    ultimately show ?thesis using IH by simp
  next
    case False
    with 1 show ?thesis by (auto simp: writeBits_bytes.simps [of b u n])
  qed
qed

lemma writeBits_correct:
  assumes "bs_wf b" and "n \<le> 64"
  shows "bs_wf (writeBits b u (int n))"
    and "bs_bits (writeBits b u (int n)) = bs_bits b @ low_bits u n"
proof -
  obtain b1 u1 n1 where
    eq: "writeBits_bytes b (push_bit (64 - n) u) n = (b1, u1, n1)"
    by (metis prod_cases3)
  have u': "(if int n < 64 then push_bit (nat (64 - int n)) u else u) = push_bit (64 - n) u"
    using assms(2) by (auto simp: nat_diff_distrib')
  have "bs_wf (writeBits b u (int n)) \<and>
      bs_bits (writeBits b u (int n)) = bs_bits b @ low_bits u n"
    using assms writeBits_bytes_correct [OF assms(1) eq] writeBits_bits_correct [of b1 u1 n1]
    unfolding writeBits_def u' by (auto simp: eq top_bits_align)
  then show "bs_wf (writeBits b u (int n))"
    and "bs_bits (writeBits b u (int n)) = bs_bits b @ low_bits u n"
    by simp_all
qed

lemma writeByte_correct:
  assumes "bs_wf b"
  shows "bs_wf (writeByte b v)" and "bs_bits (writeByte b v) = bs_bits b @ low_bits v 8"
proof -
  have "low_bits (ucast v :: u64) 8 = low_bits v 8"
    by (rule nth_equalityI) (auto simp: nth_low_bits bit_simps)
  with writeBits_correct [OF assms, of 8 "ucast v"]
  show "bs_wf (writeByte b v)" and "bs_bits (writeByte b v) = bs_bits b @ low_bits v 8"
    by (simp_all add: writeByte_def)
qed

lemma writeUvarint_correct:
  assumes "bs_wf b"
  shows "bs_wf (writeUvarint b u) \<and>
    bs_bits (writeUvarint b u) = bs_bits b @ stream_bits (putUvarint u)"
  using assms
proof (induction b u rule: writeUvarint.induct)
  case (1 b u)
  show ?case
  proof (cases "0x80 \<le> u")
    case True
    with 1 show ?thesis
      by (simp add: writeUvarint.simps [of b u] putUvarint_step writeByte_correct)
  next
    case False
    with 1 show ?thesis
      by (simp add: writeUvarint.simps [of b u] putUvarint_stop writeByte_correct)
  qed
qed

lemma writeVarint_correct:
  assumes "bs_wf b"
  shows "bs_wf (writeVarint b v)"
    and "bs_bits (writeVarint b v) = bs_bits b @ stream_bits (putVarint v)"
  using writeUvarint_correct [OF assms] by (simp_all add: writeVarint_def putVarint_def)

section \<open>Correctness of the reader\<close>

definition br_wf :: "byte list \<Rightarrow> bstreamReader \<Rightarrow> bool" where
  "br_wf st r \<longleftrightarrow> br_stream r = st \<and> br_count r \<le> 8 \<and>
     8 * br_pos r + (8 - br_count r) \<le> 8 * length st"

definition br_bits :: "bstreamReader \<Rightarrow> bool list" where
  "br_bits r = drop (8 * br_pos r + (8 - br_count r)) (stream_bits (br_stream r))"

lemma br_new [simp]: "br_wf st (newBReader st)" "br_bits (newBReader st) = stream_bits st"
  by (simp_all add: br_wf_def newBReader_def br_bits_def)

lemma readBit_Cons:
  assumes wf: "br_wf st r" and bits: "br_bits r = x # xs"
  shows "\<exists>r'. readBit r = (Inr x, r') \<and> br_wf st r' \<and> br_bits r' = xs"
proof -
  let ?k = "8 * br_pos r + (8 - br_count r)"
  let ?sb = "stream_bits st"
  have st: "br_stream r = st" "br_count r \<le> 8" using wf by (auto simp: br_wf_def)
  have d: "drop ?k ?sb = x # xs" using bits st by (simp add: br_bits_def)
  then have "?k < length ?sb" by (metis drop_all linorder_not_less list.distinct(1))
  then have lt: "?k < 8 * length st" by simp
  have hd: "?sb ! ?k = x" and tl: "drop (Suc ?k) ?sb = xs"
    using d Cons_nth_drop_Suc [of ?k ?sb] lt by auto
  define p where "p = (if br_count r = 0 then br_pos r + 1 else br_pos r)"
  define c where "c = (if br_count r = 0 then 7 else br_count r - 1)"
  have pc: "p < length st" "c < 8" "8 * p + (7 - c) = ?k"
    using lt st(2) by (auto simp: p_def c_def)
  have "bit (st ! p) c = x"
    using nth_stream_bits [OF pc(1), of "7 - c"] pc hd by simp
  moreover have "readBit r = (Inr (st ! p AND push_bit c 1 \<noteq> 0), r\<lparr>br_pos := p, br_count := c\<rparr>)"
    using pc(1) lt st by (auto simp: readBit_def Let_def p_def c_def)
  moreover have "(st ! p AND push_bit c 1 \<noteq> 0) = bit (st ! p) c"
    using pc(2) by (simp only: and_push_bit_iff) simp
  moreover have "br_bits (r\<lparr>br_pos := p, br_count := c\<rparr>) = xs"
  proof -
    have "8 * p + (8 - c) = Suc ?k" using pc by simp
    with tl st(1) show ?thesis by (simp add: br_bits_def)
  qed
  ultimately show ?thesis using pc st by (auto simp: br_wf_def)
qed

interpretation rd: source br_bits "br_wf st" readBit for st
  by unfold_locales (rule readBit_Cons)

lemma readBits_bits_correct:
  "length xs = n \<Longrightarrow> rd.reads st (readBits_bits n u) xs (foldl shift_in u xs)"
proof (induction n arbitrary: u xs)
  case 0
  then show ?case using rd.reads_ret by (simp del: ret_simp)
next
  case (Suc n)
  then obtain x ys where xs: "xs = x # ys" "length ys = n"
    by (metis length_Suc_conv)
  have "rd.reads st (readBits_bits n (shift_in u x)) ys (foldl shift_in (shift_in u x) ys)"
    using Suc.IH xs(2) .
  with rd.reads_next show ?case
    unfolding xs(1) readBits_bits.simps foldl_Cons by (rule rd.reads_seq_Cons)
qed

lemma readBits_bytes_correct:
  assumes "n = length xs" and "br_wf st r" and "br_bits r = xs @ rest"
  shows "\<exists>ys zs r' n'. xs = ys @ zs \<and> n' = length zs \<and>
    readBits_bytes n u r = (Inr (foldl shift_in u ys, n'), r') \<and> br_wf st r' \<and> br_bits r' = zs @ rest"
  using assms
proof (induction n u r arbitrary: xs rule: readBits_bytes.induct)
  case (1 n u r)
  show ?case
  proof (cases "8 \<le> n \<and> br_count r = 8")
    case False
    then have "readBits_bytes n u r = (Inr (u, n), r)"
      by (subst readBits_bytes.simps) (simp only: if_False)
    with "1.prems" have "xs = [] @ xs \<and> n = length xs \<and>
      readBits_bytes n u r = (Inr (foldl shift_in u [], n), r) \<and> br_wf st r \<and> br_bits r = xs @ rest"
      by simp
    then show ?thesis by blast
  next
    case True
    let ?p = "br_pos r"
    have st: "br_stream r = st" and n: "8 \<le> length xs"
      using "1.prems" True by (auto simp: br_wf_def)
    have bits: "stream_bits (drop ?p st) = xs @ rest"
      using "1.prems"(3) True st by (simp add: br_bits_def drop_stream_bits)
    then have p: "\<not> length st \<le> ?p" using n by auto
    then have "drop ?p st = st ! ?p # drop (Suc ?p) st" by (simp add: Cons_nth_drop_Suc)
    with bits have b: "low_bits (st ! ?p) 8 @ stream_bits (drop (Suc ?p) st) = xs @ rest" by simp
    define ys where "ys = drop 8 xs"
    have xs: "xs = low_bits (st ! ?p) 8 @ ys" and r: "stream_bits (drop (Suc ?p) st) = ys @ rest"
      using arg_cong [OF b, of "take 8"] arg_cong [OF b, of "drop 8"] n append_take_drop_id [of 8 xs]
      by (auto simp: ys_def)
    let ?r = "r\<lparr>br_pos := br_pos r + 1\<rparr>"
    have wf: "br_wf st ?r" "br_bits ?r = ys @ rest"
      using "1.prems"(2) p True st r drop_stream_bits [of "Suc ?p" st]
      by (simp_all add: br_wf_def br_bits_def)
    have len: "n - 8 = length ys" using "1.prems"(1) xs by simp
    from "1.IH" [OF True _ len wf] p st obtain vs zs r' n' where
      IH: "ys = vs @ zs" "n' = length zs" "br_wf st r'" "br_bits r' = zs @ rest"
        "readBits_bytes (n - 8) (push_bit 8 u OR ucast (st ! ?p)) ?r =
           (Inr (foldl shift_in (push_bit 8 u OR ucast (st ! ?p)) vs, n'), r')"
      by auto
    have "readBits_bytes n u r = (Inr (foldl shift_in u (low_bits (st ! ?p) 8 @ vs), n'), r')"
      using True p st IH(5) by (simp add: readBits_bytes.simps [of n u r] foldl_shift_in_byte)
    with IH xs show ?thesis
      by (intro exI [of _ "low_bits (st ! ?p) 8 @ vs"] exI [of _ zs]) auto
  qed
qed

lemma readBits_reads:
  assumes "length xs = n"
  shows "rd.reads st (readBits (int n)) xs (foldl shift_in 0 xs)"
proof
  fix r rest assume "br_wf st r" "br_bits r = xs @ rest"
  with readBits_bytes_correct [of n xs st r rest 0] assms obtain ys zs r' where
    *: "xs = ys @ zs" "br_wf st r'" "br_bits r' = zs @ rest"
      "readBits_bytes n 0 r = (Inr (foldl shift_in 0 ys, length zs), r')"
    by auto
  from rd.readsE [OF readBits_bits_correct *(2,3), of "length zs" "foldl shift_in 0 ys"]
  obtain r'' where "readBits_bits (length zs) (foldl shift_in 0 ys) r' =
      (Inr (foldl shift_in (foldl shift_in 0 ys) zs), r'')" "br_wf st r''" "br_bits r'' = rest"
    by auto
  with * show "\<exists>r'. readBits (int n) r = (Inr (foldl shift_in 0 xs), r') \<and>
      br_wf st r' \<and> br_bits r' = rest"
    by (simp add: readBits_def seq_def)
qed

lemma readBits_low_bits:
  assumes "n \<le> 64"
  shows "rd.reads st (readBits (int n)) (low_bits (u::u64) n) (take_bit n u)"
  using readBits_reads [of "low_bits u n" n st] assms by (simp add: foldl_shift_in_low_bits)

lemma readByte_reads: "rd.reads st readByte (low_bits (w::byte) 8) w"
proof -
  have "rd.reads st (readBits 8) (low_bits w 8) (foldl shift_in 0 (low_bits w 8))"
    using readBits_reads [of "low_bits w 8" 8 st] by simp
  then have "rd.reads st (readBits 8) (low_bits w 8) (ucast w)"
    by (simp add: foldl_shift_in_byte)
  moreover have "rd.reads st (ret (ucast (ucast w :: u64))) [] w"
  proof -
    have "ucast (ucast w :: u64) = w" by (rule bit_word_eqI) (simp add: bit_simps)
    then show ?thesis using rd.reads_ret [of st w] by (simp del: ret_simp)
  qed
  ultimately show ?thesis
    using rd.reads_seq [of st "readBits 8" "low_bits w 8" "ucast w" "\<lambda>u. ret (ucast u)" "[]" w]
    by (simp add: readByte_def)
qed

lemma readUvarint_reads:
  assumes "unat u < 2 ^ (64 - s)" and "s < 64"
  shows "rd.reads st (readUvarint s x) (stream_bits (putUvarint u)) (x OR push_bit s u)"
  using assms
proof (induction u arbitrary: s x rule: putUvarint.induct)
  case (1 u)
  show ?case
  proof
    fix r rest
    assume wf: "br_wf st r" and bits: "br_bits r = stream_bits (putUvarint u) @ rest"
    show "\<exists>r'. readUvarint s x r = (Inr (x OR push_bit s u), r') \<and> br_wf st r' \<and> br_bits r' = rest"
    proof (cases "0x80 \<le> u")
      case True
      from bits have "br_bits r = low_bits (ucast u OR 0x80 :: byte) 8 @
          (stream_bits (putUvarint (drop_bit 7 u)) @ rest)"
        by (simp add: putUvarint_step [OF True])
      from rd.readsE [OF readByte_reads wf this] obtain r1 where
        r1: "readByte r = (Inr (ucast u OR 0x80), r1)" "br_wf st r1"
          "br_bits r1 = stream_bits (putUvarint (drop_bit 7 u)) @ rest" .
      have room: "s + 7 < 64" "unat (drop_bit 7 u) < 2 ^ (64 - (s + 7))"
        using varint_room "1.prems" True by auto
      from rd.readsE [OF "1.IH" [OF True room(2,1)] r1(2,3)] obtain r2 where
        "readUvarint (s + 7) (x OR push_bit s (take_bit 7 u)) r1 = (Inr (x OR push_bit s u), r2)"
        "br_wf st r2" "br_bits r2 = rest"
        by (metis varint_join)
      moreover have "readUvarint s x r = readUvarint (s + 7) (x OR push_bit s (take_bit 7 u)) r1"
        using "1.prems"(2) r1(1) varint_more [of u]
        by (subst readUvarint.simps) (simp only: varint_low_group prod.case sum.case Let_def if_False, simp)
      ultimately show ?thesis by simp
    next
      case False
      from bits have "br_bits r = low_bits (ucast u :: byte) 8 @ rest"
        by (simp add: putUvarint_stop [OF False])
      from rd.readsE [OF readByte_reads wf this] obtain r1 where
        r1: "readByte r = (Inr (ucast u), r1)" "br_wf st r1" "br_bits r1 = rest" .
      have low: "ucast ((ucast u :: byte) AND 0x7f) = u"
        using varint_last [OF False] by (metis varint_low_7f)
      show ?thesis
        using "1.prems"(2) r1 varint_last(1) [OF False]
        by (subst readUvarint.simps) (simp only: low prod.case sum.case Let_def, simp)
    qed
  qed
qed

lemma readVarint_reads: "rd.reads st readVarint (stream_bits (putVarint v)) v"
proof -
  have "unat (zigzag v) < 2 ^ (64 - 0)" using unsigned_less [of "zigzag v"] by simp
  then have "rd.reads st (readUvarint 0 0) (stream_bits (putVarint v)) (zigzag v)"
    using readUvarint_reads [of "zigzag v" 0 st 0] by (simp add: putVarint_def)
  moreover have "rd.reads st (ret (unzigzag (zigzag v))) [] v"
    using rd.reads_ret [of st v] by (simp del: ret_simp)
  ultimately show ?thesis
    using rd.reads_seq [of st "readUvarint 0 0" _ "zigzag v" "\<lambda>u. ret (unzigzag u)" "[]" v]
    by (simp add: readVarint_def)
qed

end
