(* ===== verification/Chunk.thy ===== *)
theory Chunk
  imports Bit_Stream
begin

text \<open>
  \<open>internal/tsdb/chunkenc/chunk.go\<close>: the Gorilla-compressed chunk, its appender and its
  iterator. The appender's pointer to its chunk is an explicit argument and result of
  the operations that write through it, so an appender here is the encoder state alone.
  Copying a borrowed buffer has no effect on values, so \<open>own\<close> only clears the flag.
\<close>

section \<open>Chunks\<close>

record Chunk =
  c_b :: bstream
  c_borrowed :: bool

datatype chunk_error =
    HeaderShort nat
  | CannotResume chunkenc_error
  | ChunkFull
  | NotAfter i64 i64

definition MaxSamplesPerChunk :: nat where
  "MaxSamplesPerChunk = 120"

definition headerLen :: nat where
  "headerLen = 2"

definition zeroChunk :: Chunk where
  "zeroChunk = \<lparr>c_b = \<lparr>bs_stream = [], bs_count = 0\<rparr>, c_borrowed = False\<rparr>"

definition NewChunk :: Chunk where
  "NewChunk = \<lparr>c_b = \<lparr>bs_stream = replicate headerLen 0, bs_count = 0\<rparr>, c_borrowed = False\<rparr>"

definition FromBytes :: "byte list \<Rightarrow> chunk_error + Chunk" where
  "FromBytes b =
     (if length b < headerLen then Inl (HeaderShort (length b))
      else Inr \<lparr>c_b = \<lparr>bs_stream = b, bs_count = 0\<rparr>, c_borrowed = True\<rparr>)"

definition Bytes :: "Chunk \<Rightarrow> byte list" where
  "Bytes c = bs_stream (c_b c)"

definition NumSamples :: "Chunk \<Rightarrow> nat" where
  "NumSamples c =
     (if length (bs_stream (c_b c)) < headerLen then 0 else unat (getUint16BE (bs_stream (c_b c))))"

definition Full :: "Chunk \<Rightarrow> bool" where
  "Full c \<longleftrightarrow> MaxSamplesPerChunk \<le> NumSamples c"

definition own :: "Chunk \<Rightarrow> Chunk" where
  "own c = (if \<not> c_borrowed c then c else c\<lparr>c_borrowed := False\<rparr>)"

section \<open>Iterator\<close>

record Iterator =
  it_br :: bstreamReader
  it_total :: nat
  it_read :: nat
  it_t :: i64
  it_v :: f64
  it_delta :: i64
  it_leading :: byte
  it_trailing :: byte
  it_err :: "chunkenc_error option"

definition newIterator :: "Chunk \<Rightarrow> Iterator" where
  "newIterator c =
     (if length (bs_stream (c_b c)) < headerLen
      then \<lparr>it_br = newBReader [], it_total = 0, it_read = 0, it_t = 0, it_v = 0, it_delta = 0,
            it_leading = 0, it_trailing = 0, it_err = Some ErrEndOfStream\<rparr>
      else \<lparr>it_br = newBReader (drop headerLen (bs_stream (c_b c))), it_total = NumSamples c,
            it_read = 0, it_t = 0, it_v = 0, it_delta = 0,
            it_leading = 0xff, it_trailing = 0, it_err = None\<rparr>)"

text \<open>A read from the iterator's bit reader. An error result stands for a call of
  \<open>it.fail\<close>, which \<open>Next\<close> records.\<close>

definition it_lift :: "(bstreamReader, chunkenc_error, 'a) fallible \<Rightarrow> (Iterator, chunkenc_error, 'a) fallible" where
  "it_lift m it = (case m (it_br it) of (res, br) \<Rightarrow> (res, it\<lparr>it_br := br\<rparr>))"

function readDOD_prefix :: "nat \<Rightarrow> (bstreamReader, chunkenc_error, nat) fallible" where
  "readDOD_prefix p r =
     (if p < 4
      then case readBit r of
             (Inl e, r') \<Rightarrow> (Inl e, r')
           | (Inr b, r') \<Rightarrow> if \<not> b then (Inr p, r') else readDOD_prefix (p + 1) r'
      else (Inr p, r))"
  by pat_completeness auto
termination
  by (relation "measure (\<lambda>(p, r). 4 - p)") auto

declare readDOD_prefix.simps [simp del]

definition dodBits :: "nat \<Rightarrow> int" where
  "dodBits p = (if p = 1 then 14 else if p = 2 then 17 else if p = 3 then 20 else 64)"

definition signExtend :: "int \<Rightarrow> u64 \<Rightarrow> i64" where
  "signExtend nbits u =
     (if nbits < 64 \<and> u AND push_bit (nat (nbits - 1)) 1 \<noteq> 0
      then u OR push_bit (nat nbits) (NOT 0) else u)"

definition readDOD :: "(Iterator, chunkenc_error, i64) fallible" where
  "readDOD =
     seq (it_lift (readDOD_prefix 0)) (\<lambda>p.
       if p = 0 then ret 0
       else seq (it_lift (readBits (dodBits p))) (\<lambda>u. ret (signExtend (dodBits p) u)))"

definition readWindow :: "(Iterator, chunkenc_error, unit) fallible" where
  "readWindow =
     seq (it_lift (readBits 5)) (\<lambda>leading.
     seq (it_lift (readBits 6)) (\<lambda>sig it.
       let sigbits = (if sig = 0 then 64 else sig)
       in (Inr (), it\<lparr>it_leading := ucast leading, it_trailing := ucast (64 - leading - sigbits)\<rparr>)))"

definition readXor :: "(Iterator, chunkenc_error, unit) fallible" where
  "readXor it =
     (if it_leading it = 0xff then (Inl WindowReused, it)
      else let sigbits = 64 - int (unat (it_leading it)) - int (unat (it_trailing it))
           in if sigbits \<le> 0 \<or> 64 < sigbits then (Inl (ImpossibleWindow sigbits), it)
              else seq (it_lift (readBits sigbits)) (\<lambda>u it.
                     (Inr (), it\<lparr>it_v := it_v it XOR push_bit (unat (it_trailing it)) u\<rparr>)) it)"

definition readValue :: "(Iterator, chunkenc_error, unit) fallible" where
  "readValue =
     seq (it_lift readBit) (\<lambda>changed.
       if \<not> changed then ret ()
       else seq (it_lift readBit) (\<lambda>newWindow.
            seq (if newWindow then readWindow else ret ()) (\<lambda>_. readXor)))"

definition nextBody :: "(Iterator, chunkenc_error, unit) fallible" where
  "nextBody it =
     (if it_read it = 0
      then seq (it_lift readVarint) (\<lambda>t. seq (it_lift (readBits 64)) (\<lambda>v it.
             (Inr (), it\<lparr>it_t := t, it_v := v\<rparr>))) it
      else if it_read it = 1
      then seq (it_lift readVarint) (\<lambda>d. seq (\<lambda>it.
             (Inr (), it\<lparr>it_delta := d, it_t := it_t it + d\<rparr>)) (\<lambda>_. readValue)) it
      else seq readDOD (\<lambda>dod. seq (\<lambda>it.
             let delta = it_delta it + dod
             in (Inr (), it\<lparr>it_delta := delta, it_t := it_t it + delta\<rparr>)) (\<lambda>_. readValue)) it)"

definition Next :: "Iterator \<Rightarrow> bool \<times> Iterator" where
  "Next it =
     (if it_err it \<noteq> None \<or> it_total it \<le> it_read it then (False, it)
      else case nextBody it of
             (Inl e, it') \<Rightarrow> (False, it'\<lparr>it_err := Some e\<rparr>)
           | (Inr _, it') \<Rightarrow> (True, it'\<lparr>it_read := it_read it' + 1\<rparr>))"

section \<open>Appender\<close>

record Appender =
  a_t :: i64
  a_v :: f64
  a_delta :: i64
  a_leading :: byte
  a_trailing :: byte

definition dodBuckets :: "(u64 \<times> int \<times> int) list" where
  "dodBuckets = [(0b0, 1, 0), (0b10, 2, 14), (0b110, 3, 17), (0b1110, 4, 20), (0b1111, 4, 64)]"

fun writeDOD_loop :: "(u64 \<times> int \<times> int) list \<Rightarrow> bstream \<Rightarrow> i64 \<Rightarrow> bstream" where
  "writeDOD_loop [] b dod = b"
| "writeDOD_loop ((prefix, prefixBits, bits) # bks) b dod =
     (if bits = 0
      then if dod = 0 then writeBits b prefix prefixBits else writeDOD_loop bks b dod
      else if bits < 64 \<and> (sint dod < - (2 ^ nat (bits - 1)) \<or> 2 ^ nat (bits - 1) - 1 < sint dod)
      then writeDOD_loop bks b dod
      else writeBits (writeBits b prefix prefixBits) dod bits)"

definition writeDOD :: "bstream \<Rightarrow> i64 \<Rightarrow> bstream" where
  "writeDOD b dod = writeDOD_loop dodBuckets b dod"

text \<open>\<open>math/bits\<close>: 64 for the zero word, as in Go.\<close>

definition LeadingZeros64 :: "u64 \<Rightarrow> nat" where
  "LeadingZeros64 x = length (takeWhile Not (low_bits x 64))"

definition TrailingZeros64 :: "u64 \<Rightarrow> nat" where
  "TrailingZeros64 x = length (takeWhile Not (rev (low_bits x 64)))"

definition writeValue :: "Appender \<Rightarrow> bstream \<Rightarrow> f64 \<Rightarrow> Appender \<times> bstream" where
  "writeValue a b v =
     (let x = v XOR a_v a
      in if x = 0 then (a, writeBit b False)
         else
           let b1 = writeBit b True;
               leading0 = (of_nat (LeadingZeros64 x) :: byte);
               trailing = (of_nat (TrailingZeros64 x) :: byte);
               leading = (if 32 \<le> leading0 then 31 else leading0)
           in if a_leading a \<noteq> 0xff \<and> a_leading a \<le> leading \<and> a_trailing a \<le> trailing
              then (a, writeBits (writeBit b1 False) (drop_bit (unat (a_trailing a)) x)
                         (64 - int (unat (a_leading a)) - int (unat (a_trailing a))))
              else
                let b2 = writeBits (writeBit b1 True) (ucast leading) 5;
                    sigbits = 64 - int (unat leading) - int (unat trailing);
                    b3 = writeBits b2 (word_of_int sigbits AND 0x3f) 6;
                    b4 = writeBits b3 (drop_bit (unat trailing) x) sigbits
                in (a\<lparr>a_leading := leading, a_trailing := trailing\<rparr>, b4))"

text \<open>\<open>binary.BigEndian.PutUint16\<close> over the first two bytes.\<close>

definition putHeader :: "bstream \<Rightarrow> nat \<Rightarrow> bstream" where
  "putHeader b n = b\<lparr>bs_stream := putUint16BE (of_nat n) @ drop headerLen (bs_stream b)\<rparr>"

definition Append :: "Appender \<Rightarrow> Chunk \<Rightarrow> i64 \<Rightarrow> f64 \<Rightarrow> chunk_error + (Appender \<times> Chunk)" where
  "Append a c t v =
     (let n = NumSamples c; b = c_b c
      in if MaxSamplesPerChunk \<le> n then Inl ChunkFull
         else if n = 0
         then let b1 = writeBits (writeVarint b t) v 64
              in Inr (a\<lparr>a_t := t, a_v := v\<rparr>, c\<lparr>c_b := putHeader b1 (n + 1)\<rparr>)
         else if sint t \<le> sint (a_t a) then Inl (NotAfter t (a_t a))
         else if n = 1
         then let delta = t - a_t a;
                  (a1, b1) = writeValue (a\<lparr>a_delta := delta\<rparr>) (writeVarint b delta) v
              in Inr (a1\<lparr>a_t := t, a_v := v\<rparr>, c\<lparr>c_b := putHeader b1 (n + 1)\<rparr>)
         else let delta = t - a_t a;
                  (a1, b1) = writeValue (a\<lparr>a_delta := delta\<rparr>) (writeDOD b (delta - a_delta a)) v
              in Inr (a1\<lparr>a_t := t, a_v := v\<rparr>, c\<lparr>c_b := putHeader b1 (n + 1)\<rparr>))"

text \<open>Reading a sample moves neither the counts nor the sticky error, so every
  successful \<open>Next\<close> is one step closer to the total.\<close>

definition keeps_counts :: "(Iterator, chunkenc_error, 'a) fallible \<Rightarrow> bool" where
  "keeps_counts m \<longleftrightarrow>
     (\<forall>it. it_total (snd (m it)) = it_total it \<and> it_read (snd (m it)) = it_read it \<and>
        it_err (snd (m it)) = it_err it)"

named_theorems keeps_intros \<open>iterator steps that leave the counts alone\<close>

lemma keeps_seq [keeps_intros]:
  assumes "keeps_counts m" and "\<And>x. keeps_counts (f x)"
  shows "keeps_counts (seq m f)"
  unfolding keeps_counts_def
proof
  fix it
  obtain res it' where m: "m it = (res, it')" by force
  then have "it_total it' = it_total it \<and> it_read it' = it_read it \<and> it_err it' = it_err it"
    using assms(1) by (metis keeps_counts_def snd_conv)
  with m assms(2) show "it_total (snd (seq m f it)) = it_total it \<and>
      it_read (snd (seq m f it)) = it_read it \<and> it_err (snd (seq m f it)) = it_err it"
    by (cases res) (auto simp: seq_def keeps_counts_def)
qed

lemma keeps_lift [keeps_intros]: "keeps_counts (it_lift m)"
  by (simp add: keeps_counts_def it_lift_def split: prod.split)

lemma keeps_ret [keeps_intros]: "keeps_counts (ret x)"
  by (simp add: keeps_counts_def)

lemma keeps_if [keeps_intros]:
  "keeps_counts m \<Longrightarrow> keeps_counts m' \<Longrightarrow> keeps_counts (if P then m else m')"
  by simp

lemma keeps_readDOD [keeps_intros]: "keeps_counts readDOD"
  unfolding readDOD_def by (intro keeps_intros)

lemma keeps_readWindow [keeps_intros]: "keeps_counts readWindow"
  unfolding readWindow_def
  by (intro keeps_intros) (simp add: keeps_counts_def Let_def)

lemma keeps_readXor [keeps_intros]: "keeps_counts readXor"
proof -
  have "keeps_counts (seq (it_lift (readBits n)) (\<lambda>u it.
          (Inr (), it\<lparr>it_v := it_v it XOR push_bit (unat (it_trailing it)) u\<rparr>)))" for n
    by (intro keeps_intros) (simp add: keeps_counts_def)
  then show ?thesis by (simp add: keeps_counts_def readXor_def Let_def)
qed

lemma keeps_readValue [keeps_intros]: "keeps_counts readValue"
  unfolding readValue_def by (intro keeps_intros)

lemma keeps_nextBody: "keeps_counts nextBody"
proof -
  have "keeps_counts (seq (it_lift readVarint) (\<lambda>t. seq (it_lift (readBits 64)) (\<lambda>v it.
      (Inr (), it\<lparr>it_t := t, it_v := v\<rparr>))))"
    and "keeps_counts (seq (it_lift readVarint) (\<lambda>d. seq (\<lambda>it.
      (Inr (), it\<lparr>it_delta := d, it_t := it_t it + d\<rparr>)) (\<lambda>_. readValue)))"
    and "keeps_counts (seq readDOD (\<lambda>dod. seq (\<lambda>it. let delta = it_delta it + dod
      in (Inr (), it\<lparr>it_delta := delta, it_t := it_t it + delta\<rparr>)) (\<lambda>_. readValue)))"
    by (intro keeps_intros; simp add: keeps_counts_def Let_def)+
  then show ?thesis by (simp add: keeps_counts_def nextBody_def)
qed

lemma Next_True:
  assumes "Next it = (True, it')"
  shows "it_total it' = it_total it" and "it_read it' = Suc (it_read it)"
    and "it_read it < it_total it" and "it_err it' = None"
  using assms keeps_nextBody
  by (auto simp: Next_def keeps_counts_def split: if_splits prod.splits sum.splits)
     (metis snd_conv)+

lemma Next_progress:
  "(True, it') = Next it \<Longrightarrow> it_total it' - it_read it' < it_total it - it_read it"
  using Next_True [of it it'] by simp

text \<open>The loop \<open>for it.Next() { ... it.At() ... }\<close>: every sample the iterator yields, and
  the iterator it leaves.\<close>

function iterate :: "Iterator \<Rightarrow> (i64 \<times> f64) list \<times> Iterator" where
  "iterate it =
     (case Next it of
        (False, it') \<Rightarrow> ([], it')
      | (True, it') \<Rightarrow> (let (xs, it'') = iterate it' in ((it_t it', it_v it') # xs, it'')))"
  by pat_completeness auto
termination
  by (relation "measure (\<lambda>it. it_total it - it_read it)") (auto simp: Next_progress)

declare iterate.simps [simp del]

text \<open>\<open>Chunk.Appender\<close>: an appender for an empty chunk, or the encoder state and the bit
  cursor recovered by replaying a non-empty one.\<close>

definition freshAppender :: Appender where
  "freshAppender = \<lparr>a_t = 0, a_v = 0, a_delta = 0, a_leading = 0xff, a_trailing = 0\<rparr>"

definition appender :: "Chunk \<Rightarrow> chunk_error + (Appender \<times> Chunk)" where
  "appender c =
     (if NumSamples c = 0 then Inr (freshAppender, own c)
      else
        let it = snd (iterate (newIterator c))
        in case it_err it of
             Some e \<Rightarrow> Inl (CannotResume e)
           | None \<Rightarrow>
               let a = \<lparr>a_t = it_t it, a_v = it_v it, a_delta = it_delta it,
                        a_leading = it_leading it, a_trailing = it_trailing it\<rparr>;
                   pos = headerLen + br_pos (it_br it);
                   (endp, cnt) = (if br_count (it_br it) \<noteq> 8
                                  then (pos + 1, br_count (it_br it)) else (pos, 0));
                   c1 = own c
               in Inr (a, c1\<lparr>c_b := \<lparr>bs_stream = take endp (bs_stream (c_b c1)), bs_count = cnt\<rparr>\<rparr>))"

text \<open>A run of appends, stopping at the first refusal.\<close>

fun appendAll :: "Appender \<Rightarrow> Chunk \<Rightarrow> (i64 \<times> f64) list \<Rightarrow> chunk_error + (Appender \<times> Chunk)" where
  "appendAll a c [] = Inr (a, c)"
| "appendAll a c ((t, v) # xs) =
     (case Append a c t v of Inl e \<Rightarrow> Inl e | Inr (a', c') \<Rightarrow> appendAll a' c' xs)"

end
