(* ===== verification/Chunk_Codec.thy ===== *)
theory Chunk_Codec
  imports Chunk
begin

text \<open>
  Correctness of the chunk codec. The encoder and the decoder are both proved to follow
  one abstract encoding, a function from the codec state and the next sample to the bits
  of that sample and the next state; the round trip, the resumption of a chunk read from
  its bytes and the bounds of the header follow from it.
\<close>

section \<open>XOR windows\<close>

definition window :: "byte \<Rightarrow> byte \<Rightarrow> bool" where
  "window l t \<longleftrightarrow> unat l < 32 \<and> unat l + unat t < 64"

definition window_or_none :: "byte \<Rightarrow> byte \<Rightarrow> bool" where
  "window_or_none l t \<longleftrightarrow> l = 0xff \<or> window l t"

definition fits :: "nat \<Rightarrow> nat \<Rightarrow> u64 \<Rightarrow> bool" where
  "fits l t x \<longleftrightarrow> (\<forall>i. bit x i \<longrightarrow> t \<le> i \<and> i < 64 - l)"

lemma fits_mono: "fits l t x \<Longrightarrow> l' \<le> l \<Longrightarrow> t' \<le> t \<Longrightarrow> fits l' t' x"
  by (fastforce simp: fits_def)

lemma fits_shift:
  assumes "fits l t x"
  shows "push_bit t (take_bit (64 - l - t) (drop_bit t x)) = x"
proof (rule bit_word_eqI)
  fix n assume "n < LENGTH(64)"
  then show "bit (push_bit t (take_bit (64 - l - t) (drop_bit t x))) n = bit x n"
    using assms
    by (auto simp: fits_def bit_push_bit_word bit_take_bit_iff bit_drop_bit_eq)
qed

lemma bit_LeadingZeros64: "bit x i \<Longrightarrow> i < 64 - LeadingZeros64 x"
proof (rule ccontr)
  assume b: "bit x i" and "\<not> i < 64 - LeadingZeros64 x"
  have i: "i < 64" using b bit_imp_le_length [of x i] by simp
  let ?j = "63 - i"
  have j: "?j < length (takeWhile Not (low_bits x 64))"
    using \<open>\<not> i < 64 - LeadingZeros64 x\<close> i by (simp add: LeadingZeros64_def)
  then have "\<not> low_bits x 64 ! ?j"
    by (metis nth_mem set_takeWhileD takeWhile_nth)
  with b i show False by (simp add: nth_low_bits)
qed

lemma bit_TrailingZeros64: "bit x i \<Longrightarrow> TrailingZeros64 x \<le> i"
proof (rule ccontr)
  assume b: "bit x i" and "\<not> TrailingZeros64 x \<le> i"
  have i: "i < 64" using b bit_imp_le_length [of x i] by simp
  have "i < length (takeWhile Not (rev (low_bits x 64)))"
    using \<open>\<not> TrailingZeros64 x \<le> i\<close> by (simp add: TrailingZeros64_def)
  then have "\<not> rev (low_bits x 64) ! i"
    by (metis nth_mem set_takeWhileD takeWhile_nth)
  with b i show False by (simp add: rev_nth nth_low_bits)
qed

lemma fits_zeros: "fits (LeadingZeros64 x) (TrailingZeros64 x) x"
  by (auto simp: fits_def bit_LeadingZeros64 bit_TrailingZeros64)

lemma zeros_sum:
  assumes "x \<noteq> 0"
  shows "LeadingZeros64 x + TrailingZeros64 x < 64"
proof -
  obtain i where "bit x i"
    using assms by (metis bit_0_eq bit_eq_iff bot_apply bot_bool_def)
  from bit_LeadingZeros64 [OF this] bit_TrailingZeros64 [OF this] show ?thesis by simp
qed

text \<open>The window the encoder computes for a changed value: leading zeros clamped to 31.\<close>

definition lead_of :: "u64 \<Rightarrow> byte" where
  "lead_of x = (let l = (of_nat (LeadingZeros64 x) :: byte) in if 32 \<le> l then 31 else l)"

definition trail_of :: "u64 \<Rightarrow> byte" where
  "trail_of x = of_nat (TrailingZeros64 x)"

lemma unat_of_nat_byte: "n < 256 \<Longrightarrow> unat (of_nat n :: byte) = n"
  by (simp add: unsigned_of_nat take_bit_nat_eq_self_iff)

lemma window_of:
  assumes "x \<noteq> 0"
  shows "window (lead_of x) (trail_of x)" and "fits (unat (lead_of x)) (unat (trail_of x)) x"
proof -
  have l: "unat (of_nat (LeadingZeros64 x) :: byte) = LeadingZeros64 x"
    and t: "unat (trail_of x) = TrailingZeros64 x"
    using zeros_sum [OF assms] by (simp_all add: unat_of_nat_byte trail_of_def)
  have lo: "unat (lead_of x) \<le> LeadingZeros64 x" "unat (lead_of x) < 32"
    using l by (auto simp: lead_of_def Let_def word_le_nat_alt)
  then show "window (lead_of x) (trail_of x)"
    using t zeros_sum [OF assms] by (simp add: window_def)
  show "fits (unat (lead_of x)) (unat (trail_of x)) x"
    using fits_mono [OF fits_zeros] lo(1) t by simp
qed

section \<open>The encoding of a value\<close>

definition value_enc :: "byte \<Rightarrow> byte \<Rightarrow> u64 \<Rightarrow> bool list \<times> byte \<times> byte" where
  "value_enc l t x =
     (if x = 0 then ([False], l, t)
      else if l \<noteq> 0xff \<and> l \<le> lead_of x \<and> t \<le> trail_of x
      then ([True, False] @ low_bits (drop_bit (unat t) x) (64 - unat l - unat t), l, t)
      else let l' = lead_of x; t' = trail_of x; sig = 64 - unat l' - unat t'
           in ([True, True] @ low_bits (ucast l' :: u64) 5 @ low_bits (of_nat sig :: u64) 6
                 @ low_bits (drop_bit (unat t') x) sig, l', t'))"

lemma value_enc_cases [consumes 1, case_names same reuse fresh]:
  assumes "window_or_none l t"
  obtains (same) "x = 0" "value_enc l t x = ([False], l, t)"
  | (reuse) "x \<noteq> 0" "window l t" "fits (unat l) (unat t) x" "l \<noteq> 0xff"
      "l \<le> lead_of x" "t \<le> trail_of x"
      "value_enc l t x =
         ([True, False] @ low_bits (drop_bit (unat t) x) (64 - unat l - unat t), l, t)"
  | (fresh) l' t' where "x \<noteq> 0" "window l' t'" "fits (unat l') (unat t') x"
      "l' = lead_of x" "t' = trail_of x" "\<not> (l \<noteq> 0xff \<and> l \<le> lead_of x \<and> t \<le> trail_of x)"
      "value_enc l t x =
         ([True, True] @ low_bits (ucast l' :: u64) 5 @ low_bits (of_nat (64 - unat l' - unat t') :: u64) 6
            @ low_bits (drop_bit (unat t') x) (64 - unat l' - unat t'), l', t')"
proof (cases "x = 0")
  case True
  then show thesis by (intro same) (simp_all add: value_enc_def)
next
  case x: False
  show thesis
  proof (cases "l \<noteq> 0xff \<and> l \<le> lead_of x \<and> t \<le> trail_of x")
    case True
    then have "fits (unat l) (unat t) x"
      using fits_mono [OF window_of(2) [OF x]] by (simp add: word_le_nat_alt)
    with True x assms show thesis
      by (intro reuse) (auto simp: value_enc_def window_or_none_def)
  next
    case False
    with x window_of [OF x] show thesis
      by (intro fresh [of "lead_of x" "trail_of x"]) (simp_all add: value_enc_def Let_def)
  qed
qed

lemma value_enc_window:
  assumes "window_or_none l t" and "value_enc l t x = (bs, l', t')"
  shows "window_or_none l' t'"
  using assms(1) by (cases rule: value_enc_cases [where x = x]) (use assms in \<open>auto simp: window_or_none_def\<close>)

lemma writeBits_int:
  assumes "bs_wf b" and "0 \<le> n" and "n \<le> 64"
  shows "bs_wf (writeBits b u n)" and "bs_bits (writeBits b u n) = bs_bits b @ low_bits u (nat n)"
  using writeBits_correct [OF assms(1), of "nat n" u] assms(2,3) by simp_all

lemma low_bits_and_mask:
  "low_bits (w AND 0x3f :: u64) 6 = low_bits w 6"
proof (rule low_bits_eqI)
  fix i :: nat assume "i < 6"
  have m: "(0x3f::u64) = mask 6" by (simp add: mask_eq_exp_minus_1)
  show "bit (w AND 0x3f) i = bit w i"
    unfolding m using \<open>i < 6\<close> by (simp add: bit_and_iff bit_mask_iff)
qed

lemma nat_window: "nat (64 - uint (l::byte) - uint (t::byte)) = 64 - unat l - unat t"
proof -
  have "nat (64 - int (unat l) - int (unat t)) = 64 - unat l - unat t" by arith
  then show ?thesis by simp
qed

lemma window_uint: "window l t \<Longrightarrow> uint l + uint t < 64"
  unfolding window_def uint_nat by linarith

lemma writeBits_window:
  assumes "bs_wf b" and "window l t"
  shows "bs_wf (writeBits b u (64 - uint l - uint t))"
    and "bs_bits (writeBits b u (64 - uint l - uint t)) = bs_bits b @ low_bits u (64 - unat l - unat t)"
proof -
  have "uint l + uint t < 64" "0 \<le> uint l" "0 \<le> uint t"
    using window_uint [OF assms(2)] by simp_all
  then have "0 \<le> 64 - uint l - uint t" "64 - uint l - uint t \<le> 64" by linarith+
  from writeBits_int [OF assms(1) this, of u]
  show "bs_wf (writeBits b u (64 - uint l - uint t))"
    and "bs_bits (writeBits b u (64 - uint l - uint t)) = bs_bits b @ low_bits u (64 - unat l - unat t)"
    by (simp_all only: nat_window)
qed

lemma writeValue_correct:
  assumes "bs_wf b" and "window_or_none (a_leading a) (a_trailing a)"
    and enc: "value_enc (a_leading a) (a_trailing a) (v XOR a_v a) = (bs, l', t')"
  shows "\<exists>b'. writeValue a b v = (a\<lparr>a_leading := l', a_trailing := t'\<rparr>, b') \<and>
    bs_wf b' \<and> bs_bits b' = bs_bits b @ bs"
proof -
  let ?x = "v XOR a_v a"
  from assms(2) show ?thesis
  proof (cases rule: value_enc_cases [where x = ?x])
    case same
    with enc assms(1) show ?thesis by (simp add: writeValue_def writeBit_correct)
  next
    case reuse
    have "writeValue a b v = (a, writeBits (writeBit (writeBit b True) False)
        (drop_bit (unat (a_trailing a)) ?x) (64 - uint (a_leading a) - uint (a_trailing a)))"
      using reuse(1,4-6) by (simp add: writeValue_def Let_def lead_of_def trail_of_def)
    with reuse(2,7) enc assms(1) show ?thesis
      by (auto simp: writeBit_correct writeBits_window)
  next
    case (fresh l'' t'')
    have ll: "l'' = l'" "t'' = t'" using fresh(7) enc by auto
    from fresh(2) ll have win: "window l' t'" by simp
    then have "64 - uint l' - uint t' = int (64 - unat l' - unat t')"
      by (simp add: window_def)
    then have sig: "(word_of_int (64 - uint l' - uint t') :: u64) = of_nat (64 - unat l' - unat t')"
      by simp
    define b1 where "b1 = writeBit (writeBit b True) True"
    define b2 where "b2 = writeBits b1 (ucast l') 5"
    define b3 where "b3 = writeBits b2 (word_of_int (64 - uint l' - uint t') AND 0x3f) 6"
    define b4 where "b4 = writeBits b3 (drop_bit (unat t') ?x) (64 - uint l' - uint t')"
    have b1: "bs_wf b1" "bs_bits b1 = bs_bits b @ [True, True]"
      using assms(1) by (simp_all add: b1_def writeBit_correct)
    have b2: "bs_wf b2" "bs_bits b2 = bs_bits b1 @ low_bits (ucast l' :: u64) 5"
      using writeBits_int [OF b1(1), of 5 "ucast l'"] by (simp_all add: b2_def)
    have b3: "bs_wf b3" "bs_bits b3 = bs_bits b2 @ low_bits (of_nat (64 - unat l' - unat t') :: u64) 6"
      using writeBits_int [OF b2(1), of 6 "word_of_int (64 - uint l' - uint t') AND 0x3f"]
      unfolding b3_def sig by (simp_all add: low_bits_and_mask)
    have b4: "bs_wf b4"
      "bs_bits b4 = bs_bits b3 @ low_bits (drop_bit (unat t') ?x) (64 - unat l' - unat t')"
      using writeBits_window [OF b3(1) win] unfolding b4_def by blast+
    have "writeValue a b v = (a\<lparr>a_leading := l', a_trailing := t'\<rparr>, b4)"
      using fresh(1,4-6) ll
      by (auto simp: writeValue_def Let_def lead_of_def trail_of_def b4_def b3_def b2_def b1_def)
    moreover have "bs = [True, True] @ low_bits (ucast l' :: u64) 5 @
        low_bits (of_nat (64 - unat l' - unat t') :: u64) 6 @
        low_bits (drop_bit (unat t') ?x) (64 - unat l' - unat t')"
      using fresh(7) enc ll by simp
    ultimately show ?thesis using b1(2) b2(2) b3(2) b4 by simp
  qed
qed

section \<open>The decoding of a value\<close>

lemma it_lift_reads:
  assumes "rd.reads st m xs v" and "br_wf st (it_br it)" and "br_bits (it_br it) = xs @ rest"
  obtains br where "it_lift m it = (Inr v, it\<lparr>it_br := br\<rparr>)"
    and "br_wf st br" and "br_bits br = rest"
proof -
  from rd.readsE [OF assms] obtain br where
    "m (it_br it) = (Inr v, br)" "br_wf st br" "br_bits br = rest" .
  then show thesis using that [of br] by (simp add: it_lift_def)
qed

lemma take_bit_of_small: "n < 2 ^ k \<Longrightarrow> take_bit k (of_nat n :: u64) = of_nat n"
  by (simp only: take_bit_of_nat take_bit_nat_eq_self)

lemma of_nat_small_nonzero: "0 < n \<Longrightarrow> n < 64 \<Longrightarrow> (of_nat n :: u64) \<noteq> 0"
proof
  assume n: "0 < n" "n < 64" "(of_nat n :: u64) = 0"
  have "unat (of_nat n :: u64) = n"
    using n(2) by (simp add: unsigned_of_nat take_bit_nat_eq_self)
  with n show False by simp
qed

lemma readBits_small:
  assumes "n < 2 ^ k" and "k \<le> 64"
  shows "rd.reads st (readBits (int k)) (low_bits (of_nat n :: u64) k) (of_nat n)"
  using readBits_low_bits [of k st "of_nat n"] assms by (simp add: take_bit_of_small)

lemma readXor_reads:
  assumes "window (it_leading it) (it_trailing it)" and "fits (unat (it_leading it)) (unat (it_trailing it)) x"
    and "br_wf st (it_br it)"
    and "br_bits (it_br it) =
      low_bits (drop_bit (unat (it_trailing it)) x) (64 - unat (it_leading it) - unat (it_trailing it)) @ rest"
  obtains br where "readXor it = (Inr (), it\<lparr>it_br := br, it_v := it_v it XOR x\<rparr>)"
    and "br_wf st br" and "br_bits br = rest"
proof -
  let ?l = "unat (it_leading it)" and ?t = "unat (it_trailing it)"
  let ?n = "64 - ?l - ?t"
  have win: "?l < 32" "?l + ?t < 64" using assms(1) by (auto simp: window_def)
  have ne: "it_leading it \<noteq> 0xff" using win(1) by auto
  have sig: "64 - int ?l - int ?t = int ?n" using win by simp
  have "\<not> (int k \<le> 0 \<or> 64 < int k)" if "0 < k" "k \<le> 64" for k
    using that by simp
  moreover have "0 < ?n" "?n \<le> 64" using win by simp_all
  ultimately have nz: "\<not> (int ?n \<le> 0 \<or> 64 < int ?n)" by blast
  have "rd.reads st (readBits (int ?n)) (low_bits (drop_bit ?t x) ?n) (take_bit ?n (drop_bit ?t x))"
    by (rule readBits_low_bits) simp
  from it_lift_reads [OF this assms(3,4)] obtain br where
    br: "it_lift (readBits (int ?n)) it = (Inr (take_bit ?n (drop_bit ?t x)), it\<lparr>it_br := br\<rparr>)"
      "br_wf st br" "br_bits br = rest" .
  have "readXor it = seq (it_lift (readBits (int ?n))) (\<lambda>u it.
                     (Inr (), it\<lparr>it_v := it_v it XOR push_bit (unat (it_trailing it)) u\<rparr>)) it"
    using ne nz by (simp only: readXor_def sig Let_def if_False)
  also have "\<dots> = (Inr (), it\<lparr>it_br := br, it_v := it_v it XOR x\<rparr>)"
    using fits_shift [OF assms(2)]
    by (simp only: seq_def br(1) prod.case sum.case) simp
  finally show thesis using br(2,3) that by blast
qed

lemma readWindow_reads:
  assumes "window l t" and "br_wf st (it_br it)"
    and "br_bits (it_br it) =
      low_bits (ucast l :: u64) 5 @ low_bits (of_nat (64 - unat l - unat t) :: u64) 6 @ rest"
  obtains br where "readWindow it = (Inr (), it\<lparr>it_br := br, it_leading := l, it_trailing := t\<rparr>)"
    and "br_wf st br" and "br_bits br = rest"
proof -
  let ?n = "64 - unat l - unat t"
  let ?sig = "of_nat (?n mod 64) :: u64"
  have win: "unat l < 32" "unat l + unat t < 64" using assms(1) by (auto simp: window_def)
  have ul: "(ucast l :: u64) = of_nat (unat l)" by simp
  have r5: "rd.reads st (readBits 5) (low_bits (ucast l :: u64) 5) (ucast l)"
    using readBits_small [of "unat l" 5 st] win(1) by simp
  have "low_bits (of_nat ?n :: u64) 6 = low_bits ?sig 6"
  proof (cases "?n = 64")
    case True
    then show ?thesis
      using low_bits_and_mask [of "64::u64"] by simp
  next
    case False
    then have "?n < 64" by linarith
    then show ?thesis by simp
  qed
  then have r6: "rd.reads st (readBits 6) (low_bits (of_nat ?n :: u64) 6) ?sig"
    using readBits_small [of "?n mod 64" 6 st] by simp
  from it_lift_reads [OF r5 assms(2,3)] obtain br1 where
    br1: "it_lift (readBits 5) it = (Inr (ucast l), it\<lparr>it_br := br1\<rparr>)" "br_wf st br1"
      "br_bits br1 = low_bits (of_nat ?n :: u64) 6 @ rest" .
  from it_lift_reads [OF r6, of "it\<lparr>it_br := br1\<rparr>" rest] br1(2,3) obtain br2 where
    br2: "it_lift (readBits 6) (it\<lparr>it_br := br1\<rparr>) = (Inr ?sig, it\<lparr>it_br := br2\<rparr>)"
      "br_wf st br2" "br_bits br2 = rest" by auto
  have n0: "0 < ?n" "?n \<le> 64" using win(2) by auto
  have sig: "(if ?sig = 0 then 64 else ?sig) = of_nat ?n"
  proof (cases "?n = 64")
    case True
    then show ?thesis by simp
  next
    case False
    with n0 have m: "?n mod 64 = ?n" "0 < ?n" "?n < 64" by simp_all
    from of_nat_small_nonzero [OF m(2,3)] m(1) show ?thesis by (simp only: if_False)
  qed
  have "(64 :: u64) - ucast l - of_nat ?n = of_nat (unat t)"
  proof -
    have "(of_nat (unat l + ?n + unat t) :: u64) = 64" using win by simp
    then have "ucast l + of_nat ?n + of_nat (unat t) = (64::u64)" by simp
    then show ?thesis by (simp add: algebra_simps)
  qed
  moreover have ucast_back: "ucast (ucast w :: u64) = w" for w :: byte
    by (rule bit_word_eqI) (simp add: bit_simps)
  ultimately have tr: "ucast ((64 :: u64) - ucast l - of_nat ?n) = t"
    by (simp only: of_nat_unat)
  from ucast_back [of l] tr sig have "readWindow it = (Inr (), it\<lparr>it_br := br2, it_leading := l, it_trailing := t\<rparr>)"
    unfolding readWindow_def
    by (simp only: seq_def br1(1) br2(1) Let_def prod.case sum.case)
  with br2 that show thesis by blast
qed

lemma readValue_reads:
  assumes "window_or_none (it_leading it) (it_trailing it)"
    and enc: "value_enc (it_leading it) (it_trailing it) x = (bs, l', t')"
    and wf: "br_wf st (it_br it)" and bits: "br_bits (it_br it) = bs @ rest"
  obtains br where "readValue it =
      (Inr (), it\<lparr>it_br := br, it_leading := l', it_trailing := t', it_v := it_v it XOR x\<rparr>)"
    and "br_wf st br" and "br_bits br = rest"
  using assms(1)
proof (cases rule: value_enc_cases [where x = x])
  case same
  then have e: "bs = [False]" "l' = it_leading it" "t' = it_trailing it" using enc by auto
  from it_lift_reads [OF rd.reads_next wf, of False rest] bits e obtain br where
    "it_lift readBit it = (Inr False, it\<lparr>it_br := br\<rparr>)" "br_wf st br" "br_bits br = rest"
    by auto
  then show thesis
    using that [of br] same e by (simp add: readValue_def seq_def)
next
  case reuse
  let ?bs = "low_bits (drop_bit (unat (it_trailing it)) x)
    (64 - unat (it_leading it) - unat (it_trailing it))"
  have e: "bs = True # False # ?bs" "l' = it_leading it" "t' = it_trailing it"
    using enc reuse(7) by auto
  from it_lift_reads [OF rd.reads_next wf, of True "False # ?bs @ rest"] bits e obtain br1 where
    br1: "it_lift readBit it = (Inr True, it\<lparr>it_br := br1\<rparr>)" "br_wf st br1"
      "br_bits br1 = False # ?bs @ rest" by auto
  from it_lift_reads [OF rd.reads_next, of st "it\<lparr>it_br := br1\<rparr>" False "?bs @ rest"] br1
  obtain br2 where br2: "it_lift readBit (it\<lparr>it_br := br1\<rparr>) = (Inr False, it\<lparr>it_br := br2\<rparr>)"
    "br_wf st br2" "br_bits br2 = ?bs @ rest" by auto
  from readXor_reads [of "it\<lparr>it_br := br2\<rparr>" x st rest] reuse br2(2,3) obtain br3 where
    "readXor (it\<lparr>it_br := br2\<rparr>) = (Inr (), it\<lparr>it_br := br3, it_v := it_v it XOR x\<rparr>)"
    "br_wf st br3" "br_bits br3 = rest" by auto
  then show thesis
    using that [of br3] e by (simp add: readValue_def seq_def br1(1) br2(1))
next
  case (fresh l t)
  let ?w = "low_bits (ucast l :: u64) 5 @ low_bits (of_nat (64 - unat l - unat t) :: u64) 6"
  let ?bs = "low_bits (drop_bit (unat t) x) (64 - unat l - unat t)"
  have e: "bs = True # True # ?w @ ?bs" "l' = l" "t' = t"
    using enc fresh(7) by auto
  from it_lift_reads [OF rd.reads_next wf, of True "True # ?w @ ?bs @ rest"] bits e obtain br1 where
    br1: "it_lift readBit it = (Inr True, it\<lparr>it_br := br1\<rparr>)" "br_wf st br1"
      "br_bits br1 = True # ?w @ ?bs @ rest" by auto
  from it_lift_reads [OF rd.reads_next, of st "it\<lparr>it_br := br1\<rparr>" True "?w @ ?bs @ rest"] br1
  obtain br2 where br2: "it_lift readBit (it\<lparr>it_br := br1\<rparr>) = (Inr True, it\<lparr>it_br := br2\<rparr>)"
    "br_wf st br2" "br_bits br2 = ?w @ ?bs @ rest" by auto
  from readWindow_reads [OF fresh(2), of st "it\<lparr>it_br := br2\<rparr>" "?bs @ rest"] br2(2,3)
  obtain br3 where br3: "readWindow (it\<lparr>it_br := br2\<rparr>) =
      (Inr (), it\<lparr>it_br := br3, it_leading := l, it_trailing := t\<rparr>)"
    "br_wf st br3" "br_bits br3 = ?bs @ rest" by auto
  have swap: "it\<lparr>it_leading := l, it_trailing := t, it_br := br, it_v := y\<rparr> =
      it\<lparr>it_br := br, it_leading := l, it_trailing := t, it_v := y\<rparr>" for br y
    by (cases it) simp
  from readXor_reads [of "it\<lparr>it_br := br3, it_leading := l, it_trailing := t\<rparr>" x st rest]
    fresh(2,3) br3(2,3) obtain br4 where
    "readXor (it\<lparr>it_br := br3, it_leading := l, it_trailing := t\<rparr>) =
      (Inr (), it\<lparr>it_br := br4, it_leading := l, it_trailing := t, it_v := it_v it XOR x\<rparr>)"
    "br_wf st br4" "br_bits br4 = rest" by (auto simp: swap)
  then show thesis
    using that [of br4] e by (simp add: readValue_def seq_def br1(1) br2(1) br3(1))
qed

section \<open>Deltas of deltas\<close>

definition dod_enc :: "i64 \<Rightarrow> bool list" where
  "dod_enc d =
     (if d = 0 then [False]
      else if - (2 ^ 13) \<le> sint d \<and> sint d < 2 ^ 13 then [True, False] @ low_bits d 14
      else if - (2 ^ 16) \<le> sint d \<and> sint d < 2 ^ 16 then [True, True, False] @ low_bits d 17
      else if - (2 ^ 19) \<le> sint d \<and> sint d < 2 ^ 19 then [True, True, True, False] @ low_bits d 20
      else [True, True, True, True] @ low_bits d 64)"

lemma prefix_bits:
  "low_bits (0 :: u64) 1 = [False]" "low_bits (2 :: u64) 2 = [True, False]"
  "low_bits (6 :: u64) 3 = [True, True, False]" "low_bits (14 :: u64) 4 = [True, True, True, False]"
  "low_bits (15 :: u64) 4 = [True, True, True, True]"
  by code_simp+

lemmas prefix_bits_simps = prefix_bits prefix_bits(1) [unfolded One_nat_def]

lemma writeDOD_correct:
  assumes "bs_wf b"
  shows "bs_wf (writeDOD b d)" and "bs_bits (writeDOD b d) = bs_bits b @ dod_enc d"
proof -
  have "bs_wf (writeDOD b d) \<and> bs_bits (writeDOD b d) = bs_bits b @ dod_enc d"
    using assms unfolding writeDOD_def dodBuckets_def dod_enc_def
    by (auto simp: writeBits_int prefix_bits_simps)
  then show "bs_wf (writeDOD b d)" and "bs_bits (writeDOD b d) = bs_bits b @ dod_enc d"
    by simp_all
qed

lemma bit_sign_extended:
  assumes "- (2 ^ n) \<le> sint (d::i64)" and "sint d < 2 ^ n" and "n < 64" and "n \<le> i" and "i < 64"
  shows "bit d i = bit d n"
proof -
  have "signed_take_bit n (sint d) = sint d"
    using assms(1,2) by (rule signed_take_bit_int_eq_self)
  then have "bit (sint d) i = bit (sint d) (min i n)"
    using bit_signed_take_bit_iff [of n "sint d" i] by (simp add: min.commute)
  moreover have "bit (sint d) j = bit d j" if "j < 64" for j
    using that by (simp add: bit_sint_iff)
  ultimately show ?thesis using assms(3-5) by simp
qed

lemma signExtend_take_bit:
  assumes "- (2 ^ n) \<le> sint (d::i64)" and "sint d < 2 ^ n" and "Suc n < 64"
  shows "signExtend (int (Suc n)) (take_bit (Suc n) d) = d"
proof -
  have sign: "(take_bit (Suc n) d AND push_bit n 1 \<noteq> 0) = bit d n"
    using assms(3) by (simp only: and_push_bit_iff) (simp add: bit_take_bit_iff)
  have ext: "bit d i = bit d n" if "n \<le> i" "i < 64" for i
    using bit_sign_extended [OF assms(1,2) _ that] assms(3) by simp
  have "signExtend (int (Suc n)) (take_bit (Suc n) d) =
      (if bit d n then take_bit (Suc n) d OR push_bit (Suc n) (NOT 0) else take_bit (Suc n) d)"
  proof -
    have "int (Suc n) < 64" "nat (int (Suc n) - 1) = n" "nat (int (Suc n)) = Suc n"
      using assms(3) by simp_all
    then show ?thesis using sign by (simp only: signExtend_def simp_thms)
  qed
  also have "\<dots> = d"
  proof (rule bit_word_eqI)
    fix i assume i: "i < LENGTH(64)"
    show "bit (if bit d n then take_bit (Suc n) d OR push_bit (Suc n) (NOT 0) else take_bit (Suc n) d) i
        = bit d i"
    proof (cases "i < Suc n")
      case True
      then show ?thesis by (auto simp: bit_simps)
    next
      case False
      then have "bit d i = bit d n" using ext [of i] i by simp
      with False i show ?thesis by (auto simp: bit_simps)
    qed
  qed
  finally show ?thesis .
qed

lemma readDOD_prefix_stop:
  assumes "p < 4" and "br_wf st r" and "br_bits r = replicate k True @ False # rest" and "p + k < 4"
  shows "\<exists>r'. readDOD_prefix p r = (Inr (p + k), r') \<and> br_wf st r' \<and> br_bits r' = rest"
  using assms
proof (induction k arbitrary: p r)
  case 0
  from readBit_Cons [of st r False rest] 0 obtain r' where
    "readBit r = (Inr False, r')" "br_wf st r'" "br_bits r' = rest" by auto
  with 0 show ?case by (subst readDOD_prefix.simps) simp
next
  case (Suc k)
  from readBit_Cons [of st r True "replicate k True @ False # rest"] Suc.prems obtain r' where
    r': "readBit r = (Inr True, r')" "br_wf st r'" "br_bits r' = replicate k True @ False # rest" by auto
  with Suc.IH [of "p + 1" r'] Suc.prems obtain r'' where
    "readDOD_prefix (p + 1) r' = (Inr (p + 1 + k), r'')" "br_wf st r''" "br_bits r'' = rest" by auto
  with r'(1) Suc.prems(1) show ?case by (subst readDOD_prefix.simps) simp
qed

lemma readDOD_prefix_full:
  assumes "p + k = 4" and "br_wf st r" and "br_bits r = replicate k True @ rest"
  shows "\<exists>r'. readDOD_prefix p r = (Inr 4, r') \<and> br_wf st r' \<and> br_bits r' = rest"
  using assms
proof (induction k arbitrary: p r)
  case 0
  then show ?case by (subst readDOD_prefix.simps) simp
next
  case (Suc k)
  from readBit_Cons [of st r True "replicate k True @ rest"] Suc.prems obtain r' where
    r': "readBit r = (Inr True, r')" "br_wf st r'" "br_bits r' = replicate k True @ rest" by auto
  with Suc.IH [of "p + 1" r'] Suc.prems obtain r'' where
    "readDOD_prefix (p + 1) r' = (Inr 4, r'')" "br_wf st r''" "br_bits r'' = rest" by auto
  with r'(1) Suc.prems(1) show ?case by (subst readDOD_prefix.simps) simp
qed

lemma readDOD_payload:
  assumes pre: "rd.reads st (readDOD_prefix 0) ps p" and p: "p \<noteq> 0" "dodBits p = int n" "n \<le> 64"
    and ext: "signExtend (int n) (take_bit n d) = d"
    and wf: "br_wf st (it_br it)" and bits: "br_bits (it_br it) = (ps @ low_bits d n) @ rest"
  shows "\<exists>br. readDOD it = (Inr d, it\<lparr>it_br := br\<rparr>) \<and> br_wf st br \<and> br_bits br = rest"
proof -
  from bits have "br_bits (it_br it) = ps @ (low_bits d n @ rest)" by simp
  from it_lift_reads [OF pre wf this] obtain br1 where
    br1: "it_lift (readDOD_prefix 0) it = (Inr p, it\<lparr>it_br := br1\<rparr>)" "br_wf st br1"
      "br_bits br1 = low_bits d n @ rest" .
  from it_lift_reads [OF readBits_low_bits [OF p(3)], of st "it\<lparr>it_br := br1\<rparr>" d rest] br1(2,3)
  obtain br2 where br2: "it_lift (readBits (int n)) (it\<lparr>it_br := br1\<rparr>) =
      (Inr (take_bit n d), it\<lparr>it_br := br2\<rparr>)" "br_wf st br2" "br_bits br2 = rest" by auto
  have "readDOD it = (Inr d, it\<lparr>it_br := br2\<rparr>)"
    using p(1) ext
    by (simp only: readDOD_def seq_def br1(1) br2(1) p(2) prod.case sum.case if_False ret_simp)
  with br2 show ?thesis by blast
qed

lemma readDOD_reads:
  assumes wf: "br_wf st (it_br it)" and bits: "br_bits (it_br it) = dod_enc d @ rest"
  shows "\<exists>br. readDOD it = (Inr d, it\<lparr>it_br := br\<rparr>) \<and> br_wf st br \<and> br_bits br = rest"
proof -
  have stop: "rd.reads st (readDOD_prefix 0) (replicate k True @ [False]) k" if "k < 4" for k
    using readDOD_prefix_stop [of 0] that by (intro rd.readsI) auto
  have full: "rd.reads st (readDOD_prefix 0) (replicate 4 True) 4"
    using readDOD_prefix_full [of 0 4] by (intro rd.readsI) auto
  have payload: ?thesis if "k < 4" "k \<noteq> 0" "dodBits k = int (Suc n)" "Suc n < 64"
      "- (2 ^ n) \<le> sint d" "sint d < 2 ^ n" "dod_enc d = (replicate k True @ [False]) @ low_bits d (Suc n)" for k n
    using readDOD_payload [OF stop [OF that(1)] that(2,3) _ signExtend_take_bit [OF that(5,6,4)] wf, of rest]
      that(4,7) bits by auto
  have reps: "replicate 1 True = [True]" "replicate 2 True = [True, True]"
    "replicate 3 True = [True, True, True]" "replicate 4 True = [True, True, True, True]"
    by code_simp+
  let ?r = "\<lambda>n. - (2 ^ n) \<le> sint d \<and> sint d < 2 ^ n"
  consider "d = 0" | "d \<noteq> 0" "?r 13" | "d \<noteq> 0" "\<not> ?r 13" "?r 16"
    | "d \<noteq> 0" "\<not> ?r 13" "\<not> ?r 16" "?r 19" | "d \<noteq> 0" "\<not> ?r 13" "\<not> ?r 16" "\<not> ?r 19"
    by blast
  then show ?thesis
  proof cases
    case 1
    from it_lift_reads [OF stop wf, of 0 rest] bits 1 obtain br where
      "it_lift (readDOD_prefix 0) it = (Inr 0, it\<lparr>it_br := br\<rparr>)" "br_wf st br" "br_bits br = rest"
      by (auto simp: dod_enc_def)
    with 1 show ?thesis by (auto simp: readDOD_def seq_def)
  next
    case 2
    then have "dod_enc d = (replicate 1 True @ [False]) @ low_bits d (Suc 13)"
      by (simp add: dod_enc_def reps)
    with 2 show ?thesis using payload [of 1 13] by (simp add: dodBits_def)
  next
    case 3
    then have "dod_enc d = (replicate 2 True @ [False]) @ low_bits d (Suc 16)"
      by (auto simp: dod_enc_def reps)
    with 3 show ?thesis using payload [of 2 16] by (simp add: dodBits_def)
  next
    case 4
    then have "dod_enc d = (replicate 3 True @ [False]) @ low_bits d (Suc 19)"
      by (auto simp: dod_enc_def reps)
    with 4 show ?thesis using payload [of 3 19] by (simp add: dodBits_def)
  next
    case 5
    then have e: "dod_enc d = replicate 4 True @ low_bits d 64"
      by (auto simp: dod_enc_def reps)
    have "signExtend (int 64) (take_bit 64 d) = d"
      by (simp add: signExtend_def take_bit_word_eq_self)
    from readDOD_payload [OF full _ _ _ this wf, of rest] e bits show ?thesis
      by (simp add: dodBits_def)
  qed
qed

end
