(* ===== verification/Chunk_Roundtrip.thy ===== *)
theory Chunk_Roundtrip
  imports Chunk_Codec
begin

text \<open>
  The abstract encoding of a sample, the simulation of the appender and of the iterator
  by it, and what follows for whole chunks: every sample appended is read back, a chunk
  resumed from its bytes is the chunk that was never closed, and damaged bytes end in an
  error rather than in invented samples.
\<close>

section \<open>The encoding of a sample\<close>

record codec =
  cd_n :: nat
  cd_t :: i64
  cd_v :: f64
  cd_delta :: i64
  cd_leading :: byte
  cd_trailing :: byte

definition codec_init :: codec where
  "codec_init = \<lparr>cd_n = 0, cd_t = 0, cd_v = 0, cd_delta = 0, cd_leading = 0xff, cd_trailing = 0\<rparr>"

definition enc :: "codec \<Rightarrow> i64 \<times> f64 \<Rightarrow> bool list \<times> codec" where
  "enc s x = (case x of (t, v) \<Rightarrow>
     if cd_n s = 0
     then (stream_bits (putVarint t) @ low_bits v 64, s\<lparr>cd_n := 1, cd_t := t, cd_v := v\<rparr>)
     else let delta = t - cd_t s;
              (bs, l, tr) = value_enc (cd_leading s) (cd_trailing s) (v XOR cd_v s)
          in ((if cd_n s = 1 then stream_bits (putVarint delta) else dod_enc (delta - cd_delta s)) @ bs,
              \<lparr>cd_n = cd_n s + 1, cd_t = t, cd_v = v, cd_delta = delta,
               cd_leading = l, cd_trailing = tr\<rparr>))"

fun encs :: "codec \<Rightarrow> (i64 \<times> f64) list \<Rightarrow> bool list \<times> codec" where
  "encs s [] = ([], s)"
| "encs s (x # xs) = (let (bs, s') = enc s x; (bs', s'') = encs s' xs in (bs @ bs', s''))"

definition codec_wf :: "codec \<Rightarrow> bool" where
  "codec_wf s \<longleftrightarrow> window_or_none (cd_leading s) (cd_trailing s)"

lemma codec_wf_init [simp]: "codec_wf codec_init"
  by (simp add: codec_wf_def codec_init_def window_or_none_def)

lemma enc_wf: "codec_wf s \<Longrightarrow> codec_wf (snd (enc s x))"
  by (auto simp: enc_def codec_wf_def Let_def value_enc_window split: prod.split)

lemma enc_n [simp]: "cd_n (snd (enc s x)) = Suc (cd_n s)"
  by (auto simp: enc_def Let_def split: prod.split)

lemma enc_tv [simp]: "cd_t (snd (enc s x)) = fst x" "cd_v (snd (enc s x)) = snd x"
  by (auto simp: enc_def Let_def split: prod.split)

section \<open>The appender follows the encoding\<close>

definition payload :: "Chunk \<Rightarrow> bool list" where
  "payload c = drop 16 (bs_bits (c_b c))"

definition chunk_wf :: "Chunk \<Rightarrow> bool" where
  "chunk_wf c \<longleftrightarrow> bs_wf (c_b c) \<and> 2 \<le> length (bs_stream (c_b c)) \<and>
     (0 < bs_count (c_b c) \<longrightarrow> 2 < length (bs_stream (c_b c)))"

definition app_codec :: "Appender \<Rightarrow> nat \<Rightarrow> codec" where
  "app_codec a n = \<lparr>cd_n = n, cd_t = a_t a, cd_v = a_v a, cd_delta = a_delta a,
     cd_leading = a_leading a, cd_trailing = a_trailing a\<rparr>"

definition app_inv :: "Appender \<Rightarrow> Chunk \<Rightarrow> bool" where
  "app_inv a c \<longleftrightarrow> chunk_wf c \<and> codec_wf (app_codec a (NumSamples c))"

lemma length_bs_bits: "length (bs_bits b) = 8 * length (bs_stream b) - bs_count b"
  by (simp add: bs_bits_def)

text \<open>Any writing grows a chunk that has its header past the header, and leaves the
  header's bits alone until they are rewritten.\<close>

lemma drop_bs_bits:
  assumes "length h = 2" and "bs_stream b = h @ ys" and "bs_count b \<le> 8 * length ys"
  shows "drop 16 (bs_bits b) = take (8 * length ys - bs_count b) (stream_bits ys)"
proof -
  let ?k = "8 * length ys - bs_count b"
  have l: "length (stream_bits h) = 16" using assms(1) by simp
  have cut: "drop 16 (take (16 + k) (xs @ zs)) = take k zs" if "length xs = 16" for xs zs :: "bool list" and k
    using that by simp
  have "8 * length (bs_stream b) - bs_count b = 16 + ?k"
    using assms by simp
  then have "drop 16 (bs_bits b) = drop 16 (take (16 + ?k) (stream_bits h @ stream_bits ys))"
    by (simp only: bs_bits_def assms(2) stream_bits_simps)
  also have "\<dots> = take ?k (stream_bits ys)" by (rule cut [OF l])
  finally show ?thesis .
qed

lemma putHeader_wf:
  assumes "bs_wf b" and "2 < length (bs_stream b)" and "n < 65536"
  shows "chunk_wf (c\<lparr>c_b := putHeader b n\<rparr>)" and "NumSamples (c\<lparr>c_b := putHeader b n\<rparr>) = n"
    and "payload (c\<lparr>c_b := putHeader b n\<rparr>) = drop 16 (bs_bits b)"
proof -
  define h where "h = take 2 (bs_stream b)"
  define ys where "ys = drop 2 (bs_stream b)"
  define h' where "h' = putUint16BE (of_nat n)"
  have s: "bs_stream b = h @ ys" "length h = 2" "ys \<noteq> []"
    using assms(2) by (auto simp: h_def ys_def)
  have h': "length h' = 2" "bs_stream (putHeader b n) = h' @ ys" "bs_count (putHeader b n) = bs_count b"
    by (simp_all add: h'_def ys_def putHeader_def headerLen_def putUint16BE_def)
  have c: "bs_count b \<le> 8 * length ys"
    using assms(1) s(3) by (cases ys) (auto simp: bs_wf_def)
  have n: "unat (of_nat n :: 16 word) = n"
    using assms(3) by (simp add: unsigned_of_nat take_bit_nat_eq_self)
  show "chunk_wf (c\<lparr>c_b := putHeader b n\<rparr>)"
    using assms(1) s h' by (auto simp: chunk_wf_def bs_wf_def)
  show "NumSamples (c\<lparr>c_b := putHeader b n\<rparr>) = n"
    using h' n by (simp add: NumSamples_def headerLen_def h'_def)
  show "payload (c\<lparr>c_b := putHeader b n\<rparr>) = drop 16 (bs_bits b)"
    using drop_bs_bits [OF s(2,1) c] drop_bs_bits [of h' "putHeader b n" ys] h' c
    by (simp add: payload_def)
qed

lemma chunk_written:
  assumes "chunk_wf c" and "bs_wf b" and bits: "bs_bits b = bs_bits (c_b c) @ bs" and "bs \<noteq> []"
    and "n < 65536"
  shows "chunk_wf (c\<lparr>c_b := putHeader b n\<rparr>)" and "NumSamples (c\<lparr>c_b := putHeader b n\<rparr>) = n"
    and "payload (c\<lparr>c_b := putHeader b n\<rparr>) = payload c @ bs"
proof -
  have c: "16 \<le> length (bs_bits (c_b c))"
    using assms(1) by (auto simp: chunk_wf_def bs_wf_def length_bs_bits)
  moreover have "0 < length bs" using assms(4) by simp
  ultimately have "16 < length (bs_bits b)" unfolding bits length_append by linarith
  then have "2 < length (bs_stream b)" by (simp add: length_bs_bits)
  note h = putHeader_wf [OF assms(2) this assms(5)]
  show "chunk_wf (c\<lparr>c_b := putHeader b n\<rparr>)" and "NumSamples (c\<lparr>c_b := putHeader b n\<rparr>) = n"
    by (rule h)+
  show "payload (c\<lparr>c_b := putHeader b n\<rparr>) = payload c @ bs"
    using h(3) c by (simp add: bits payload_def)
qed

lemma stream_bits_putVarint_nonempty [simp]: "stream_bits (putVarint v) \<noteq> []"
proof -
  have "0 < length (stream_bits (putVarint v))" by (simp add: putVarint_def)
  then show ?thesis by fastforce
qed

lemma dod_enc_nonempty [simp]: "dod_enc d \<noteq> []"
  by (simp add: dod_enc_def)

lemma Append_first:
  assumes "app_inv a c" and n: "NumSamples c = 0"
  shows "\<exists>a' c'. Append a c t v = Inr (a', c') \<and> app_inv a' c' \<and>
    app_codec a' (NumSamples c') = snd (enc (app_codec a (NumSamples c)) (t, v)) \<and>
    payload c' = payload c @ fst (enc (app_codec a (NumSamples c)) (t, v))"
proof -
  define b where "b = writeBits (writeVarint (c_b c) t) v 64"
  have c: "chunk_wf c" "bs_wf (c_b c)" using assms(1) by (simp_all add: app_inv_def chunk_wf_def)
  have b: "bs_wf b" "bs_bits b = bs_bits (c_b c) @ (stream_bits (putVarint t) @ low_bits v 64)"
    using writeBits_int [OF writeVarint_correct(1) [OF c(2)], of 64 t v] writeVarint_correct(2) [OF c(2), of t]
    by (simp_all add: b_def)
  note w = chunk_written [OF c(1) b, of 1]
  have "Append a c t v = Inr (a\<lparr>a_t := t, a_v := v\<rparr>, c\<lparr>c_b := putHeader b 1\<rparr>)"
    using n by (simp add: Append_def Let_def b_def MaxSamplesPerChunk_def)
  moreover have "app_codec (a\<lparr>a_t := t, a_v := v\<rparr>) 1 = snd (enc (app_codec a 0) (t, v))"
    by (simp add: app_codec_def enc_def)
  moreover from this have "codec_wf (app_codec (a\<lparr>a_t := t, a_v := v\<rparr>) 1)"
    using assms(1) n enc_wf [of "app_codec a 0" "(t, v)"] by (simp add: app_inv_def)
  moreover have "fst (enc (app_codec a 0) (t, v)) = stream_bits (putVarint t) @ low_bits v 64"
    by (simp add: app_codec_def enc_def)
  ultimately show ?thesis
    using w n by (auto simp: app_inv_def)
qed

lemma Append_next:
  assumes "app_inv a c" and n: "0 < NumSamples c" "NumSamples c < MaxSamplesPerChunk"
    and "sint (a_t a) < sint t"
  shows "\<exists>a' c'. Append a c t v = Inr (a', c') \<and> app_inv a' c' \<and>
    app_codec a' (NumSamples c') = snd (enc (app_codec a (NumSamples c)) (t, v)) \<and>
    payload c' = payload c @ fst (enc (app_codec a (NumSamples c)) (t, v))"
proof -
  let ?n = "NumSamples c"
  have c: "chunk_wf c" "bs_wf (c_b c)" using assms(1) by (simp_all add: app_inv_def chunk_wf_def)
  have win: "window_or_none (a_leading a) (a_trailing a)"
    using assms(1) by (simp add: app_inv_def codec_wf_def app_codec_def)
  define delta where "delta = t - a_t a"
  obtain vs l tr where venc: "value_enc (a_leading a) (a_trailing a) (v XOR a_v a) = (vs, l, tr)"
    by (metis prod_cases3)
  define ts where "ts = (if ?n = 1 then stream_bits (putVarint delta) else dod_enc (delta - a_delta a))"
  define b1 where "b1 = (if ?n = 1 then writeVarint (c_b c) delta else writeDOD (c_b c) (delta - a_delta a))"
  have b1: "bs_wf b1" "bs_bits b1 = bs_bits (c_b c) @ ts"
    using writeVarint_correct [OF c(2)] writeDOD_correct [OF c(2)] by (simp_all add: b1_def ts_def)
  from writeValue_correct [OF b1(1), of "a\<lparr>a_delta := delta\<rparr>" v vs l tr] win venc obtain b2 where
    b2: "writeValue (a\<lparr>a_delta := delta\<rparr>) b1 v = (a\<lparr>a_delta := delta, a_leading := l, a_trailing := tr\<rparr>, b2)"
      "bs_wf b2" "bs_bits b2 = bs_bits b1 @ vs" by auto
  have bits: "bs_bits b2 = bs_bits (c_b c) @ (ts @ vs)" using b1(2) b2(3) by simp
  have ne: "ts @ vs \<noteq> []" by (simp add: ts_def)
  have n1: "?n + 1 < 65536" using n(2) by (simp add: MaxSamplesPerChunk_def)
  note w = chunk_written [OF c(1) b2(2) bits ne n1]
  define a' where "a' = a\<lparr>a_delta := delta, a_leading := l, a_trailing := tr, a_t := t, a_v := v\<rparr>"
  have "Append a c t v = Inr (a', c\<lparr>c_b := putHeader b2 (?n + 1)\<rparr>)"
    using n assms(4) b2(1)
    by (cases "?n = 1") (simp_all add: Append_def Let_def b1_def a'_def flip: delta_def)
  moreover have e: "enc (app_codec a ?n) (t, v) = (ts @ vs, app_codec a' (?n + 1))"
    using n(1) venc by (simp add: enc_def app_codec_def ts_def a'_def Let_def flip: delta_def)
  moreover from e have "codec_wf (app_codec a' (?n + 1))"
    using assms(1) enc_wf [of "app_codec a ?n" "(t, v)"] by (simp add: app_inv_def)
  ultimately show ?thesis using w by (auto simp: app_inv_def)
qed

section \<open>The iterator follows the encoding\<close>

definition it_codec :: "Iterator \<Rightarrow> codec" where
  "it_codec it = \<lparr>cd_n = it_read it, cd_t = it_t it, cd_v = it_v it, cd_delta = it_delta it,
     cd_leading = it_leading it, cd_trailing = it_trailing it\<rparr>"

definition it_inv :: "byte list \<Rightarrow> Iterator \<Rightarrow> bool" where
  "it_inv st it \<longleftrightarrow> it_err it = None \<and> codec_wf (it_codec it) \<and> br_wf st (it_br it)"

lemma nextBody_first:
  assumes "it_inv st it" and "it_read it = 0"
    and "br_bits (it_br it) = (stream_bits (putVarint t) @ low_bits v 64) @ rest"
  shows "\<exists>br. nextBody it = (Inr (), it\<lparr>it_br := br, it_t := t, it_v := v\<rparr>) \<and>
    br_wf st br \<and> br_bits br = rest"
proof -
  have wf: "br_wf st (it_br it)" using assms(1) by (simp add: it_inv_def)
  have "br_bits (it_br it) = stream_bits (putVarint t) @ (low_bits v 64 @ rest)" using assms(3) by simp
  from it_lift_reads [OF readVarint_reads wf this] obtain br1 where
    br1: "it_lift readVarint it = (Inr t, it\<lparr>it_br := br1\<rparr>)" "br_wf st br1"
      "br_bits br1 = low_bits v 64 @ rest" .
  have "rd.reads st (readBits 64) (low_bits v 64) v"
    using readBits_low_bits [of 64 st v] by (simp add: take_bit_word_eq_self)
  from it_lift_reads [OF this, of "it\<lparr>it_br := br1\<rparr>" rest] br1(2,3) obtain br2 where
    "it_lift (readBits 64) (it\<lparr>it_br := br1\<rparr>) = (Inr v, it\<lparr>it_br := br2\<rparr>)" "br_wf st br2"
    "br_bits br2 = rest" by auto
  then show ?thesis
    using assms(2) br1(1) by (auto simp: nextBody_def seq_def)
qed

lemma nextBody_next:
  assumes inv: "it_inv st it" and n: "0 < it_read it"
    and delta: "delta = t - it_t it"
    and venc: "value_enc (it_leading it) (it_trailing it) (v XOR it_v it) = (vs, l, tr)"
    and bits: "br_bits (it_br it) =
      ((if it_read it = 1 then stream_bits (putVarint delta) else dod_enc (delta - it_delta it)) @ vs) @ rest"
  shows "\<exists>br. nextBody it = (Inr (), it\<lparr>it_br := br, it_delta := delta, it_t := t,
      it_leading := l, it_trailing := tr, it_v := v\<rparr>) \<and> br_wf st br \<and> br_bits br = rest"
proof -
  have wf: "br_wf st (it_br it)" and win: "window_or_none (it_leading it) (it_trailing it)"
    using inv by (simp_all add: it_inv_def codec_wf_def it_codec_def)
  have t: "it_t it + delta = t" using delta by simp
  have val: "\<exists>br'. readValue (it\<lparr>it_br := br, it_delta := delta, it_t := t\<rparr>) =
      (Inr (), it\<lparr>it_br := br', it_delta := delta, it_t := t,
        it_leading := l, it_trailing := tr, it_v := v\<rparr>) \<and> br_wf st br' \<and> br_bits br' = rest"
    if br: "br_wf st br" "br_bits br = vs @ rest" for br
  proof -
    let ?it = "it\<lparr>it_br := br, it_delta := delta, it_t := t\<rparr>"
    have swap: "it\<lparr>it_delta := delta, it_t := t, it_br := br', it_leading := l, it_trailing := tr, it_v := y\<rparr> =
      it\<lparr>it_br := br', it_delta := delta, it_t := t, it_leading := l, it_trailing := tr, it_v := y\<rparr>" for br' y
      by (cases it) simp
    have x: "it_v it XOR (v XOR it_v it) = v"
      by (rule bit_word_eqI) (auto simp: bit_xor_iff)
    from readValue_reads [of ?it "v XOR it_v it" vs l tr st rest] win venc br obtain br' where
      "readValue ?it = (Inr (), ?it\<lparr>it_br := br', it_leading := l, it_trailing := tr,
         it_v := it_v ?it XOR (v XOR it_v it)\<rparr>)" "br_wf st br'" "br_bits br' = rest" by auto
    then show ?thesis by (auto simp: x swap)
  qed
  show ?thesis
  proof (cases "it_read it = 1")
    case True
    from True bits have "br_bits (it_br it) = stream_bits (putVarint delta) @ (vs @ rest)" by simp
    from it_lift_reads [OF readVarint_reads wf this] obtain br where
      "it_lift readVarint it = (Inr delta, it\<lparr>it_br := br\<rparr>)" "br_wf st br" "br_bits br = vs @ rest" .
    with val [of br] True t show ?thesis
      by (simp add: nextBody_def seq_def)
  next
    case False
    with n bits have "br_bits (it_br it) = dod_enc (delta - it_delta it) @ (vs @ rest)" by simp
    from readDOD_reads [OF wf this] obtain br where
      "readDOD it = (Inr (delta - it_delta it), it\<lparr>it_br := br\<rparr>)" "br_wf st br" "br_bits br = vs @ rest"
      by blast
    with val [of br] False n t show ?thesis
      by (simp add: nextBody_def seq_def Let_def)
  qed
qed

lemma Next_enc:
  assumes inv: "it_inv st it" and "it_read it < it_total it"
    and bits: "br_bits (it_br it) = fst (enc (it_codec it) (t, v)) @ rest"
  shows "\<exists>it'. Next it = (True, it') \<and> it_inv st it' \<and> it_total it' = it_total it \<and>
    it_codec it' = snd (enc (it_codec it) (t, v)) \<and> br_bits (it_br it') = rest"
proof -
  have wf: "codec_wf (snd (enc (it_codec it) (t, v)))"
    using inv by (intro enc_wf) (simp add: it_inv_def)
  have stepped: ?thesis
    if body: "nextBody it = (Inr (), it1)" and cd: "it_codec (it1\<lparr>it_read := it_read it1 + 1\<rparr>) = snd (enc (it_codec it) (t, v))"
      and it1: "it_err it1 = None" "it_total it1 = it_total it" "br_wf st (it_br it1)" "br_bits (it_br it1) = rest" for it1
  proof -
    have "Next it = (True, it1\<lparr>it_read := it_read it1 + 1\<rparr>)"
      using inv assms(2) body by (simp add: Next_def it_inv_def)
    moreover have "it_inv st (it1\<lparr>it_read := it_read it1 + 1\<rparr>)"
      using wf cd it1 by (simp add: it_inv_def)
    ultimately show ?thesis using cd it1 by (intro exI [of _ "it1\<lparr>it_read := it_read it1 + 1\<rparr>"]) simp
  qed
  have err: "it_err it = None" using inv by (simp add: it_inv_def)
  show ?thesis
  proof (cases "it_read it = 0")
    case True
    with bits have "br_bits (it_br it) = (stream_bits (putVarint t) @ low_bits v 64) @ rest"
      by (simp add: enc_def it_codec_def)
    from nextBody_first [OF inv True this] obtain br where
      "nextBody it = (Inr (), it\<lparr>it_br := br, it_t := t, it_v := v\<rparr>)" "br_wf st br" "br_bits br = rest"
      by blast
    then show ?thesis
      using True err stepped [of "it\<lparr>it_br := br, it_t := t, it_v := v\<rparr>"]
      by (simp add: enc_def it_codec_def)
  next
    case False
    define delta where "delta = t - it_t it"
    obtain vs l tr where venc: "value_enc (it_leading it) (it_trailing it) (v XOR it_v it) = (vs, l, tr)"
      by (metis prod_cases3)
    have e: "enc (it_codec it) (t, v) =
      ((if it_read it = 1 then stream_bits (putVarint delta) else dod_enc (delta - it_delta it)) @ vs,
       \<lparr>cd_n = it_read it + 1, cd_t = t, cd_v = v, cd_delta = delta, cd_leading = l, cd_trailing = tr\<rparr>)"
      using False venc by (simp add: enc_def it_codec_def Let_def delta_def)
    from bits e have bits': "br_bits (it_br it) =
      ((if it_read it = 1 then stream_bits (putVarint delta) else dod_enc (delta - it_delta it)) @ vs) @ rest"
      by simp
    from nextBody_next [OF inv _ delta_def venc bits'] False obtain br where
      "nextBody it = (Inr (), it\<lparr>it_br := br, it_delta := delta, it_t := t,
         it_leading := l, it_trailing := tr, it_v := v\<rparr>)" "br_wf st br" "br_bits br = rest"
      by blast
    then show ?thesis
      using err e stepped [of "it\<lparr>it_br := br, it_delta := delta, it_t := t,
         it_leading := l, it_trailing := tr, it_v := v\<rparr>"]
      by (simp add: it_codec_def)
  qed
qed

section \<open>Whole chunks\<close>

text \<open>\<open>chunk_holds a c xs\<close>: chunk \<open>c\<close> with its appender \<open>a\<close> is the encoding of exactly the
  samples \<open>xs\<close>. It is the abstraction the series of the head are proved over.\<close>

definition chunk_holds :: "Appender \<Rightarrow> Chunk \<Rightarrow> (i64 \<times> f64) list \<Rightarrow> bool" where
  "chunk_holds a c xs \<longleftrightarrow> app_inv a c \<and> \<not> c_borrowed c \<and> NumSamples c = length xs \<and>
     encs codec_init xs = (payload c, app_codec a (length xs))"

definition increasing :: "(i64 \<times> f64) list \<Rightarrow> bool" where
  "increasing xs \<longleftrightarrow> sorted_wrt (\<lambda>x y. sint (fst x) < sint (fst y)) xs"

lemma encs_snoc:
  "encs s (xs @ [x]) = (fst (encs s xs) @ fst (enc (snd (encs s xs)) x), snd (enc (snd (encs s xs)) x))"
  by (induction xs arbitrary: s) (simp_all add: Let_def split: prod.split)

lemma encs_last:
  "xs \<noteq> [] \<Longrightarrow> cd_t (snd (encs s xs)) = fst (last xs) \<and> cd_v (snd (encs s xs)) = snd (last xs)"
  by (induction xs rule: rev_induct) (simp_all add: encs_snoc)

lemma NumSamples_New [simp]: "NumSamples NewChunk = 0"
  by (simp add: NumSamples_def NewChunk_def headerLen_def getUint16BE_def)

lemma chunk_holds_New: "chunk_holds freshAppender NewChunk []"
  by (simp add: chunk_holds_def app_inv_def chunk_wf_def bs_wf_def codec_wf_def app_codec_def
      window_or_none_def freshAppender_def codec_init_def payload_def bs_bits_def)
     (simp add: NewChunk_def headerLen_def)

lemma chunk_holds_last_t:
  assumes "chunk_holds a c xs" and "xs \<noteq> []"
  shows "a_t a = fst (last xs)"
  using encs_last [OF assms(2), of codec_init] assms(1) by (simp add: chunk_holds_def app_codec_def)

lemma Append_keeps_borrowed: "Append a c t v = Inr (a', c') \<Longrightarrow> c_borrowed c' = c_borrowed c"
  by (auto simp: Append_def Let_def split: if_splits prod.splits)

lemma Append_holds:
  assumes "chunk_holds a c xs" and "length xs < MaxSamplesPerChunk"
    and "xs \<noteq> [] \<Longrightarrow> sint (fst (last xs)) < sint t"
  shows "\<exists>a' c'. Append a c t v = Inr (a', c') \<and> chunk_holds a' c' (xs @ [(t, v)])"
proof -
  let ?s = "app_codec a (length xs)"
  have c: "app_inv a c" "NumSamples c = length xs" "encs codec_init xs = (payload c, ?s)"
    using assms(1) by (simp_all add: chunk_holds_def)
  have "\<exists>a' c'. Append a c t v = Inr (a', c') \<and> app_inv a' c' \<and>
      app_codec a' (NumSamples c') = snd (enc ?s (t, v)) \<and>
      payload c' = payload c @ fst (enc ?s (t, v))"
  proof (cases "xs = []")
    case True
    then show ?thesis using Append_first [OF c(1), of t v] c(2) by simp
  next
    case False
    then have "sint (a_t a) < sint t"
      using assms(3) chunk_holds_last_t [OF assms(1)] by simp
    with False show ?thesis
      using Append_next [OF c(1), of t v] c(2) assms(2) by simp
  qed
  then obtain a' c' where a': "Append a c t v = Inr (a', c')" "app_inv a' c'"
      "app_codec a' (NumSamples c') = snd (enc ?s (t, v))" "payload c' = payload c @ fst (enc ?s (t, v))"
    by blast
  from a'(3) have "NumSamples c' = Suc (length xs)"
    by (metis app_codec_def codec.select_convs(1) enc_n)
  with a' c(3) Append_keeps_borrowed [OF a'(1)] assms(1)
  have "chunk_holds a' c' (xs @ [(t, v)])"
    by (simp add: chunk_holds_def encs_snoc)
  with a'(1) show ?thesis by blast
qed

lemma appendAll_holds:
  assumes "chunk_holds a c xs" and "length xs + length ys \<le> MaxSamplesPerChunk"
    and "increasing (xs @ ys)"
  shows "\<exists>a' c'. appendAll a c ys = Inr (a', c') \<and> chunk_holds a' c' (xs @ ys)"
  using assms
proof (induction ys arbitrary: a c xs)
  case Nil
  then show ?case by simp
next
  case (Cons y ys)
  obtain t v where y: "y = (t, v)" by (cases y)
  have "sint (fst (last xs)) < sint t" if "xs \<noteq> []"
    using Cons.prems(3) that y by (simp add: increasing_def sorted_wrt_append)
  with Append_holds [OF Cons.prems(1)] Cons.prems(2) obtain a' c' where
    a': "Append a c t v = Inr (a', c')" "chunk_holds a' c' (xs @ [(t, v)])" by fastforce
  from Cons.IH [OF a'(2)] Cons.prems(2,3) y show ?case by (auto simp: a'(1))
qed

lemma iterate_encs:
  assumes "it_inv st it" and "it_total it = it_read it + length xs"
    and "br_bits (it_br it) = fst (encs (it_codec it) xs) @ rest"
  shows "\<exists>it'. iterate it = (xs, it') \<and> it_inv st it' \<and> it_codec it' = snd (encs (it_codec it) xs) \<and>
    br_bits (it_br it') = rest"
  using assms
proof (induction xs arbitrary: it)
  case Nil
  then have "Next it = (False, it)" by (simp add: Next_def)
  with Nil show ?case by (subst iterate.simps) simp
next
  case (Cons x xs)
  obtain t v where x: "x = (t, v)" by (cases x)
  let ?s = "snd (enc (it_codec it) (t, v))"
  have "br_bits (it_br it) = fst (enc (it_codec it) (t, v)) @ (fst (encs ?s xs) @ rest)"
    using Cons.prems(3) x by (simp add: Let_def split: prod.splits)
  from Next_enc [OF Cons.prems(1) _ this] Cons.prems(2) obtain it1 where
    it1: "Next it = (True, it1)" "it_inv st it1" "it_total it1 = it_total it" "it_codec it1 = ?s"
      "br_bits (it_br it1) = fst (encs ?s xs) @ rest" by auto
  have "it_read it1 = Suc (it_read it)" using Next_True(2) [OF it1(1)] .
  with Cons.IH [OF it1(2), of] it1 Cons.prems(2) obtain it2 where
    it2: "iterate it1 = (xs, it2)" "it_inv st it2" "it_codec it2 = snd (encs ?s xs)"
      "br_bits (it_br it2) = rest" by auto
  have "cd_t (it_codec it1) = t" "cd_v (it_codec it1) = v"
    by (simp_all only: it1(4) enc_tv fst_conv snd_conv)
  then have "it_t it1 = t" "it_v it1 = v" by (simp_all add: it_codec_def)
  with it1(1) it2(1) x have "iterate it = (x # xs, it2)"
    by (subst iterate.simps) simp
  with it2 x show ?case by (auto simp: Let_def split: prod.splits)
qed

text \<open>The iterator of a chunk that holds \<open>xs\<close> yields \<open>xs\<close>, ends in the codec state of the
  appender, and stops at the writer's bit cursor.\<close>

lemma iterate_holds:
  assumes holds: "chunk_holds a c xs" and same: "bs_stream (c_b c') = bs_stream (c_b c)"
  shows "\<exists>it. iterate (newIterator c') = (xs, it) \<and> it_err it = None \<and>
    it_codec it = app_codec a (length xs) \<and>
    br_wf (drop 2 (bs_stream (c_b c))) (it_br it) \<and>
    length (br_bits (it_br it)) = bs_count (c_b c)"
proof -
  let ?b = "c_b c"
  define ys where "ys = drop 2 (bs_stream ?b)"
  have c: "chunk_wf c" "NumSamples c = length xs" "encs codec_init xs = (payload c, app_codec a (length xs))"
    using holds by (simp_all add: chunk_holds_def app_inv_def)
  have len: "2 \<le> length (bs_stream ?b)" using c(1) by (simp add: chunk_wf_def)
  have cnt: "bs_count ?b \<le> 8 * length ys"
    using c(1) by (auto simp: chunk_wf_def bs_wf_def ys_def)
  have "payload c = take (8 * length ys - bs_count ?b) (stream_bits ys)"
    using drop_bs_bits [of "take 2 (bs_stream ?b)" ?b ys] cnt len by (simp add: payload_def ys_def)
  then obtain pad where pad: "stream_bits ys = payload c @ pad"
    by (metis append_take_drop_id)
  then have "length pad = bs_count ?b"
    using cnt arg_cong [OF pad, of length] arg_cong [OF \<open>payload c = _\<close>, of length]
    unfolding length_append length_take length_stream_bits by linarith
  let ?it = "newIterator c'"
  have num: "NumSamples c' = length xs" using c(2) unfolding NumSamples_def same .
  have it: "?it = \<lparr>it_br = newBReader ys, it_total = length xs, it_read = 0, it_t = 0, it_v = 0,
      it_delta = 0, it_leading = 0xff, it_trailing = 0, it_err = None\<rparr>"
    using len num same by (simp add: newIterator_def headerLen_def ys_def)
  then have "it_codec ?it = codec_init" by (simp add: it_codec_def codec_init_def)
  moreover from this it have "it_inv ys ?it" by (simp add: it_inv_def)
  moreover have "br_bits (it_br ?it) = fst (encs codec_init xs) @ pad"
    using it pad c(3) by simp
  ultimately obtain it' where "iterate ?it = (xs, it')" "it_inv ys it'"
      "it_codec it' = app_codec a (length xs)" "br_bits (it_br it') = pad"
    using iterate_encs [of ys ?it xs pad] it c(3) by auto
  with \<open>length pad = _\<close> show ?thesis by (auto simp: it_inv_def ys_def)
qed

text \<open>Resuming: replaying a chunk recovers the appender and the bit cursor it was
  written with.\<close>

lemma reader_cursor:
  assumes "br_wf st r" and "length (br_bits r) = k" and "k < 8"
  shows "if br_count r \<noteq> 8 then br_pos r + 1 = length st \<and> br_count r = k else br_pos r = length st \<and> k = 0"
proof -
  have r: "br_count r \<le> 8" "8 * br_pos r + (8 - br_count r) \<le> 8 * length st"
    using assms(1) unfolding br_wf_def by blast+
  have k: "8 * length st - (8 * br_pos r + (8 - br_count r)) = k"
    using assms(1,2) unfolding br_wf_def br_bits_def by (simp only: length_drop length_stream_bits)
  have "br_pos r + 1 = length st \<and> br_count r = k" if "br_count r \<noteq> 8"
    using that r k \<open>k < 8\<close> by presburger
  moreover have "br_pos r = length st \<and> k = 0" if "br_count r = 8"
    using that r k \<open>k < 8\<close> by presburger
  ultimately show ?thesis by simp
qed

lemma appender_holds:
  assumes holds: "chunk_holds a c xs" and "xs \<noteq> []" and same: "bs_stream (c_b c') = bs_stream (c_b c)"
  shows "appender c' = Inr (a, c)"
proof -
  have num: "NumSamples c' = length xs"
    using holds unfolding chunk_holds_def NumSamples_def same by blast
  obtain it where it: "iterate (newIterator c') = (xs, it)" "it_err it = None"
      "it_codec it = app_codec a (length xs)" "br_wf (drop 2 (bs_stream (c_b c))) (it_br it)"
      "length (br_bits (it_br it)) = bs_count (c_b c)"
    using iterate_holds [OF holds same] by auto
  have c: "chunk_wf c" "\<not> c_borrowed c" using holds by (simp_all add: chunk_holds_def app_inv_def)
  have cur: "if br_count (it_br it) \<noteq> 8
      then headerLen + br_pos (it_br it) + 1 = length (bs_stream (c_b c)) \<and> br_count (it_br it) = bs_count (c_b c)
      else headerLen + br_pos (it_br it) = length (bs_stream (c_b c)) \<and> bs_count (c_b c) = 0"
    using reader_cursor [OF it(4,5)] c(1)
    by (auto simp: chunk_wf_def bs_wf_def headerLen_def split: if_splits)
  have "a = \<lparr>a_t = it_t it, a_v = it_v it, a_delta = it_delta it,
      a_leading = it_leading it, a_trailing = it_trailing it\<rparr>"
    using it(3) by (cases a) (simp add: it_codec_def app_codec_def)
  moreover have "\<not> c_borrowed (own c')" "bs_stream (c_b (own c')) = bs_stream (c_b c)"
    using same by (simp_all add: own_def)
  ultimately show ?thesis
    using cur it(1,2) num \<open>xs \<noteq> []\<close> c(2)
    by (cases c) (auto simp: appender_def Let_def split: if_splits)
qed

section \<open>Decoding arbitrary bytes\<close>

text \<open>The iterator stops on every input, and stops short of the header's count only with an
  error set.\<close>

lemma Next_False:
  assumes "Next it = (False, it')" and "it_read it \<le> it_total it"
  shows "it_total it' = it_total it \<and> it_read it' = it_read it \<and>
    (it_err it' = None \<longleftrightarrow> it_err it = None \<and> it_read it = it_total it)"
  using assms keeps_nextBody
  by (auto simp: Next_def keeps_counts_def split: if_splits prod.splits sum.splits) (metis snd_conv)+

lemma iterate_counts:
  assumes "it_read it \<le> it_total it" and "it_err it = None"
  shows "it_read it + length (fst (iterate it)) \<le> it_total it \<and>
    (it_err (snd (iterate it)) = None \<longleftrightarrow> it_read it + length (fst (iterate it)) = it_total it)"
  using assms
proof (induction it rule: iterate.induct)
  case (1 it)
  obtain more it1 where n: "Next it = (more, it1)" by force
  show ?case
  proof (cases more)
    case False
    with n Next_False [of it it1] 1(2,3) show ?thesis by (auto simp: iterate.simps [of it])
  next
    case True
    with n have step: "it_total it1 = it_total it" "it_read it1 = Suc (it_read it)"
        "it_read it < it_total it" "it_err it1 = None" using Next_True [of it it1] by simp_all
    have "iterate it = ((it_t it1, it_v it1) # fst (iterate it1), snd (iterate it1))"
      using n True by (simp add: iterate.simps [of it] split: prod.split)
    with 1(1) [OF n [symmetric]] True step show ?thesis by simp
  qed
qed

section \<open>Properties of chunks\<close>

text \<open>C3: Round trip. Appending at most \<open>MaxSamplesPerChunk\<close> samples with increasing
  timestamps to a new chunk succeeds, and both the chunk and the chunk rebuilt from its bytes
  by \<open>FromBytes\<close> iterate to exactly those samples, bit for bit, without an error.\<close>

theorem chunk_roundtrip:
  assumes "increasing xs" and "length xs \<le> MaxSamplesPerChunk"
  shows "\<exists>a c d. appendAll freshAppender NewChunk xs = Inr (a, c) \<and> FromBytes (Bytes c) = Inr d \<and>
    NumSamples c = length xs \<and>
    (\<forall>e \<in> {c, d}. fst (iterate (newIterator e)) = xs \<and> it_err (snd (iterate (newIterator e))) = None)"
proof -
  obtain a c where ac: "appendAll freshAppender NewChunk xs = Inr (a, c)" "chunk_holds a c xs"
    using appendAll_holds [OF chunk_holds_New, of xs] assms by auto
  then have "2 \<le> length (bs_stream (c_b c))" "NumSamples c = length xs"
    by (simp_all add: chunk_holds_def app_inv_def chunk_wf_def)
  then obtain d where d: "FromBytes (Bytes c) = Inr d" "bs_stream (c_b d) = bs_stream (c_b c)"
    by (simp add: FromBytes_def Bytes_def headerLen_def)
  with iterate_holds [OF ac(2), of c] iterate_holds [OF ac(2) d(2)] ac(1) \<open>NumSamples c = _\<close>
  show ?thesis by fastforce
qed

theorem chunk_roundtrip_witness:
  "\<exists>a c d. appendAll freshAppender NewChunk [(1000, 5), (2000, 5), (3500, 9)] = Inr (a, c) \<and>
    FromBytes (Bytes c) = Inr d \<and> NumSamples c = 3 \<and>
    fst (iterate (newIterator d)) = [(1000, 5), (2000, 5), (3500, 9)]"
proof -
  have "increasing [(1000, 5), (2000, 5), (3500, 9)]" by (simp add: increasing_def)
  from chunk_roundtrip [OF this] show ?thesis by (auto simp: MaxSamplesPerChunk_def)
qed

text \<open>C15: Resuming is exact. The appender recovered by replaying the bytes of a non-empty chunk
  is the appender that wrote it, over the same stream and bit cursor, so every later append
  writes the bytes it would have written had the process not stopped.\<close>

theorem chunk_resume:
  assumes "increasing xs" and "xs \<noteq> []" and "length xs \<le> MaxSamplesPerChunk"
  shows "\<exists>a c d. appendAll freshAppender NewChunk xs = Inr (a, c) \<and> FromBytes (Bytes c) = Inr d \<and>
    appender d = Inr (a, c) \<and> appender c = Inr (a, c)"
proof -
  obtain a c where ac: "appendAll freshAppender NewChunk xs = Inr (a, c)" "chunk_holds a c xs"
    using appendAll_holds [OF chunk_holds_New, of xs] assms by auto
  then have "2 \<le> length (bs_stream (c_b c))" by (simp add: chunk_holds_def app_inv_def chunk_wf_def)
  then obtain d where d: "FromBytes (Bytes c) = Inr d" "bs_stream (c_b d) = bs_stream (c_b c)"
    by (simp add: FromBytes_def Bytes_def headerLen_def)
  with appender_holds [OF ac(2) assms(2)] ac(1) show ?thesis by auto
qed

theorem chunk_resume_witness:
  "\<exists>a c d. appendAll freshAppender NewChunk [(7, 1), (9, 2)] = Inr (a, c) \<and>
    FromBytes (Bytes c) = Inr d \<and> appender d = Inr (a, c) \<and> appender c = Inr (a, c)"
proof -
  have "increasing [(7, 1), (9, 2)]" by (simp add: increasing_def)
  from chunk_resume [OF this] show ?thesis by (auto simp: MaxSamplesPerChunk_def)
qed

text \<open>C16: What \<open>Append\<close> does on every branch, for a chunk holding the samples \<open>xs\<close>: a full chunk
  refuses with \<open>ChunkFull\<close>, a timestamp not after the last one is refused with \<open>NotAfter\<close>, and in
  every other case the chunk afterwards holds \<open>xs\<close> and the new sample.\<close>

theorem Append_spec:
  assumes "chunk_holds a c xs"
  shows "case Append a c t v of
      Inl e \<Rightarrow> (if MaxSamplesPerChunk \<le> length xs then e = ChunkFull
        else e = NotAfter t (fst (last xs)) \<and> xs \<noteq> [] \<and> sint t \<le> sint (fst (last xs)))
    | Inr (a', c') \<Rightarrow> chunk_holds a' c' (xs @ [(t, v)]) \<and> length xs < MaxSamplesPerChunk \<and>
        (xs = [] \<or> sint (fst (last xs)) < sint t)"
proof -
  have n: "NumSamples c = length xs" using assms by (simp add: chunk_holds_def)
  consider "MaxSamplesPerChunk \<le> length xs"
    | "length xs < MaxSamplesPerChunk" "xs \<noteq> []" "sint t \<le> sint (fst (last xs))"
    | "length xs < MaxSamplesPerChunk" "xs = [] \<or> sint (fst (last xs)) < sint t"
    by fastforce
  then show ?thesis
  proof cases
    case 1
    then show ?thesis by (simp add: Append_def n)
  next
    case 2
    then show ?thesis using chunk_holds_last_t [OF assms 2(2)] by (simp add: Append_def n)
  next
    case 3
    obtain a' c' where "Append a c t v = Inr (a', c')" "chunk_holds a' c' (xs @ [(t, v)])"
      using Append_holds [OF assms 3(1), of t v] 3(2) by blast
    with 3 show ?thesis by simp
  qed
qed

theorem Append_spec_witness:
  "chunk_holds freshAppender NewChunk [] \<and>
   (\<exists>a' c'. Append freshAppender NewChunk 5 7 = Inr (a', c') \<and> chunk_holds a' c' [(5, 7)])"
  using Append_spec [OF chunk_holds_New, of 5 7] chunk_holds_New
  by (auto simp: MaxSamplesPerChunk_def split: sum.splits)

text \<open>C17: Decoding is total and never silently short. Whatever the bytes, iteration stops after at
  most the header's number of samples, and reports no error exactly when the header is there and
  all of its samples were decoded.\<close>

theorem chunk_decode_total:
  "length (fst (iterate (newIterator c))) \<le> NumSamples c \<and>
   (it_err (snd (iterate (newIterator c))) = None \<longleftrightarrow>
      headerLen \<le> length (bs_stream (c_b c)) \<and> length (fst (iterate (newIterator c))) = NumSamples c)"
proof (cases "length (bs_stream (c_b c)) < headerLen")
  case True
  then have "iterate (newIterator c) = ([], newIterator c)" "it_err (newIterator c) \<noteq> None"
    by (simp_all add: newIterator_def iterate.simps Next_def)
  with True show ?thesis by simp
next
  case False
  then have "it_total (newIterator c) = NumSamples c" "it_read (newIterator c) = 0"
      "it_err (newIterator c) = None" by (simp_all add: newIterator_def)
  with iterate_counts [of "newIterator c"] False show ?thesis by simp
qed

section \<open>Chunks the format does not protect\<close>



end
