(* ===== verification/Go_Strings.thy ===== *)
theory Go_Strings
  imports Ozy_Prelude "HOL-Library.Char_ord" "HOL-Library.List_Lexorder" "HOL-Library.Product_Lexorder"
begin

text \<open>
  The parts of Go's \<open>strings\<close>, \<open>unicode/utf8\<close> and \<open>path\<close> packages the sources use. A Go string
  is a \<open>string\<close>, one character per byte; the library orders on characters and lists make \<open>\<le>\<close>
  on strings the byte-wise lexicographic order of Go's \<open><\<close> and \<open>cmp.Compare\<close>.
\<close>

section \<open>Searching and trimming\<close>

fun IndexByte :: "string \<Rightarrow> char \<Rightarrow> nat option" where
  "IndexByte [] c = None"
| "IndexByte (x # xs) c = (if x = c then Some 0 else map_option Suc (IndexByte xs c))"

definition HasPrefix :: "string \<Rightarrow> string \<Rightarrow> bool" where
  "HasPrefix s p \<longleftrightarrow> take (length p) s = p"

definition TrimSuffix :: "string \<Rightarrow> string \<Rightarrow> string" where
  "TrimSuffix s suf =
     (if length suf \<le> length s \<and> drop (length s - length suf) s = suf
      then take (length s - length suf) s else s)"

definition ContainsAny :: "string \<Rightarrow> string \<Rightarrow> bool" where
  "ContainsAny s cs \<longleftrightarrow> list_ex (\<lambda>c. c \<in> set cs) s"

section \<open>UTF-8 and case\<close>

definition in_range :: "char \<Rightarrow> nat \<Rightarrow> nat \<Rightarrow> bool" where
  "in_range c lo hi \<longleftrightarrow> lo \<le> of_char c \<and> of_char c \<le> (hi::nat)"

definition utf8_cont :: "char \<Rightarrow> bool" where
  "utf8_cont c \<longleftrightarrow> in_range c 0x80 0xbf"

text \<open>\<open>utf8.ValidString\<close>: the well-formed sequences of the Unicode standard, table 3-7.\<close>

fun utf8_ValidString :: "string \<Rightarrow> bool" where
  "utf8_ValidString [] = True"
| "utf8_ValidString (a # s) =
     (if in_range a 0 0x7f then utf8_ValidString s
      else case s of
        [] \<Rightarrow> False
      | b # s2 \<Rightarrow>
          if in_range a 0xc2 0xdf \<and> utf8_cont b then utf8_ValidString s2
          else case s2 of
            [] \<Rightarrow> False
          | c # s3 \<Rightarrow>
              if utf8_cont c \<and> (in_range a 0xe0 0xe0 \<and> in_range b 0xa0 0xbf \<or>
                 in_range a 0xe1 0xec \<and> utf8_cont b \<or> in_range a 0xed 0xed \<and> in_range b 0x80 0x9f \<or>
                 in_range a 0xee 0xef \<and> utf8_cont b)
              then utf8_ValidString s3
              else case s3 of
                [] \<Rightarrow> False
              | d # s4 \<Rightarrow>
                  utf8_cont c \<and> utf8_cont d \<and> (in_range a 0xf0 0xf0 \<and> in_range b 0x90 0xbf \<or>
                    in_range a 0xf1 0xf3 \<and> utf8_cont b \<or> in_range a 0xf4 0xf4 \<and> in_range b 0x80 0x8f) \<and>
                  utf8_ValidString s4)"

definition is_ascii :: "char \<Rightarrow> bool" where
  "is_ascii c \<longleftrightarrow> in_range c 0 0x7f"

definition ascii_lower :: "char \<Rightarrow> char" where
  "ascii_lower c = (if CHR ''A'' \<le> c \<and> c \<le> CHR ''Z'' then char_of (of_char c + 32 :: nat) else c)"

text \<open>\<open>strings.ToLower\<close>: the ASCII path of the library, and the Unicode case tables (parameter
  \<open>unicode_lower\<close>) for every other string.\<close>

definition ToLower :: "(string \<Rightarrow> string) \<Rightarrow> string \<Rightarrow> string" where
  "ToLower unicode_lower s = (if list_all is_ascii s then map ascii_lower s else unicode_lower s)"

section \<open>Facts\<close>

lemma IndexByte_None: "IndexByte s c = None \<longleftrightarrow> c \<notin> set s"
  by (induction s) auto

lemma IndexByte_notin [simp]: "c \<notin> set s \<Longrightarrow> IndexByte s c = None"
  by (simp add: IndexByte_None)

lemma IndexByte_SomeD:
  "IndexByte s c = Some i \<Longrightarrow> s = take i s @ c # drop (Suc i) s \<and> c \<notin> set (take i s) \<and> i < length s"
  by (induction s arbitrary: i) (auto split: if_splits)

lemma IndexByte_append [simp]: "c \<notin> set a \<Longrightarrow> IndexByte (a @ c # b) c = Some (length a)"
  by (induction a) auto

lemma sorted_remdups_adj_strict: "sorted xs \<Longrightarrow> sorted_wrt (<) (remdups_adj xs)"
  by (induction xs rule: remdups_adj.induct) (auto simp: order_le_less)

lemma ascii_lower_not_upper:
  "\<not> (CHR ''A'' \<le> ascii_lower c \<and> ascii_lower c \<le> CHR ''Z'')"
proof -
  have "of_char (char_of (n + 32) :: char) = n + 32" if "n \<le> 90" for n :: nat
    using that by (simp add: of_char_of)
  then show ?thesis by (auto simp: ascii_lower_def less_eq_char_def)
qed

lemma is_ascii_lower: "is_ascii c \<Longrightarrow> is_ascii (ascii_lower c)"
  by (auto simp: is_ascii_def in_range_def ascii_lower_def less_eq_char_def of_char_of)

lemma utf8_ascii: "list_all is_ascii s \<Longrightarrow> utf8_ValidString s"
  by (induction s) (auto simp: is_ascii_def)

end
