(* ===== verification/Wal_Files.thy ===== *)
theory Wal_Files
  imports Go_Binary Go_Strings "HOL-Library.AList"
begin

text \<open>
  The directory of a write-ahead log: its files by name, the system calls the log makes on
  them, each of which may fail, and the numbered file names of segments and checkpoints
  (\<open>segmentPath\<close>, \<open>listNumbered\<close> of \<open>internal/tsdb/wal/wal.go\<close>).
\<close>

section \<open>Errors\<close>

datatype damage = ShortHeader nat | ImplausibleHeader byte nat | ShortPayload nat nat | CrcMismatch

datatype wal_error =
    IOError
  | NotExist
  | DirRequired
  | LogClosed
  | ReservedType
  | RecordTooLarge nat
  | PartialNotRemoved wal_error
  | NotRepositioned wal_error
  | ErrCorrupt string nat damage
  | Checkpointing string wal_error

section \<open>The file system\<close>

text \<open>
  The files of the log directory and the outcomes of the system calls to come: \<open>None\<close> lets a
  call succeed, \<open>Some k\<close> makes it fail, a write after \<open>k\<close> of its bytes have reached the file. When
  the list is used up every call succeeds.
\<close>

record os =
  os_files :: "(string \<times> byte list) list"
  os_faults :: "nat option list"

type_synonym 'a io = "(os, wal_error, 'a) fallible"

definition fault :: "os \<Rightarrow> nat option \<times> os" where
  "fault s = (case os_faults s of [] \<Rightarrow> (None, s) | f # fs \<Rightarrow> (f, s\<lparr>os_faults := fs\<rparr>))"

definition file_content :: "os \<Rightarrow> string \<Rightarrow> byte list option" where
  "file_content s name = map_of (os_files s) name"

definition put_file :: "string \<Rightarrow> byte list \<Rightarrow> os \<Rightarrow> os" where
  "put_file name b s = s\<lparr>os_files := AList.update name b (os_files s)\<rparr>"

text \<open>A call with no effect on the files: \<open>fsync\<close>, \<open>close\<close>, \<open>lseek\<close>, \<open>stat\<close> of an open file.\<close>

definition sys_plain :: "unit io" where
  "sys_plain s = (case fault s of (None, s') \<Rightarrow> (Inr (), s') | (Some _, s') \<Rightarrow> (Inl IOError, s'))"

text \<open>\<open>open(O_CREATE)\<close> in append mode.\<close>

definition sys_create :: "string \<Rightarrow> unit io" where
  "sys_create name s =
     (case fault s of
        (Some _, s') \<Rightarrow> (Inl IOError, s')
      | (None, s') \<Rightarrow> (Inr (), case file_content s' name of None \<Rightarrow> put_file name [] s' | Some _ \<Rightarrow> s'))"

text \<open>\<open>open(O_CREATE | O_TRUNC)\<close>.\<close>

definition sys_create_trunc :: "string \<Rightarrow> unit io" where
  "sys_create_trunc name s =
     (case fault s of (Some _, s') \<Rightarrow> (Inl IOError, s') | (None, s') \<Rightarrow> (Inr (), put_file name [] s'))"

definition sys_write :: "string \<Rightarrow> byte list \<Rightarrow> unit io" where
  "sys_write name b s =
     (case fault s of
        (f, s') \<Rightarrow> (case file_content s' name of
            None \<Rightarrow> (Inl NotExist, s')
          | Some old \<Rightarrow> (case f of
                None \<Rightarrow> (Inr (), put_file name (old @ b) s')
              | Some k \<Rightarrow> (Inl IOError, put_file name (old @ take k b) s'))))"

text \<open>\<open>ftruncate\<close> fills with zeros when the file is shorter.\<close>

definition sys_truncate :: "string \<Rightarrow> nat \<Rightarrow> unit io" where
  "sys_truncate name n s =
     (case fault s of
        (Some _, s') \<Rightarrow> (Inl IOError, s')
      | (None, s') \<Rightarrow> (case file_content s' name of
            None \<Rightarrow> (Inl NotExist, s')
          | Some old \<Rightarrow> (Inr (), put_file name (take n old @ replicate (n - length old) 0) s')))"

definition sys_size :: "string \<Rightarrow> nat io" where
  "sys_size name s =
     (case fault s of
        (Some _, s') \<Rightarrow> (Inl IOError, s')
      | (None, s') \<Rightarrow> (case file_content s' name of
            None \<Rightarrow> (Inl NotExist, s')
          | Some b \<Rightarrow> (Inr (length b), s')))"

definition sys_remove :: "string \<Rightarrow> unit io" where
  "sys_remove name s =
     (case fault s of
        (Some _, s') \<Rightarrow> (Inl IOError, s')
      | (None, s') \<Rightarrow> (case file_content s' name of
            None \<Rightarrow> (Inl NotExist, s')
          | Some _ \<Rightarrow> (Inr (), s'\<lparr>os_files := AList.delete name (os_files s')\<rparr>)))"

definition sys_rename :: "string \<Rightarrow> string \<Rightarrow> unit io" where
  "sys_rename old new s =
     (case fault s of
        (Some _, s') \<Rightarrow> (Inl IOError, s')
      | (None, s') \<Rightarrow> (case file_content s' old of
            None \<Rightarrow> (Inl NotExist, s')
          | Some b \<Rightarrow> (Inr (), put_file new b (s'\<lparr>os_files := AList.delete old (os_files s')\<rparr>))))"

definition sys_readdir :: "string list io" where
  "sys_readdir s =
     (case fault s of (Some _, s') \<Rightarrow> (Inl IOError, s') | (None, s') \<Rightarrow> (Inr (map fst (os_files s')), s'))"

section \<open>Numbered names\<close>

definition digit_char :: "nat \<Rightarrow> char" where
  "digit_char d = char_of (48 + d)"

definition is_digit :: "char \<Rightarrow> bool" where
  "is_digit c \<longleftrightarrow> in_range c 48 57"

definition digit_val :: "char \<Rightarrow> nat" where
  "digit_val c = of_char c - 48"

fun decimal :: "nat \<Rightarrow> string" where
  "decimal n = (if n < 10 then [digit_char n] else decimal (n div 10) @ [digit_char (n mod 10)])"

declare decimal.simps [simp del]

text \<open>\<open>fmt.Sprintf("%08d", n)\<close>: the sign counts toward the width.\<close>

definition pad8 :: "int \<Rightarrow> string" where
  "pad8 n =
     (let ds = decimal (nat \<bar>n\<bar>)
      in if n < 0 then CHR ''-'' # replicate (7 - length ds) (CHR ''0'') @ ds
         else replicate (8 - length ds) (CHR ''0'') @ ds)"

definition digits_val :: "string \<Rightarrow> nat" where
  "digits_val ds = foldl (\<lambda>a c. 10 * a + digit_val c) 0 ds"

text \<open>\<open>strconv.Atoi\<close>.\<close>

definition Atoi :: "string \<Rightarrow> int option" where
  "Atoi s =
     (let signed = (s \<noteq> [] \<and> (hd s = CHR ''-'' \<or> hd s = CHR ''+''));
          ds = (if signed then tl s else s);
          n = int (digits_val ds)
      in if ds = [] \<or> \<not> list_all is_digit ds then None
         else if s \<noteq> [] \<and> hd s = CHR ''-'' then (if n \<le> 2 ^ 63 then Some (- n) else None)
         else if n < 2 ^ 63 then Some n else None)"

definition HasSuffix :: "string \<Rightarrow> string \<Rightarrow> bool" where
  "HasSuffix s suf \<longleftrightarrow> length suf \<le> length s \<and> drop (length s - length suf) s = suf"

definition TrimPrefix :: "string \<Rightarrow> string \<Rightarrow> string" where
  "TrimPrefix s p = (if HasPrefix s p then drop (length p) s else s)"

definition segmentExt :: string where "segmentExt = ''.wal''"
definition checkpointPre :: string where "checkpointPre = ''checkpoint.''"

definition segmentPath :: "int \<Rightarrow> string" where
  "segmentPath n = pad8 n @ segmentExt"

definition checkpointPath :: "int \<Rightarrow> string" where
  "checkpointPath n = checkpointPre @ pad8 n"

definition numbered :: "string \<Rightarrow> string \<Rightarrow> string \<Rightarrow> int option" where
  "numbered prefix ext name =
     (if \<not> HasPrefix name prefix \<or> \<not> HasSuffix name ext then None
      else Atoi (TrimSuffix (TrimPrefix name prefix) ext))"

definition listNumbered :: "string \<Rightarrow> string \<Rightarrow> int list io" where
  "listNumbered prefix ext = seq sys_readdir (\<lambda>names. ret (sort (List.map_filter (numbered prefix ext) names)))"

section \<open>Facts about names\<close>

lemma is_digit_char: "d < 10 \<Longrightarrow> is_digit (digit_char d) \<and> digit_val (digit_char d) = d"
  by (simp add: is_digit_def in_range_def digit_char_def digit_val_def of_char_of)

lemma decimal_digits: "list_all is_digit (decimal n) \<and> decimal n \<noteq> []"
proof (induction n rule: decimal.induct)
  case (1 n)
  then show ?case
    by (cases "n < 10") (simp_all add: decimal.simps [of n] is_digit_char)
qed

lemma decimal_val: "digits_val (decimal n) = n"
proof (induction n rule: decimal.induct)
  case (1 n)
  then show ?case
    by (cases "n < 10") (simp_all add: decimal.simps [of n] is_digit_char digits_val_def)
qed

lemma zero_digit: "is_digit (CHR ''0'')" "digit_val (CHR ''0'') = 0"
  by (simp_all add: is_digit_def in_range_def digit_val_def)

lemma pad_val: "digits_val (replicate k (CHR ''0'') @ ds) = digits_val ds"
  by (induction k) (simp_all add: zero_digit digits_val_def)

lemma pad8_digits: "0 \<le> n \<Longrightarrow> list_all is_digit (pad8 n) \<and> pad8 n \<noteq> []"
  using decimal_digits [of "nat n"] zero_digit
  by (auto simp: pad8_def Let_def list_all_iff)

lemma digit_not_sign: "is_digit c \<Longrightarrow> c \<noteq> CHR ''-'' \<and> c \<noteq> CHR ''+'' \<and> c \<noteq> CHR ''c'' \<and> c \<noteq> CHR ''.'' \<and>
    c \<noteq> CHR ''l'' \<and> c \<noteq> CHR ''p''"
  by (auto simp: is_digit_def in_range_def)

lemma Atoi_digits:
  assumes "list_all is_digit s" and "s \<noteq> []"
  shows "Atoi s = (let n = int (digits_val s) in if n < 2 ^ 63 then Some n else None)"
proof -
  have "is_digit (hd s)" using assms by (cases s) auto
  then have "hd s \<noteq> CHR ''-''" "hd s \<noteq> CHR ''+''" using digit_not_sign by blast+
  with assms show ?thesis by (simp add: Atoi_def)
qed

lemma Atoi_pad8:
  assumes "0 \<le> n" and "n < 2 ^ 63"
  shows "Atoi (pad8 n) = Some n"
  using Atoi_digits [of "pad8 n"] pad8_digits [OF assms(1)] assms
  by (simp add: pad8_def Let_def pad_val decimal_val)

lemma Atoi_not_digit: "c \<in> set (tl s) \<Longrightarrow> \<not> is_digit c \<Longrightarrow> Atoi s = None"
  by (cases s) (auto simp: Atoi_def Let_def list_all_iff)

lemma HasSuffix_append [simp]: "HasSuffix (a @ b) b"
  by (simp add: HasSuffix_def)

lemma HasPrefix_append [simp]: "HasPrefix (a @ b) a"
  by (simp add: HasPrefix_def)

lemma TrimSuffix_append [simp]: "TrimSuffix (a @ b) b = a"
  by (simp add: TrimSuffix_def)

lemma TrimPrefix_append [simp]: "TrimPrefix (a @ b) a = b"
  by (simp add: TrimPrefix_def)

lemma HasSuffix_last: "HasSuffix s suf \<Longrightarrow> suf \<noteq> [] \<Longrightarrow> last s = last suf"
  unfolding HasSuffix_def by (metis append_take_drop_id last_append)

lemma HasPrefix_hd: "HasPrefix s p \<Longrightarrow> p \<noteq> [] \<Longrightarrow> hd s = hd p"
  unfolding HasPrefix_def by (metis append_take_drop_id hd_append2)

abbreviation seg_number :: "string \<Rightarrow> int option" where
  "seg_number \<equiv> numbered [] segmentExt"

abbreviation cp_number :: "string \<Rightarrow> int option" where
  "cp_number \<equiv> numbered checkpointPre []"

definition checkpointTmp :: "int \<Rightarrow> string" where
  "checkpointTmp n = checkpointPath n @ ''.tmp''"

lemma pad8_last: "0 \<le> n \<Longrightarrow> is_digit (last (pad8 n))"
  using pad8_digits [of n] by (auto simp: list_all_iff)

lemma pad8_hd: "0 \<le> n \<Longrightarrow> is_digit (hd (pad8 n))"
  using pad8_digits [of n] by (auto simp: list_all_iff)

lemma seg_number_segment:
  assumes "0 \<le> n" "n < 2 ^ 63" shows "seg_number (segmentPath n) = Some n"
  using Atoi_pad8 [OF assms] TrimPrefix_append [of "[]"] HasPrefix_append [of "[]"]
  by (simp add: numbered_def segmentPath_def)

lemma cp_number_checkpoint:
  assumes "0 \<le> n" "n < 2 ^ 63" shows "cp_number (checkpointPath n) = Some n"
  using Atoi_pad8 [OF assms] TrimSuffix_append [of _ "[]"] HasSuffix_append [of _ "[]"]
  by (simp add: numbered_def checkpointPath_def)

lemma seg_number_checkpoint: "0 \<le> n \<Longrightarrow> seg_number (checkpointPath n) = None"
  using HasSuffix_last [of "checkpointPath n" segmentExt] pad8_last [of n] pad8_digits [of n] digit_not_sign
  by (auto simp: numbered_def checkpointPath_def segmentExt_def)

lemma cp_number_segment: "0 \<le> n \<Longrightarrow> cp_number (segmentPath n) = None"
  using HasPrefix_hd [of "segmentPath n" checkpointPre] pad8_hd [of n] pad8_digits [of n] digit_not_sign
  by (auto simp: numbered_def segmentPath_def checkpointPre_def)

lemma tmp_no_number:
  assumes "0 \<le> n" shows "seg_number (checkpointTmp n) = None" "cp_number (checkpointTmp n) = None"
proof -
  show "seg_number (checkpointTmp n) = None"
    using HasSuffix_last [of "checkpointTmp n" segmentExt]
    by (auto simp: numbered_def checkpointTmp_def segmentExt_def)
  have "CHR ''.'' \<in> set (tl (pad8 n @ ''.tmp''))" using pad8_digits [OF assms] by (cases "pad8 n") auto
  then have "Atoi (pad8 n @ ''.tmp'') = None"
    using Atoi_not_digit digit_not_sign by blast
  then show "cp_number (checkpointTmp n) = None"
    using TrimSuffix_append [of _ "[]"]
    by (simp add: numbered_def checkpointTmp_def checkpointPath_def)
qed

lemma Atoi_bound: "Atoi s = Some n \<Longrightarrow> n < 2 ^ 63"
  by (auto simp: Atoi_def Let_def split: if_splits)

lemma numbered_bound: "numbered pre ext name = Some n \<Longrightarrow> n < 2 ^ 63"
  by (auto simp: numbered_def dest: Atoi_bound split: if_splits)

section \<open>Listings\<close>

definition file_names :: "(string \<times> byte list) list \<Rightarrow> string set" where
  "file_names fs = fst ` set fs"

definition listing :: "string \<Rightarrow> string \<Rightarrow> (string \<times> byte list) list \<Rightarrow> int list" where
  "listing prefix ext fs = sort (List.map_filter (numbered prefix ext) (map fst fs))"

abbreviation segs :: "(string \<times> byte list) list \<Rightarrow> int list" where
  "segs \<equiv> listing [] segmentExt"

abbreviation cps :: "(string \<times> byte list) list \<Rightarrow> int list" where
  "cps \<equiv> listing checkpointPre []"

text \<open>Numbers a log uses.\<close>

definition num_ok :: "int \<Rightarrow> bool" where
  "num_ok n \<longleftrightarrow> 0 \<le> n \<and> n < 2 ^ 63"

text \<open>A directory whose numbered files are named the way the log names them.\<close>

definition wf_files :: "(string \<times> byte list) list \<Rightarrow> bool" where
  "wf_files fs \<longleftrightarrow> distinct (map fst fs) \<and>
     (\<forall>name \<in> file_names fs. \<forall>n.
        (seg_number name = Some n \<longrightarrow> 0 \<le> n \<and> name = segmentPath n) \<and>
        (cp_number name = Some n \<longrightarrow> 0 \<le> n \<and> name = checkpointPath n))"

lemma num_ok_numbers [simp]:
  assumes "num_ok n"
  shows "seg_number (segmentPath n) = Some n" "cp_number (checkpointPath n) = Some n"
    "seg_number (checkpointPath n) = None" "cp_number (segmentPath n) = None"
    "seg_number (checkpointTmp n) = None" "cp_number (checkpointTmp n) = None"
  using assms seg_number_segment cp_number_checkpoint seg_number_checkpoint cp_number_segment tmp_no_number
  by (simp_all add: num_ok_def)

lemma path_inj:
  assumes "num_ok m" "num_ok n"
  shows "segmentPath m = segmentPath n \<longleftrightarrow> m = n" "checkpointPath m = checkpointPath n \<longleftrightarrow> m = n"
    "segmentPath m \<noteq> checkpointPath n" "segmentPath m \<noteq> checkpointTmp n" "checkpointPath m \<noteq> checkpointTmp n"
  using num_ok_numbers [OF assms(1)] num_ok_numbers [OF assms(2)] by (metis option.inject option.distinct(1))+

lemma set_listing: "set (listing pre ext fs) = {n. \<exists>name \<in> file_names fs. numbered pre ext name = Some n}"
  by (auto simp: listing_def file_names_def List.map_filter_def image_iff Bex_def)
     (metis fst_conv option.sel)+

lemma wf_filesD:
  assumes "wf_files fs" "name \<in> file_names fs"
  shows "seg_number name = Some n \<Longrightarrow> 0 \<le> n \<and> name = segmentPath n"
    and "cp_number name = Some n \<Longrightarrow> 0 \<le> n \<and> name = checkpointPath n"
  using assms unfolding wf_files_def by metis+

lemma set_segs: "wf_files fs \<Longrightarrow> set (segs fs) = {n. num_ok n \<and> segmentPath n \<in> file_names fs}"
proof (intro equalityI subsetI)
  fix n
  assume wf: "wf_files fs" and "n \<in> set (segs fs)"
  then obtain name where name: "name \<in> file_names fs" "seg_number name = Some n"
    unfolding set_listing by blast
  show "n \<in> {n. num_ok n \<and> segmentPath n \<in> file_names fs}"
    using wf_filesD(1) [OF wf name] name(1) numbered_bound [OF name(2)] by (simp add: num_ok_def)
next
  fix n
  assume "n \<in> {n. num_ok n \<and> segmentPath n \<in> file_names fs}"
  then have n: "num_ok n" "segmentPath n \<in> file_names fs" by simp_all
  show "n \<in> set (segs fs)" unfolding set_listing using num_ok_numbers(1) [OF n(1)] n(2) by (simp add: bexI)
qed

lemma set_cps: "wf_files fs \<Longrightarrow> set (cps fs) = {n. num_ok n \<and> checkpointPath n \<in> file_names fs}"
proof (intro equalityI subsetI)
  fix n
  assume wf: "wf_files fs" and "n \<in> set (cps fs)"
  then obtain name where name: "name \<in> file_names fs" "cp_number name = Some n"
    unfolding set_listing by blast
  show "n \<in> {n. num_ok n \<and> checkpointPath n \<in> file_names fs}"
    using wf_filesD(2) [OF wf name] name(1) numbered_bound [OF name(2)] by (simp add: num_ok_def)
next
  fix n
  assume "n \<in> {n. num_ok n \<and> checkpointPath n \<in> file_names fs}"
  then have n: "num_ok n" "checkpointPath n \<in> file_names fs" by simp_all
  show "n \<in> set (cps fs)" unfolding set_listing using num_ok_numbers(2) [OF n(1)] n(2) by (simp add: bexI)
qed

lemma distinct_map_filter:
  "distinct xs \<Longrightarrow> (\<And>x y n. x \<in> set xs \<Longrightarrow> y \<in> set xs \<Longrightarrow> f x = Some n \<Longrightarrow> f y = Some n \<Longrightarrow> x = y) \<Longrightarrow>
   distinct (List.map_filter f xs)"
proof (induction xs)
  case (Cons x xs)
  then have IH: "distinct (List.map_filter f xs)" by simp
  have "n \<notin> set (List.map_filter f xs)" if "f x = Some n" for n
    using Cons.prems that by (fastforce simp: List.map_filter_def)
  with IH show ?case by (cases "f x") (simp_all add: List.map_filter_simps)
qed (simp add: List.map_filter_simps)

lemma listing_distinct: "wf_files fs \<Longrightarrow> distinct (segs fs) \<and> distinct (cps fs)"
  unfolding listing_def distinct_sort wf_files_def file_names_def
  by (intro conjI distinct_map_filter) (auto, (metis fst_conv)+)

lemma segs_sorted_list: "wf_files fs \<Longrightarrow> segs fs = sorted_list_of_set {n. num_ok n \<and> segmentPath n \<in> file_names fs}"
  using listing_distinct [of fs] set_segs [of fs]
  by (metis listing_def sorted_list_of_set.idem_if_sorted_distinct sorted_sort)

lemma cps_sorted_list: "wf_files fs \<Longrightarrow> cps fs = sorted_list_of_set {n. num_ok n \<and> checkpointPath n \<in> file_names fs}"
  using listing_distinct [of fs] set_cps [of fs]
  by (metis listing_def sorted_list_of_set.idem_if_sorted_distinct sorted_sort)

lemma names_update [simp]: "file_names (AList.update name b fs) = insert name (file_names fs)"
  by (simp add: file_names_def dom_update)

lemma names_delete [simp]: "file_names (AList.delete name fs) = file_names fs - {name}"
  by (force simp: file_names_def AList.delete_eq)

lemma names_map_of: "name \<in> file_names fs \<longleftrightarrow> map_of fs name \<noteq> None"
  by (auto simp: file_names_def map_of_eq_None_iff)

lemma wf_files_update:
  assumes "wf_files fs"
    and "\<And>n. seg_number name = Some n \<Longrightarrow> 0 \<le> n \<and> name = segmentPath n"
    and "\<And>n. cp_number name = Some n \<Longrightarrow> 0 \<le> n \<and> name = checkpointPath n"
  shows "wf_files (AList.update name b fs)"
  using assms by (simp add: wf_files_def distinct_update)

lemma wf_files_put [intro]:
  assumes "wf_files fs" "num_ok n"
  shows "wf_files (AList.update (segmentPath n) b fs)" "wf_files (AList.update (checkpointPath n) b fs)"
    "wf_files (AList.update (checkpointTmp n) b fs)"
  using assms by (auto intro!: wf_files_update simp: num_ok_def)

lemma wf_files_delete [intro]:
  assumes "wf_files fs" shows "wf_files (AList.delete name fs)"
proof -
  have "distinct (map fst (AList.delete name fs))"
    using assms by (simp add: wf_files_def distinct_delete)
  moreover have "(seg_number x = Some n \<longrightarrow> 0 \<le> n \<and> x = segmentPath n) \<and>
      (cp_number x = Some n \<longrightarrow> 0 \<le> n \<and> x = checkpointPath n)" if "x \<in> file_names fs - {name}" for x n
    using wf_filesD [OF assms, of x n] that by (metis DiffD1)
  ultimately show ?thesis unfolding wf_files_def names_delete by metis
qed

end
