(* ===== verification/Wal_Log.thy ===== *)
theory Wal_Log
  imports Wal_Files
begin

text \<open>
  The append-only log (\<open>internal/tsdb/wal/wal.go\<close>): record framing, opening and rolling segments,
  \<open>Log\<close> with its rollback of half-written records, \<open>Sync\<close> and \<open>Close\<close>. A method of \<open>WAL\<close> is a
  computation over the log's fields and the file system; the mutex makes each call one step.
\<close>

section \<open>Framing\<close>

record Record =
  rec_Type :: byte
  rec_Data :: "byte list"

definition headerSize :: nat where "headerSize = 9"
definition MaxRecordSize :: nat where "MaxRecordSize = 16777216"
definition DefaultSegmentSize :: int where "DefaultSegmentSize = 33554432"

text \<open>\<open>crc32.Checksum\<close> with the Castagnoli polynomial, bit by bit.\<close>

definition crc_step :: "32 word \<Rightarrow> 32 word" where
  "crc_step c = (if bit c 0 then drop_bit 1 c XOR 0x82f63b78 else drop_bit 1 c)"

definition crc_byte :: "32 word \<Rightarrow> byte \<Rightarrow> 32 word" where
  "crc_byte c b = (crc_step ^^ 8) (c XOR ucast b)"

definition crc32c :: "byte list \<Rightarrow> 32 word" where
  "crc32c bs = NOT (foldl crc_byte (NOT 0) bs)"

definition frame_header :: "Record \<Rightarrow> byte list" where
  "frame_header r = putUint32BE (of_nat (length (rec_Data r))) @ [rec_Type r] @ putUint32BE (crc32c (rec_Data r))"

section \<open>The log\<close>

text \<open>\<open>w_open\<close> says whether the handle \<open>f\<close> is usable; \<open>w_file\<close> is the name it was opened under.\<close>

record WAL =
  w_segmentSize :: int
  w_file :: string
  w_open :: bool
  w_segment :: int
  w_size :: nat
  w_closed :: bool
  w_broken :: "wal_error option"

type_synonym 'a wal_op = "(WAL \<times> os, wal_error, 'a) fallible"

definition lift_os :: "'a io \<Rightarrow> 'a wal_op" where
  "lift_os m ws = (case m (snd ws) of (r, s') \<Rightarrow> (r, (fst ws, s')))"

text \<open>Calls on the handle fail once it is closed.\<close>

definition on_file :: "(string \<Rightarrow> 'a io) \<Rightarrow> 'a wal_op" where
  "on_file m ws = (if w_open (fst ws) then lift_os (m (w_file (fst ws))) ws else (Inl IOError, ws))"

definition f_Write :: "byte list \<Rightarrow> unit wal_op" where
  "f_Write b = on_file (\<lambda>name. sys_write name b)"

definition f_Truncate :: "nat \<Rightarrow> unit wal_op" where
  "f_Truncate n = on_file (\<lambda>name. sys_truncate name n)"

definition f_Plain :: "unit wal_op" where
  "f_Plain = on_file (\<lambda>_. sys_plain)"

definition f_Close :: "unit wal_op" where
  "f_Close ws = (case f_Plain ws of (r, (w, s)) \<Rightarrow> (r, (w\<lparr>w_open := False\<rparr>, s)))"

definition syncDir :: "unit io" where
  "syncDir = seq sys_plain (\<lambda>_. sys_plain)"

definition openSegment :: "int \<Rightarrow> unit wal_op" where
  "openSegment n ws =
     (let path = segmentPath n
      in case lift_os (sys_create path) ws of
           (Inl e, ws1) \<Rightarrow> (Inl e, ws1)
         | (Inr _, ws1) \<Rightarrow>
             (case lift_os (sys_size path) ws1 of
                (Inl e, ws2) \<Rightarrow> (Inl e, snd (lift_os sys_plain ws2))
              | (Inr sz, ws2) \<Rightarrow>
                  (case (if sz = 0 then lift_os syncDir ws2 else (Inr (), ws2)) of
                     (Inl e, ws3) \<Rightarrow> (Inl e, snd (lift_os sys_plain ws3))
                   | (Inr _, (w, s)) \<Rightarrow>
                       (Inr (), (w\<lparr>w_file := path, w_open := True, w_segment := n, w_size := sz\<rparr>, s)))))"

definition newWAL :: "int \<Rightarrow> WAL" where
  "newWAL segmentSize = \<lparr>w_segmentSize = segmentSize, w_file = [], w_open = False, w_segment = 0,
     w_size = 0, w_closed = False, w_broken = None\<rparr>"

definition Open :: "string \<Rightarrow> int \<Rightarrow> WAL io" where
  "Open dir segmentSize s =
     (if dir = [] then (Inl DirRequired, s)
      else let size' = (if segmentSize \<le> 0 then DefaultSegmentSize else segmentSize)
           in seq sys_plain (\<lambda>_. seq (listNumbered [] segmentExt) (\<lambda>ns s1.
                let seg = (if ns \<noteq> [] then last ns else 0)
                in case openSegment seg (newWAL size', s1) of
                     (Inl e, (_, s2)) \<Rightarrow> (Inl e, s2)
                   | (Inr _, (w, s2)) \<Rightarrow> (Inr w, s2))) s)"

definition roll :: "unit wal_op" where
  "roll = seq f_Plain (\<lambda>_. seq f_Close (\<lambda>_ ws. openSegment (w_segment (fst ws) + 1) ws))"

definition undoPartial :: "wal_error \<Rightarrow> unit wal_op" where
  "undoPartial cause ws =
     (case f_Truncate (w_size (fst ws)) ws of
        (Inl _, (w, s)) \<Rightarrow> (Inl (PartialNotRemoved cause), (w\<lparr>w_broken := Some (PartialNotRemoved cause)\<rparr>, s))
      | (Inr _, ws1) \<Rightarrow>
          (case f_Plain ws1 of
             (Inl _, (w, s)) \<Rightarrow> (Inl (NotRepositioned cause), (w\<lparr>w_broken := Some (NotRepositioned cause)\<rparr>, s))
           | (Inr _, ws2) \<Rightarrow> (Inl cause, ws2)))"

fun log_check :: "Record list \<Rightarrow> nat \<Rightarrow> wal_error + nat" where
  "log_check [] tot = Inr tot"
| "log_check (r # rs) tot =
     (if rec_Type r = 0 then Inl ReservedType
      else if MaxRecordSize < length (rec_Data r) then Inl (RecordTooLarge (length (rec_Data r)))
      else log_check rs (tot + (headerSize + length (rec_Data r))))"

fun log_write :: "Record list \<Rightarrow> unit wal_op" where
  "log_write [] ws = (Inr (), ws)"
| "log_write (r # rs) ws =
     (case f_Write (frame_header r) ws of
        (Inl e, ws1) \<Rightarrow> undoPartial e ws1
      | (Inr _, ws1) \<Rightarrow>
          (case f_Write (rec_Data r) ws1 of
             (Inl e, ws2) \<Rightarrow> undoPartial e ws2
           | (Inr _, (w, s)) \<Rightarrow>
               log_write rs (w\<lparr>w_size := w_size w + (headerSize + length (rec_Data r))\<rparr>, s)))"

definition Log :: "Record list \<Rightarrow> unit wal_op" where
  "Log recs ws =
     (if recs = [] then (Inr (), ws)
      else if w_closed (fst ws) then (Inl LogClosed, ws)
      else case w_broken (fst ws) of
        Some e \<Rightarrow> (Inl e, ws)
      | None \<Rightarrow>
          (case log_check recs 0 of
             Inl e \<Rightarrow> (Inl e, ws)
           | Inr tot \<Rightarrow>
               (if 0 < w_size (fst ws) \<and> w_segmentSize (fst ws) < int (w_size (fst ws)) + int tot
                then seq roll (\<lambda>_. log_write recs) ws
                else log_write recs ws)))"

definition Sync :: "unit wal_op" where
  "Sync ws =
     (if w_closed (fst ws) then (Inl LogClosed, ws)
      else case w_broken (fst ws) of Some e \<Rightarrow> (Inl e, ws) | None \<Rightarrow> f_Plain ws)"

definition Close :: "unit wal_op" where
  "Close ws =
     (if w_closed (fst ws) then (Inr (), ws)
      else case f_Plain ((fst ws)\<lparr>w_closed := True\<rparr>, snd ws) of
        (r1, ws1) \<Rightarrow> (case f_Close ws1 of (r2, ws2) \<Rightarrow> (case r1 of Inl e \<Rightarrow> (Inl e, ws2) | Inr _ \<Rightarrow> (r2, ws2))))"

section \<open>Frames\<close>

definition frame :: "Record \<Rightarrow> byte list" where
  "frame r = frame_header r @ rec_Data r"

definition frames :: "Record list \<Rightarrow> byte list" where
  "frames rs = concat (map frame rs)"

definition rec_ok :: "Record \<Rightarrow> bool" where
  "rec_ok r \<longleftrightarrow> rec_Type r \<noteq> 0 \<and> length (rec_Data r) \<le> MaxRecordSize"

lemma length_frame_header [simp]: "length (frame_header r) = headerSize"
  by (simp add: frame_header_def headerSize_def)

lemma length_frame [simp]: "length (frame r) = headerSize + length (rec_Data r)"
  by (simp add: frame_def)

lemma frames_simps [simp]: "frames [] = []" "frames (r # rs) = frame r @ frames rs"
  "frames (rs @ rs') = frames rs @ frames rs'"
  by (simp_all add: frames_def)

lemma log_check_Inr: "log_check rs n = Inr m \<Longrightarrow> list_all rec_ok rs"
  by (induction rs arbitrary: n) (auto simp: rec_ok_def split: if_splits)

end
