(* ===== verification/Wal_Reader.thy ===== *)
theory Wal_Reader
  imports Wal_Log
begin

text \<open>
  Replay (\<open>internal/tsdb/wal/reader.go\<close>): every checkpoint in order, then every segment, record by
  record, with damage at the very end of the last file taken for the torn tail of an interrupted
  append and damage anywhere else reported. Reads see the files as they are; failures of read
  calls other than a missing file are not modelled.
\<close>

section \<open>The reader\<close>

record Position =
  pos_File :: string
  pos_Offset :: nat
  pos_Segment :: int

text \<open>\<open>r_f\<close> is the content of the open file, \<open>r_br\<close> what the buffered reader has not consumed of it.\<close>

record Reader =
  r_files :: "string list"
  r_idx :: nat
  r_f :: "byte list option"
  r_br :: "byte list"
  r_off :: nat
  r_last :: bool
  r_strict :: bool
  r_rec :: Record
  r_err :: "wal_error option"
  r_end :: Position

type_synonym files = "(string \<times> byte list) list"

text \<open>\<open>filepath.Ext\<close>, and \<open>fmt.Sscanf\<close> with \<open>%08d\<close>, which reads a number of at most eight characters.\<close>

definition file_ext :: "string \<Rightarrow> string" where
  "file_ext s = (if CHR ''.'' \<in> set s then CHR ''.'' # rev (takeWhile (\<lambda>c. c \<noteq> CHR ''.'') (rev s)) else [])"

definition scan8 :: "string \<Rightarrow> int option" where
  "scan8 s =
     (let t = take 8 s;
          signed = (t \<noteq> [] \<and> (hd t = CHR ''-'' \<or> hd t = CHR ''+''));
          ds = takeWhile is_digit (if signed then tl t else t)
      in if ds = [] then None
         else if t \<noteq> [] \<and> hd t = CHR ''-'' then Some (- int (digits_val ds)) else Some (int (digits_val ds)))"

definition segmentNumber :: "string \<Rightarrow> int" where
  "segmentNumber name = (if file_ext name \<noteq> segmentExt then - 1 else case scan8 name of None \<Rightarrow> - 1 | Some n \<Rightarrow> n)"

definition emptyRecord :: Record where
  "emptyRecord = \<lparr>rec_Type = 0, rec_Data = []\<rparr>"

definition readerOver :: "string list \<Rightarrow> bool \<Rightarrow> Reader" where
  "readerOver names strict = \<lparr>r_files = names, r_idx = 0, r_f = None, r_br = [], r_off = 0, r_last = False,
     r_strict = strict, r_rec = emptyRecord, r_err = None,
     r_end = \<lparr>pos_File = [], pos_Offset = 0, pos_Segment = - 1\<rparr>\<rparr>"

definition NewReader :: "Reader io" where
  "NewReader = seq (listNumbered checkpointPre []) (\<lambda>checkpoints. seq (listNumbered [] segmentExt) (\<lambda>segments.
     ret (readerOver (map checkpointPath checkpoints @ map segmentPath segments) False)))"

definition openNext :: "files \<Rightarrow> Reader \<Rightarrow> bool \<times> Reader" where
  "openNext fs r =
     (let name = r_files r ! r_idx r
      in case map_of fs name of
           None \<Rightarrow> (False, r\<lparr>r_err := Some NotExist\<rparr>)
         | Some b \<Rightarrow> (True, r\<lparr>r_f := Some b, r_br := b, r_off := 0, r_last := (r_idx r = length (r_files r) - 1),
             r_idx := r_idx r + 1,
             r_end := \<lparr>pos_File = name, pos_Offset = 0, pos_Segment = segmentNumber name\<rparr>\<rparr>))"

definition endsAt :: "Reader \<Rightarrow> nat \<Rightarrow> bool" where
  "endsAt r damageEnds = (case r_f r of None \<Rightarrow> False | Some b \<Rightarrow> length b \<le> damageEnds)"

definition torn :: "Reader \<Rightarrow> damage \<Rightarrow> nat \<Rightarrow> bool \<times> Reader" where
  "torn r cause damageEnds =
     (if r_last r \<and> \<not> r_strict r \<and> endsAt r damageEnds then (True, r)
      else (True, r\<lparr>r_err := Some (ErrCorrupt (pos_File (r_end r)) (r_off r) cause)\<rparr>))"

text \<open>The result is whether a record was read and whether replay is over.\<close>

definition readRecord :: "Reader \<Rightarrow> (bool \<times> bool) \<times> Reader" where
  "readRecord r =
     (let br = r_br r
      in if br = [] then ((False, False), r)
         else if length br < headerSize
         then (case torn (r\<lparr>r_br := []\<rparr>) (ShortHeader (length br)) (r_off r + length br) of
                 (d, r') \<Rightarrow> ((False, d), r'))
         else
           let len = unat (getUint32BE br);
               typ = br ! 4;
               want = getUint32BE (drop 5 br);
               body = drop headerSize br
           in if typ = 0 \<or> MaxRecordSize < len
              then (case torn (r\<lparr>r_br := body\<rparr>) (ImplausibleHeader typ len)
                           (r_off r + headerSize + MaxRecordSize) of
                      (d, r') \<Rightarrow> ((False, d), r'))
              else if length body < len
              then (case torn (r\<lparr>r_br := []\<rparr>) (ShortPayload (length body) len)
                           (r_off r + headerSize + length body) of
                      (d, r') \<Rightarrow> ((False, d), r'))
              else
                let payload = take len body; r1 = r\<lparr>r_br := drop len body\<rparr>
                in if crc32c payload \<noteq> want
                   then (case torn r1 CrcMismatch (r_off r + headerSize + len) of (d, r') \<Rightarrow> ((False, d), r'))
                   else let off = r_off r + headerSize + len
                        in ((True, False), r1\<lparr>r_off := off, r_end := (r_end r1)\<lparr>pos_Offset := off\<rparr>,
                              r_rec := \<lparr>rec_Type = typ, rec_Data = payload\<rparr>\<rparr>))"

text \<open>The loop of \<open>Next\<close>: read from the open file or open the next one.\<close>

lemma readRecord_keeps:
  assumes "readRecord r = (res, r')"
  shows "r_files r' = r_files r \<and> r_idx r' = r_idx r \<and> r_f r' = r_f r \<and> r_strict r' = r_strict r \<and> r_last r' = r_last r"
  using assms
  by (auto simp: readRecord_def torn_def Let_def split: if_splits)

lemma openNext_True:
  "openNext fs r = (True, r1) \<Longrightarrow> r_files r1 = r_files r \<and> r_idx r1 = Suc (r_idx r) \<and> r_f r1 \<noteq> None"
  by (auto simp: openNext_def Let_def split: option.splits)

function reader_Next :: "files \<Rightarrow> Reader \<Rightarrow> bool \<times> Reader" where
  "reader_Next fs r =
     (case r_f r of
        None \<Rightarrow>
          (if length (r_files r) \<le> r_idx r then (False, r)
           else case openNext fs r of
                  (False, r1) \<Rightarrow> (False, r1)
                | (True, r1) \<Rightarrow> reader_Next fs r1)
      | Some _ \<Rightarrow>
          (case readRecord r of
             ((True, _), r1) \<Rightarrow> (True, r1)
           | ((False, True), r1) \<Rightarrow> (False, r1)
           | ((False, False), r1) \<Rightarrow> reader_Next fs (r1\<lparr>r_f := None, r_br := []\<rparr>)))"
  by pat_completeness auto
termination
  by (relation "measure (\<lambda>(fs, r). 2 * (length (r_files r) - r_idx r) + (if r_f r = None then 0 else 1))")
     (auto dest!: sym [THEN openNext_True] sym [THEN readRecord_keeps])

declare reader_Next.simps [simp del]

lemma readRecord_True:
  assumes "readRecord r = ((True, d), r')"
  shows "length (r_br r') < length (r_br r)"
  using assms by (auto simp: readRecord_def torn_def Let_def headerSize_def split: if_splits)

lemma reader_Next_progress:
  "reader_Next fs r = (True, r') \<Longrightarrow>
   r_files r' = r_files r \<and>
   (r_idx r < r_idx r' \<and> r_idx r < length (r_files r) \<or> r_idx r' = r_idx r \<and> length (r_br r') < length (r_br r))"
proof (induction fs r rule: reader_Next.induct)
  case (1 fs r)
  show ?case
  proof (cases "r_f r")
    case None
    with 1(3) obtain r1 where r1: "openNext fs r = (True, r1)" "reader_Next fs r1 = (True, r')"
        "r_idx r < length (r_files r)"
      by (auto simp: reader_Next.simps [of fs r] split: if_splits prod.splits bool.splits)
    with 1(1) [OF None] openNext_True [OF r1(1)] show ?thesis by fastforce
  next
    case (Some b)
    obtain ok d r1 where rr: "readRecord r = ((ok, d), r1)" by (metis surj_pair)
    note keeps = readRecord_keeps [OF rr]
    show ?thesis
    proof (cases ok)
      case True
      with 1(3) Some rr have "r' = r1" by (auto simp: reader_Next.simps [of fs r])
      with keeps readRecord_True [of r d r1] rr True show ?thesis by simp
    next
      case False
      with 1(3) Some rr have "\<not> d" "reader_Next fs (r1\<lparr>r_f := None, r_br := []\<rparr>) = (True, r')"
        by (auto simp: reader_Next.simps [of fs r] split: bool.splits)
      with 1(2) [OF Some] rr False keeps show ?thesis by fastforce
    qed
  qed
qed

text \<open>\<open>for r.Next() { ... r.Record() ... }\<close>: every record replay yields, and the reader it leaves.\<close>

function drain :: "files \<Rightarrow> Reader \<Rightarrow> Record list \<times> Reader" where
  "drain fs r =
     (case reader_Next fs r of
        (False, r') \<Rightarrow> ([], r')
      | (True, r') \<Rightarrow> (let (recs, r'') = drain fs r' in (r_rec r' # recs, r'')))"
  by pat_completeness auto
termination
  by (relation "measures [\<lambda>(fs, r). length (r_files r) - r_idx r, \<lambda>(fs, r). length (r_br r)]")
     (auto dest!: sym [THEN reader_Next_progress])

declare drain.simps [simp del]

text \<open>Replay of a directory.\<close>

definition replay :: "files \<Rightarrow> Record list \<times> Reader" where
  "replay fs = drain fs (readerOver (map checkpointPath (cps fs) @ map segmentPath (segs fs)) False)"

section \<open>Reading frames\<close>

lemma drop_frame_header: "drop 5 (frame_header r @ rest) = putUint32BE (crc32c (rec_Data r)) @ rest"
  "(frame_header r @ rest) ! 4 = rec_Type r"
  "getUint32BE (frame_header r @ rest) = of_nat (length (rec_Data r))"
  by (simp_all add: frame_header_def nth_append)

lemma rec_ok_length: "rec_ok r \<Longrightarrow> unat (of_nat (length (rec_Data r)) :: 32 word) = length (rec_Data r)"
  by (simp add: rec_ok_def MaxRecordSize_def unat_of_nat)

lemma readRecord_frame:
  assumes "rec_ok x" and "r_br r = frame x @ rest"
  shows "readRecord r = ((True, False), r\<lparr>r_br := rest, r_off := r_off r + length (frame x), r_rec := x,
    r_end := (r_end r)\<lparr>pos_Offset := r_off r + length (frame x)\<rparr>\<rparr>)"
proof -
  have br: "r_br r = frame_header x @ rec_Data x @ rest" using assms(2) by (simp add: frame_def)
  then have "r_br r \<noteq> []" "\<not> length (r_br r) < headerSize"
    by (auto simp: headerSize_def frame_header_def)
  moreover have "drop headerSize (r_br r) = rec_Data x @ rest" by (simp add: br)
  moreover have "rec_Type x \<noteq> 0" "\<not> MaxRecordSize < length (rec_Data x)" using assms(1) by (auto simp: rec_ok_def)
  moreover have "unat (getUint32BE (r_br r)) = length (rec_Data x)" "r_br r ! 4 = rec_Type x"
      "getUint32BE (drop 5 (r_br r)) = crc32c (rec_Data x)"
    unfolding br drop_frame_header by (simp_all add: rec_ok_length [OF assms(1)])
  ultimately have "readRecord r = ((True, False), r\<lparr>r_br := rest, r_off := r_off r + headerSize + length (rec_Data x),
      r_end := (r_end r)\<lparr>pos_Offset := r_off r + headerSize + length (rec_Data x)\<rparr>,
      r_rec := \<lparr>rec_Type = rec_Type x, rec_Data = rec_Data x\<rparr>\<rparr>)"
    by (simp add: readRecord_def Let_def)
  then show ?thesis by (cases r, cases x) (simp add: add.assoc)
qed

text \<open>The part of a record an interrupted append can leave behind.\<close>

definition partial :: "byte list \<Rightarrow> bool" where
  "partial t \<longleftrightarrow> (\<exists>x k. rec_ok x \<and> k < length (frame x) \<and> t = take k (frame x))"

lemma partial_Nil [simp]: "partial []"
  unfolding partial_def
  by (intro exI [of _ "\<lparr>rec_Type = 1, rec_Data = []\<rparr>"] exI [of _ 0])
     (simp add: rec_ok_def headerSize_def)

lemma readRecord_partial:
  assumes "partial t" and "t \<noteq> []" and "r_br r = t"
  shows "\<exists>r' cause. readRecord r = ((False, True), r') \<and> r_end r' = r_end r \<and>
    r_err r' = (if r_last r \<and> \<not> r_strict r \<and> (\<exists>b. r_f r = Some b \<and> length b \<le> r_off r + length t)
                then r_err r else Some (ErrCorrupt (pos_File (r_end r)) (r_off r) cause))"
proof -
  obtain x k where x: "rec_ok x" "k < length (frame x)" "t = take k (frame x)"
    using assms(1) by (auto simp: partial_def)
  have len: "length t = k" using x(2,3) by simp
  show ?thesis
  proof (cases "k < headerSize")
    case True
    with assms(2,3) len show ?thesis
      by (auto simp: readRecord_def torn_def endsAt_def split: option.splits)
  next
    case False
    then have t: "t = frame_header x @ take (k - headerSize) (rec_Data x)"
      using x(3) by (simp add: frame_def)
    have short: "length (take (k - headerSize) (rec_Data x)) < length (rec_Data x)"
      using x(2) False by simp
    have "rec_Type x \<noteq> 0" "\<not> MaxRecordSize < length (rec_Data x)" using x(1) by (auto simp: rec_ok_def)
    moreover have "r_off r + headerSize + length (take (k - headerSize) (rec_Data x)) = r_off r + length t"
      unfolding t by simp
    ultimately show ?thesis
      using assms(2,3) len False short
      by (auto simp: readRecord_def torn_def endsAt_def t drop_frame_header rec_ok_length [OF x(1)] Let_def
          split: option.splits)
  qed
qed

lemma Next_frame:
  assumes "rec_ok x" and "r_br r = frame x @ rest" and "r_f r = Some b"
  shows "reader_Next fs r = (True, r\<lparr>r_br := rest, r_off := r_off r + length (frame x), r_rec := x,
    r_end := (r_end r)\<lparr>pos_Offset := r_off r + length (frame x)\<rparr>\<rparr>)"
  using readRecord_frame [OF assms(1,2)] assms(3) by (simp add: reader_Next.simps [of fs r])

text \<open>Replay of the rest of an open file that starts with whole frames.\<close>

lemma drain_frames:
  assumes "list_all rec_ok rs" and "r_br r = frames rs @ t" and "r_f r = Some b"
    and "pos_Offset (r_end r) = r_off r"
  shows "\<exists>r1. drain fs r = (rs @ fst (drain fs r1), snd (drain fs r1)) \<and>
    r_br r1 = t \<and> r_f r1 = Some b \<and> r_off r1 = r_off r + length (frames rs) \<and>
    r_end r1 = (r_end r)\<lparr>pos_Offset := r_off r + length (frames rs)\<rparr> \<and>
    r_files r1 = r_files r \<and> r_idx r1 = r_idx r \<and> r_last r1 = r_last r \<and> r_strict r1 = r_strict r \<and>
    r_err r1 = r_err r"
  using assms
proof (induction rs arbitrary: r)
  case Nil
  then have "r_end r = (r_end r)\<lparr>pos_Offset := r_off r + length (frames [])\<rparr>" by (cases "r_end r") simp
  with Nil show ?case by (intro exI [of _ r]) simp
next
  case (Cons x rs)
  let ?r = "r\<lparr>r_br := frames rs @ t, r_off := r_off r + length (frame x), r_rec := x,
    r_end := (r_end r)\<lparr>pos_Offset := r_off r + length (frame x)\<rparr>\<rparr>"
  have "reader_Next fs r = (True, ?r)" by (rule Next_frame) (use Cons.prems in simp_all)
  then have d: "drain fs r = (x # fst (drain fs ?r), snd (drain fs ?r))"
    by (simp add: drain.simps [of fs r] split: prod.split)
  obtain r1 where "drain fs ?r = (rs @ fst (drain fs r1), snd (drain fs r1))" "r_br r1 = t" "r_f r1 = Some b"
      "r_off r1 = r_off ?r + length (frames rs)"
      "r_end r1 = (r_end ?r)\<lparr>pos_Offset := r_off ?r + length (frames rs)\<rparr>"
      "r_files r1 = r_files r" "r_idx r1 = r_idx r" "r_last r1 = r_last r" "r_strict r1 = r_strict r"
      "r_err r1 = r_err r"
    using Cons.IH [of ?r] Cons.prems by auto
  with d show ?case by (intro exI [of _ r1]) (simp add: add.assoc)
qed

lemma drain_cong: "reader_Next fs r = reader_Next fs r' \<Longrightarrow> drain fs r = drain fs r'"
  by (simp only: drain.simps [of fs r] drain.simps [of fs r'])

text \<open>At the end of a file replay goes on with the next one; at the end of the last it stops.\<close>

lemma drain_end_of_file:
  assumes "r_f r = Some b" and "r_br r = []"
  shows "drain fs r = drain fs (r\<lparr>r_f := None\<rparr>)"
proof -
  have "readRecord r = ((False, False), r)" using assms(2) by (simp add: readRecord_def)
  moreover have "r\<lparr>r_f := None, r_br := []\<rparr> = r\<lparr>r_f := None\<rparr>" using assms(2) by simp
  ultimately have "reader_Next fs r = reader_Next fs (r\<lparr>r_f := None\<rparr>)"
    using assms(1) by (simp add: reader_Next.simps [of fs r])
  then show ?thesis by (rule drain_cong)
qed

lemma drain_no_more:
  assumes "r_f r = None" and "length (r_files r) \<le> r_idx r"
  shows "drain fs r = ([], r)"
  using assms by (simp add: drain.simps reader_Next.simps)

lemma drain_partial:
  assumes "partial t" and "t \<noteq> []" and "r_br r = t" and "r_f r = Some b"
  shows "\<exists>r' cause. drain fs r = ([], r') \<and> r_end r' = r_end r \<and>
    r_err r' = (if r_last r \<and> \<not> r_strict r \<and> length b \<le> r_off r + length t
                then r_err r else Some (ErrCorrupt (pos_File (r_end r)) (r_off r) cause))"
proof -
  obtain r' cause where r': "readRecord r = ((False, True), r')" "r_end r' = r_end r"
    "r_err r' = (if r_last r \<and> \<not> r_strict r \<and> (\<exists>b. r_f r = Some b \<and> length b \<le> r_off r + length t)
                then r_err r else Some (ErrCorrupt (pos_File (r_end r)) (r_off r) cause))"
    using readRecord_partial [OF assms(1-3)] by blast
  then have "drain fs r = ([], r')"
    using assms(4) by (simp add: drain.simps [of fs r] reader_Next.simps [of fs r])
  with r' assms(4) show ?thesis by (intro exI [of _ r'] exI [of _ cause]) simp
qed

text \<open>Opening a file that holds frames and, behind them, the bytes \<open>t\<close>.\<close>

lemma drain_open:
  assumes "r_f r = None" and "r_idx r < length (r_files r)" and "map_of fs (r_files r ! r_idx r) = Some (frames rs @ t)"
    and "list_all rec_ok rs"
  shows "\<exists>r1. drain fs r = (rs @ fst (drain fs r1), snd (drain fs r1)) \<and>
    r_br r1 = t \<and> r_f r1 = Some (frames rs @ t) \<and> r_off r1 = length (frames rs) \<and>
    r_end r1 = \<lparr>pos_File = r_files r ! r_idx r, pos_Offset = length (frames rs),
      pos_Segment = segmentNumber (r_files r ! r_idx r)\<rparr> \<and>
    r_files r1 = r_files r \<and> r_idx r1 = Suc (r_idx r) \<and> r_last r1 = (r_idx r = length (r_files r) - 1) \<and>
    r_strict r1 = r_strict r \<and> r_err r1 = r_err r"
proof -
  let ?name = "r_files r ! r_idx r"
  let ?r = "r\<lparr>r_f := Some (frames rs @ t), r_br := frames rs @ t, r_off := 0,
    r_last := (r_idx r = length (r_files r) - 1), r_idx := r_idx r + 1,
    r_end := \<lparr>pos_File = ?name, pos_Offset = 0, pos_Segment = segmentNumber ?name\<rparr>\<rparr>"
  have "openNext fs r = (True, ?r)" using assms(3) by (simp add: openNext_def Let_def)
  then have "reader_Next fs r = reader_Next fs ?r"
    using assms(1,2) by (simp add: reader_Next.simps [of fs r])
  then have "drain fs r = drain fs ?r" by (rule drain_cong)
  moreover obtain r1 where "drain fs ?r = (rs @ fst (drain fs r1), snd (drain fs r1))"
      "r_br r1 = t" "r_f r1 = r_f ?r" "r_off r1 = r_off ?r + length (frames rs)"
      "r_end r1 = (r_end ?r)\<lparr>pos_Offset := r_off ?r + length (frames rs)\<rparr>"
      "r_files r1 = r_files ?r" "r_idx r1 = r_idx ?r" "r_last r1 = r_last ?r" "r_strict r1 = r_strict ?r"
      "r_err r1 = r_err ?r"
    using drain_frames [OF assms(4), of ?r t "frames rs @ t" fs] by auto
  ultimately show ?thesis by (intro exI [of _ r1]) simp
qed

section \<open>Replay of a whole directory\<close>

text \<open>A list of files holds \<open>rss\<close>, and in the last file \<open>rs\<close> with the bytes \<open>t\<close> behind it.\<close>

definition files_hold :: "files \<Rightarrow> string list \<Rightarrow> Record list list \<Rightarrow> Record list \<Rightarrow> byte list \<Rightarrow> bool" where
  "files_hold fs names rss rs t \<longleftrightarrow>
     map (map_of fs) names = map (Some \<circ> frames) rss @ [Some (frames rs @ t)] \<and>
     list_all (list_all rec_ok) rss \<and> list_all rec_ok rs"

lemma files_hold_Nil: "files_hold fs names [] rs t \<longleftrightarrow> (\<exists>n. names = [n] \<and> map_of fs n = Some (frames rs @ t)) \<and> list_all rec_ok rs"
  by (cases names) (auto simp: files_hold_def)

lemma files_hold_Cons:
  "files_hold fs names (q # rss) rs t \<longleftrightarrow>
   (\<exists>n ns. names = n # ns \<and> map_of fs n = Some (frames q) \<and> list_all rec_ok q \<and> files_hold fs ns rss rs t)"
  by (cases names) (auto simp: files_hold_def)

lemma drop_eq_Cons:
  assumes "drop i xs = y # ys"
  shows "i < length xs" "xs ! i = y" "drop (Suc i) xs = ys"
proof -
  show l: "i < length xs" using assms by (cases "i < length xs") simp_all
  then show "xs ! i = y" "drop (Suc i) xs = ys" using Cons_nth_drop_Suc [OF l] assms by simp_all
qed

lemma last_nth: "Suc i = length xs \<Longrightarrow> last xs = xs ! i"
  by (cases xs rule: rev_cases) auto

lemma drain_last_file:
  assumes "r_f r = None" and "Suc (r_idx r) = length (r_files r)"
    and "map_of fs (last (r_files r)) = Some (frames rs @ t)" and "list_all rec_ok rs" and "partial t"
  shows "\<exists>r' cause. drain fs r = (rs, r') \<and>
    r_end r' = \<lparr>pos_File = last (r_files r), pos_Offset = length (frames rs), pos_Segment = segmentNumber (last (r_files r))\<rparr> \<and>
    r_err r' = (if t = [] \<or> \<not> r_strict r then r_err r
      else Some (ErrCorrupt (last (r_files r)) (length (frames rs)) cause))"
proof -
  have last: "last (r_files r) = r_files r ! r_idx r"
    using assms(2) by (rule last_nth)
  obtain r1 where r1: "drain fs r = (rs @ fst (drain fs r1), snd (drain fs r1))"
    "r_br r1 = t" "r_f r1 = Some (frames rs @ t)" "r_off r1 = length (frames rs)"
    "r_end r1 = \<lparr>pos_File = r_files r ! r_idx r, pos_Offset = length (frames rs),
      pos_Segment = segmentNumber (r_files r ! r_idx r)\<rparr>"
    "r_files r1 = r_files r" "r_idx r1 = Suc (r_idx r)" "r_last r1 = (r_idx r = length (r_files r) - 1)"
    "r_strict r1 = r_strict r" "r_err r1 = r_err r"
    using drain_open [OF assms(1) _ _ assms(4), of fs t] assms(2,3) unfolding last by auto
  show ?thesis
  proof (cases "t = []")
    case True
    then have "drain fs r1 = ([], r1\<lparr>r_f := None\<rparr>)"
      using drain_end_of_file [of r1 "frames rs @ t" fs] drain_no_more [of "r1\<lparr>r_f := None\<rparr>" fs] r1 assms(2) by simp
    with True r1 show ?thesis unfolding last by simp
  next
    case False
    have "r_last r1" using r1(8) assms(2) by simp
    with drain_partial [OF assms(5) False r1(2,3), of fs] r1 False show ?thesis unfolding last
      by (auto split: if_splits)
  qed
qed

lemma drain_names:
  assumes "files_hold fs names rss rs t" and "r_f r = None" and "drop (r_idx r) (r_files r) = names"
    and "\<not> r_strict r" and "partial t"
  shows "\<exists>r'. drain fs r = (concat rss @ rs, r') \<and> r_err r' = r_err r \<and>
    r_end r' = \<lparr>pos_File = last names, pos_Offset = length (frames rs), pos_Segment = segmentNumber (last names)\<rparr>"
  using assms
proof (induction rss arbitrary: names r)
  case Nil
  then obtain n where n: "names = [n]" "map_of fs n = Some (frames rs @ t)" "list_all rec_ok rs"
    by (auto simp: files_hold_Nil)
  note d = drop_eq_Cons [OF Nil.prems(3) [unfolded n(1)]]
  have "Suc (r_idx r) = length (r_files r)" using d(1,3) by simp
  moreover from last_nth [OF this] have "last (r_files r) = n" using d(2) by simp
  ultimately show ?case using drain_last_file [OF Nil.prems(2) _ _ n(3) Nil.prems(5), of fs] n Nil.prems(4) by auto
next
  case (Cons q rss)
  then obtain n ns where n: "names = n # ns" "map_of fs n = Some (frames q)" "list_all rec_ok q"
      "files_hold fs ns rss rs t" by (auto simp: files_hold_Cons)
  have idx: "r_idx r < length (r_files r)" "r_files r ! r_idx r = n" "drop (Suc (r_idx r)) (r_files r) = ns"
    by (rule drop_eq_Cons [OF Cons.prems(3) [unfolded n(1)]])+
  obtain r1 where r1: "drain fs r = (q @ fst (drain fs r1), snd (drain fs r1))" "r_br r1 = []"
    "r_f r1 = Some (frames q)" "r_files r1 = r_files r" "r_idx r1 = Suc (r_idx r)" "r_strict r1 = r_strict r"
    "r_err r1 = r_err r"
    using drain_open [OF Cons.prems(2) idx(1) _ n(3), of fs "[]"] idx(2) n(2) by auto
  have "drain fs r1 = drain fs (r1\<lparr>r_f := None\<rparr>)" using drain_end_of_file r1(2,3) by blast
  moreover have "ns \<noteq> []" using n(4) by (auto simp: files_hold_def)
  ultimately show ?case
    using Cons.IH [OF n(4), of "r1\<lparr>r_f := None\<rparr>"] r1 idx(3) Cons.prems(4,5) n(1) by auto
qed

end
