(* ===== verification/Wal_Durability.thy ===== *)
theory Wal_Durability
  imports Wal_Reader "HOL-Library.Sublist"
begin

text \<open>
  What the log promises across failures: whatever system calls fail, replay finds every batch
  that was acknowledged, in order, with at most a prefix of a failed batch in between; a crash
  in the middle of an append costs the torn record and nothing else.
\<close>

section \<open>Effects of the system calls\<close>

lemma fault_files [simp]: "os_files (snd (fault s)) = os_files s"
  by (simp add: fault_def split: list.split)

lemma fault_filesE: "fault s = (f, s') \<Longrightarrow> os_files s' = os_files s"
  using fault_files [of s] by simp

lemma sys_plain_files: "sys_plain s = (r, s') \<Longrightarrow> os_files s' = os_files s"
  by (auto simp: sys_plain_def dest: fault_filesE split: prod.splits option.splits)

lemma syncDir_files: "syncDir s = (r, s') \<Longrightarrow> os_files s' = os_files s"
  by (auto simp: syncDir_def seq_def dest!: sys_plain_files split: prod.splits sum.splits)

lemma sys_create_files:
  assumes "sys_create name s = (r, s')"
  shows "case r of Inl _ \<Rightarrow> os_files s' = os_files s
    | Inr _ \<Rightarrow> os_files s' = (case map_of (os_files s) name of None \<Rightarrow> AList.update name [] (os_files s) | Some _ \<Rightarrow> os_files s)"
  using assms
  by (auto simp: sys_create_def file_content_def put_file_def dest: fault_filesE split: prod.splits option.splits)

lemma sys_size_files:
  assumes "sys_size name s = (r, s')"
  shows "os_files s' = os_files s \<and>
    (\<forall>n. r = Inr n \<longrightarrow> (\<exists>b. map_of (os_files s) name = Some b \<and> n = length b))"
  using assms
  by (auto simp: sys_size_def file_content_def dest: fault_filesE split: prod.splits option.splits)

lemma sys_write_files:
  assumes "sys_write name b s = (r, s')" and "map_of (os_files s) name = Some old"
  shows "case r of Inl _ \<Rightarrow> (\<exists>k. os_files s' = AList.update name (old @ take k b) (os_files s))
    | Inr _ \<Rightarrow> os_files s' = AList.update name (old @ b) (os_files s)"
  using assms
  by (auto simp: sys_write_def file_content_def put_file_def dest!: fault_filesE split: prod.splits option.splits)

lemma sys_truncate_files:
  assumes "sys_truncate name n s = (r, s')" and "map_of (os_files s) name = Some old" and "n \<le> length old"
  shows "case r of Inl _ \<Rightarrow> os_files s' = os_files s | Inr _ \<Rightarrow> os_files s' = AList.update name (take n old) (os_files s)"
  using assms
  by (auto simp: sys_truncate_def file_content_def put_file_def dest!: fault_filesE split: prod.splits option.splits)

lemma openSegment_files:
  assumes "openSegment n (w, s) = (r, (w', s'))"
  defines "path \<equiv> segmentPath n" and "fs \<equiv> os_files s"
  defines "fs' \<equiv> case map_of fs path of None \<Rightarrow> AList.update path [] fs | Some _ \<Rightarrow> fs"
  shows "case r of
      Inl _ \<Rightarrow> w' = w \<and> (os_files s' = fs \<or> os_files s' = fs')
    | Inr _ \<Rightarrow> os_files s' = fs' \<and> (\<exists>b. map_of fs' path = Some b \<and>
        w' = w\<lparr>w_file := path, w_open := True, w_segment := n, w_size := length b\<rparr>)"
proof -
  obtain r1 s1 where c: "sys_create path s = (r1, s1)" by force
  show ?thesis
  proof (cases r1)
    case (Inl e)
    with c assms(1) sys_create_files [OF c] show ?thesis
      by (auto simp: openSegment_def lift_os_def path_def fs_def)
  next
    case c1: (Inr u)
    have f1: "os_files s1 = fs'" using sys_create_files [OF c] c1 unfolding fs'_def fs_def by simp
    obtain r2 s2 where z: "sys_size path s1 = (r2, s2)" by force
    note f2 = sys_size_files [OF z]
    show ?thesis
    proof (cases r2)
      case (Inl e)
      with c c1 z assms(1) f1 f2 show ?thesis
        by (auto simp: openSegment_def lift_os_def path_def split: prod.splits dest: sys_plain_files)
    next
      case (Inr m)
      obtain r3 s3 where d: "(if m = 0 then syncDir s2 else (Inr (), s2)) = (r3, s3)" by force
      then have f3: "os_files s3 = fs'" using f1 f2 syncDir_files by (auto split: if_splits)
      have lift: "(if m = 0 then lift_os syncDir (w, s2) else (Inr (), (w, s2))) = (r3, (w, s3))"
        using d by (auto simp: lift_os_def split: if_splits)
      show ?thesis
        using c c1 z Inr lift assms(1) f1 f2 f3
        by (cases r3) (auto simp: openSegment_def lift_os_def path_def split: prod.splits dest: sys_plain_files)
    qed
  qed
qed

section \<open>Directories that hold records\<close>

definition reader_files :: "files \<Rightarrow> string list" where
  "reader_files fs = map checkpointPath (cps fs) @ map segmentPath (segs fs)"

lemma le_last_sorted: "sorted xs \<Longrightarrow> x \<in> set xs \<Longrightarrow> x \<le> last xs"
  by (induction xs) auto

lemma reader_files_distinct: "wf_files fs \<Longrightarrow> distinct (reader_files fs)"
proof -
  assume wf: "wf_files fs"
  have "inj_on checkpointPath (set (cps fs))" "inj_on segmentPath (set (segs fs))"
    unfolding set_segs [OF wf] set_cps [OF wf] inj_on_def using path_inj(1,2) by blast+
  moreover have "checkpointPath ` set (cps fs) \<inter> segmentPath ` set (segs fs) = {}"
    unfolding set_segs [OF wf] set_cps [OF wf] using path_inj(3) by (auto dest: sym)
  ultimately show ?thesis
    using listing_distinct [OF wf] by (simp add: reader_files_def distinct_map)
qed

lemma reader_files_cong:
  assumes "wf_files fs" "wf_files fs'" "file_names fs' = file_names fs"
  shows "reader_files fs' = reader_files fs" "segs fs' = segs fs" "cps fs' = cps fs"
  using assms by (simp_all add: reader_files_def segs_sorted_list cps_sorted_list)

lemma replay_holds:
  assumes "files_hold fs (reader_files fs) rss rs t" and "partial t"
  shows "\<exists>r'. replay fs = (concat rss @ rs, r') \<and> r_err r' = None \<and>
    r_end r' = \<lparr>pos_File = last (reader_files fs), pos_Offset = length (frames rs),
      pos_Segment = segmentNumber (last (reader_files fs))\<rparr>"
  using drain_names [OF assms(1) _ _ _ assms(2), of "readerOver (reader_files fs) False"]
  by (simp add: replay_def reader_files_def readerOver_def)

lemma files_hold_last:
  "files_hold fs names rss rs t \<Longrightarrow> names \<noteq> [] \<and> map_of fs (last names) = Some (frames rs @ t) \<and> list_all rec_ok rs"
proof (induction rss arbitrary: names)
  case Nil
  then show ?case by (auto simp: files_hold_Nil)
next
  case (Cons q rss)
  then obtain n ns where n: "names = n # ns" "files_hold fs ns rss rs t" by (auto simp: files_hold_Cons)
  with Cons.IH [OF n(2)] show ?case by simp
qed

text \<open>Rewriting the last file.\<close>

lemma files_hold_update_last:
  assumes "files_hold fs names rss rs t" and "distinct names" and "list_all rec_ok rs'"
  shows "files_hold (AList.update (last names) (frames rs' @ t') fs) names rss rs' t'"
  using assms
proof (induction rss arbitrary: names)
  case Nil
  then obtain n where "names = [n]" unfolding files_hold_Nil by blast
  with Nil.prems(3) show ?case by (simp add: files_hold_Nil update_conv')
next
  case (Cons q rss)
  then obtain n ns where n: "names = n # ns" "map_of fs n = Some (frames q)" "list_all rec_ok q"
    "files_hold fs ns rss rs t" by (auto simp: files_hold_Cons)
  then have "ns \<noteq> []" by (auto simp: files_hold_def)
  moreover from this have "last names \<noteq> n" using n(1) Cons.prems(2) by auto
  moreover have "files_hold (AList.update (last ns) (frames rs' @ t') fs) ns rss rs' t'"
    using Cons.IH [OF n(4)] Cons.prems(2,3) n(1) by simp
  ultimately show ?case using n by (simp add: files_hold_Cons update_conv')
qed

text \<open>A new, empty segment behind whole files.\<close>

lemma files_hold_snoc:
  assumes "files_hold fs names rss rs []" and "name \<notin> set names"
  shows "files_hold (AList.update name [] fs) (names @ [name]) (rss @ [rs]) [] []"
  using assms
proof (induction rss arbitrary: names)
  case Nil
  then obtain n where n: "names = [n]" "map_of fs n = Some (frames rs)" "list_all rec_ok rs"
    unfolding files_hold_Nil by auto
  with Nil.prems(2) show ?case by (auto simp: files_hold_def update_conv')
next
  case (Cons q rss)
  then obtain n ns where n: "names = n # ns" "map_of fs n = Some (frames q)" "list_all rec_ok q"
    "files_hold fs ns rss rs []" by (auto simp: files_hold_Cons)
  then have "name \<noteq> n" "name \<notin> set ns" using Cons.prems(2) by auto
  with Cons.IH [OF n(4)] n show ?case unfolding append_Cons files_hold_Cons by (simp add: update_conv')
qed

lemma segs_new_last:
  assumes wf: "wf_files fs" and "segs fs \<noteq> []" and "num_ok (last (segs fs) + 1)"
  defines "m \<equiv> last (segs fs) + 1"
  shows "segmentPath m \<notin> file_names fs"
    and "segs (AList.update (segmentPath m) b fs) = segs fs @ [m]"
    and "cps (AList.update (segmentPath m) b fs) = cps fs"
proof -
  have sorted: "sorted (segs fs)" by (simp add: listing_def)
  have max: "n \<le> last (segs fs)" if "n \<in> set (segs fs)" for n
    using le_last_sorted [OF sorted that] .
  have m: "num_ok m" using assms(3) by (simp add: m_def)
  have "m \<notin> set (segs fs)" using max [of m] by (auto simp: m_def)
  with m show new: "segmentPath m \<notin> file_names fs" using set_segs [OF wf] by simp
  have wf': "wf_files (AList.update (segmentPath m) b fs)" using wf m by blast
  have "{n. num_ok n \<and> segmentPath n \<in> insert (segmentPath m) (file_names fs)} = insert m (set (segs fs))"
    using set_segs [OF wf] m path_inj(1) by auto
  then have "set (segs (AList.update (segmentPath m) b fs)) = set (segs fs @ [m])"
    using set_segs [OF wf'] by simp
  moreover have "sorted (segs fs @ [m])" using sorted max by (fastforce simp: sorted_append m_def)
  moreover have "distinct (segs fs @ [m])" using listing_distinct [OF wf] \<open>m \<notin> set (segs fs)\<close> by simp
  ultimately show "segs (AList.update (segmentPath m) b fs) = segs fs @ [m]"
    using listing_distinct [OF wf'] sorted_distinct_set_unique [of "segs (AList.update (segmentPath m) b fs)"]
    by (simp add: listing_def)
  have "num_ok n \<Longrightarrow> checkpointPath n \<noteq> segmentPath m" for n using path_inj(3) m by metis
  then have "{n. num_ok n \<and> checkpointPath n \<in> insert (segmentPath m) (file_names fs)} =
      {n. num_ok n \<and> checkpointPath n \<in> file_names fs}" by auto
  then show "cps (AList.update (segmentPath m) b fs) = cps fs"
    using cps_sorted_list [OF wf'] cps_sorted_list [OF wf] by simp
qed

section \<open>The invariant of an open log\<close>

text \<open>The directory replays to \<open>rs\<close>. While the handle is usable it is the last segment's, and unless
  the log is broken that segment ends, at \<open>w_size\<close>, with a whole record.\<close>

definition wal_inv :: "WAL \<Rightarrow> os \<Rightarrow> Record list \<Rightarrow> bool" where
  "wal_inv w s rs \<longleftrightarrow> wf_files (os_files s) \<and> segs (os_files s) \<noteq> [] \<and>
     (\<exists>rss r0 t. files_hold (os_files s) (reader_files (os_files s)) rss r0 t \<and> partial t \<and> rs = concat rss @ r0 \<and>
        (w_open w \<longrightarrow> w_segment w = last (segs (os_files s)) \<and> w_file w = segmentPath (w_segment w) \<and>
           (w_broken w = None \<longrightarrow> t = [] \<and> w_size w = length (frames r0))))"

lemma wal_invI:
  assumes "wf_files (os_files s)" "segs (os_files s) \<noteq> []"
    "files_hold (os_files s) (reader_files (os_files s)) rss r0 t" "partial t" "rs = concat rss @ r0"
    "w_open w \<Longrightarrow> w_segment w = last (segs (os_files s)) \<and> w_file w = segmentPath (w_segment w) \<and>
       (w_broken w = None \<longrightarrow> t = [] \<and> w_size w = length (frames r0))"
  shows "wal_inv w s rs"
  unfolding wal_inv_def
  by (intro conjI exI [of _ rss] exI [of _ r0] exI [of _ t] impI) (use assms in simp_all)

text \<open>The state in which \<open>Log\<close> may write.\<close>

definition at_end :: "WAL \<Rightarrow> os \<Rightarrow> Record list list \<Rightarrow> Record list \<Rightarrow> bool" where
  "at_end w s rss r0 \<longleftrightarrow> wf_files (os_files s) \<and> segs (os_files s) \<noteq> [] \<and>
     files_hold (os_files s) (reader_files (os_files s)) rss r0 [] \<and> w_open w \<and> w_broken w = None \<and>
     w_segment w = last (segs (os_files s)) \<and> w_file w = segmentPath (w_segment w) \<and> w_size w = length (frames r0)"

lemma at_end_inv: "at_end w s rss r0 \<Longrightarrow> wal_inv w s (concat rss @ r0)"
  unfolding at_end_def wal_inv_def using partial_Nil by blast

lemma last_reader_files: "segs fs \<noteq> [] \<Longrightarrow> last (reader_files fs) = segmentPath (last (segs fs))"
  by (simp add: reader_files_def last_map)

lemma last_segs_ok: "wf_files fs \<Longrightarrow> segs fs \<noteq> [] \<Longrightarrow> num_ok (last (segs fs)) \<and> segmentPath (last (segs fs)) \<in> file_names fs"
  using set_segs [of fs] last_in_set [of "segs fs"] by simp

lemma put_last:
  assumes "wf_files fs" "segs fs \<noteq> []" "files_hold fs (reader_files fs) rss r0 t" "list_all rec_ok r1"
    and fs1_def: "fs1 = AList.update (segmentPath (last (segs fs))) (frames r1 @ t1) fs"
  shows "wf_files fs1" "segs fs1 = segs fs" "files_hold fs1 (reader_files fs1) rss r1 t1"
proof -
  note last = last_segs_ok [OF assms(1,2)]
  show wf: "wf_files fs1" unfolding fs1_def using assms(1) last by blast
  have "file_names fs1 = file_names fs" using last by (auto simp: fs1_def)
  note same = reader_files_cong [OF assms(1) wf this]
  show "segs fs1 = segs fs" by (rule same)
  have "files_hold (AList.update (last (reader_files fs)) (frames r1 @ t1) fs) (reader_files fs) rss r1 t1"
    by (rule files_hold_update_last [OF assms(3) reader_files_distinct [OF assms(1)] assms(4)])
  then show "files_hold fs1 (reader_files fs1) rss r1 t1"
    unfolding same(1) last_reader_files [OF assms(2)] fs1_def [symmetric] .
qed

text \<open>Appending a piece of a frame leaves a torn record, or the whole record.\<close>

lemma frame_piece:
  assumes "list_all rec_ok r0" "rec_ok x"
  shows "\<exists>r1 t1 k. frames r0 @ take j (frame x) = frames r1 @ t1 \<and> list_all rec_ok r1 \<and> partial t1 \<and>
    k \<le> 1 \<and> r1 = r0 @ take k [x] \<and> length (frames r0) \<le> length (frames r1)"
proof (cases "j < length (frame x)")
  case True
  then have "partial (take j (frame x))" using assms(2) unfolding partial_def by blast
  with assms(1) show ?thesis by (intro exI [of _ r0] exI [of _ "take j (frame x)"] exI [of _ 0]) simp
next
  case False
  with assms show ?thesis by (intro exI [of _ "r0 @ [x]"] exI [of _ "[]"] exI [of _ "1::nat"]) simp
qed

lemma undoPartial_inv:
  assumes end': "at_end w s rss r0" and x: "rec_ok x"
    and s1: "os_files s1 = AList.update (w_file w) (frames r0 @ take j (frame x)) (os_files s)"
    and undo: "undoPartial cause (w, s1) = (res, (w', s'))"
  shows "(\<exists>e. res = Inl e) \<and> (\<exists>k\<le>1. wal_inv w' s' (concat rss @ r0 @ take k [x])) \<and> w_closed w' = w_closed w"
proof -
  let ?fs = "os_files s"
  have e: "wf_files ?fs" "segs ?fs \<noteq> []" "files_hold ?fs (reader_files ?fs) rss r0 []" "w_open w"
    "w_segment w = last (segs ?fs)" "w_file w = segmentPath (last (segs ?fs))" "w_size w = length (frames r0)"
    using end' by (simp_all add: at_end_def)
  have r0: "list_all rec_ok r0" using files_hold_last [OF e(3)] by blast
  obtain r1 t1 k where p: "frames r0 @ take j (frame x) = frames r1 @ t1" "list_all rec_ok r1" "partial t1"
    "k \<le> 1" "r1 = r0 @ take k [x]" using frame_piece [OF r0 x] by blast
  have fs1: "os_files s1 = AList.update (segmentPath (last (segs ?fs))) (frames r1 @ t1) ?fs"
    using s1 p(1) e(6) by simp
  note h1 = put_last [OF e(1-3) p(2) fs1]
  have old: "map_of (os_files s1) (w_file w) = Some (frames r0 @ take j (frame x))"
    unfolding s1 by (simp add: update_conv')
  obtain r2 s2 where tr: "sys_truncate (w_file w) (w_size w) s1 = (r2, s2)" by force
  note f2 = sys_truncate_files [OF tr old]
  show ?thesis
  proof (cases r2)
    case (Inl e')
    then have "os_files s2 = os_files s1" using f2 e(7) by simp
    moreover have "w' = w\<lparr>w_broken := Some (PartialNotRemoved cause)\<rparr>" "s' = s2" "\<exists>e. res = Inl e"
      using undo tr Inl e(4) by (auto simp: undoPartial_def f_Truncate_def on_file_def lift_os_def)
    ultimately show ?thesis
      using h1 e(2,5,6) p(3-5) unfolding wal_inv_def by auto
  next
    case (Inr u)
    then have fs2: "os_files s2 = AList.update (segmentPath (last (segs (os_files s1)))) (frames r0 @ []) (os_files s1)"
      using f2 e(6,7) h1(2) by simp
    have "segs (os_files s1) \<noteq> []" using h1(2) e(2) by simp
    note h2 = put_last [OF h1(1) this h1(3) r0 fs2]
    obtain r3 s3 where pl: "sys_plain s2 = (r3, s3)" by force
    have "os_files s3 = os_files s2" using sys_plain_files [OF pl] .
    moreover have "s' = s3 \<and> (\<exists>e. res = Inl e) \<and> (w' = w \<or> (\<exists>b. w' = w\<lparr>w_broken := Some b\<rparr>))"
      using undo tr Inr pl e(4)
      by (cases r3) (auto simp: undoPartial_def f_Truncate_def f_Plain_def on_file_def lift_os_def)
    moreover have "wal_inv v s3 (concat rss @ r0)" if "v = w \<or> (\<exists>b. v = w\<lparr>w_broken := Some b\<rparr>)" for v
    proof -
      have "w_open v = w_open w" "w_segment v = w_segment w" "w_file v = w_file w" "w_size v = w_size w"
        using that by auto
      then show ?thesis unfolding wal_inv_def
        using h2 h1(2) e(2,5,6,7) \<open>os_files s3 = os_files s2\<close> partial_Nil by metis
    qed
    ultimately have "(\<exists>e. res = Inl e) \<and> wal_inv w' s' (concat rss @ r0 @ take 0 [x]) \<and> w_closed w' = w_closed w"
      by auto
    then show ?thesis by blast
  qed
qed

lemma f_Write_at_end:
  assumes "at_end w s rss r0" "f_Write b (w, s1) = (res, ws')" "map_of (os_files s1) (w_file w) = Some old"
  shows "\<exists>s2. ws' = (w, s2) \<and> (case res of
      Inl _ \<Rightarrow> (\<exists>k. os_files s2 = AList.update (w_file w) (old @ take k b) (os_files s1))
    | Inr _ \<Rightarrow> os_files s2 = AList.update (w_file w) (old @ b) (os_files s1))"
proof -
  obtain r2 s2 where "sys_write (w_file w) b s1 = (r2, s2)" by force
  with sys_write_files [OF this assms(3)] assms(1,2) show ?thesis
    by (auto simp: at_end_def f_Write_def on_file_def lift_os_def)
qed

lemma at_end_content: "at_end w s rss r0 \<Longrightarrow> map_of (os_files s) (w_file w) = Some (frames r0) \<and> list_all rec_ok r0"
  using files_hold_last [of "os_files s" "reader_files (os_files s)" rss r0 "[]"] last_reader_files [of "os_files s"]
  by (simp add: at_end_def)

lemma at_end_append:
  assumes e: "at_end w s rss r0" and x: "rec_ok x"
    and s2: "os_files s2 = AList.update (w_file w) (frames r0 @ frame x) (os_files s)"
  shows "at_end (w\<lparr>w_size := w_size w + (headerSize + length (rec_Data x))\<rparr>) s2 rss (r0 @ [x])"
proof -
  let ?fs = "os_files s"
  have e': "wf_files ?fs" "segs ?fs \<noteq> []" "files_hold ?fs (reader_files ?fs) rss r0 []"
    "w_file w = segmentPath (last (segs ?fs))" using e by (simp_all add: at_end_def)
  have ok: "list_all rec_ok (r0 @ [x])" using at_end_content [OF e] x by simp
  have "os_files s2 = AList.update (segmentPath (last (segs ?fs))) (frames (r0 @ [x]) @ []) ?fs"
    using s2 e'(4) by simp
  note h = put_last [OF e'(1-3) ok this]
  with e show ?thesis by (simp add: at_end_def)
qed

lemma update_update: "AList.update k v (AList.update k u xs) = AList.update k v xs"
  by (induction xs) auto

lemma log_write_inv:
  assumes "at_end w s rss r0" and "list_all rec_ok rs" and "log_write rs (w, s) = (res, (w', s'))"
  shows "(\<exists>k\<le>length rs. wal_inv w' s' (concat rss @ r0 @ take k rs) \<and> (res = Inr () \<longrightarrow> k = length rs)) \<and>
    w_closed w' = w_closed w"
  using assms
proof (induction rs arbitrary: w s r0)
  case Nil
  then show ?case using at_end_inv [OF Nil.prems(1)] by simp
next
  case (Cons x rs)
  have x: "rec_ok x" and rs: "list_all rec_ok rs" using Cons.prems(2) by simp_all
  note content = at_end_content [OF Cons.prems(1)]
  have failed: ?case if undo: "undoPartial c (w, s1) = (res, (w', s'))" and
    s1: "os_files s1 = AList.update (w_file w) (frames r0 @ take j (frame x)) (os_files s)" for c j s1
  proof -
    obtain e k where "res = Inl e" "k \<le> 1" "wal_inv w' s' (concat rss @ r0 @ take k [x])" "w_closed w' = w_closed w"
      using undoPartial_inv [OF Cons.prems(1) x s1 undo] by blast
    moreover from this have "take k [x] = take k (x # rs)" by (cases k) auto
    ultimately show ?thesis by (metis One_nat_def Suc_le_eq le_trans length_Cons not_less_eq_eq sum.distinct(1) zero_less_Suc)
  qed
  obtain r1 ws1 where w1: "f_Write (frame_header x) (w, s) = (r1, ws1)" by (metis surj_pair)
  obtain s1 where s1: "ws1 = (w, s1)" and f1: "case r1 of
      Inl _ \<Rightarrow> (\<exists>k. os_files s1 = AList.update (w_file w) (frames r0 @ take k (frame_header x)) (os_files s))
    | Inr _ \<Rightarrow> os_files s1 = AList.update (w_file w) (frames r0 @ frame_header x) (os_files s)"
    using f_Write_at_end [OF Cons.prems(1) w1] content by blast
  show ?case
  proof (cases r1)
    case (Inl e)
    with f1 obtain k where "os_files s1 = AList.update (w_file w) (frames r0 @ take k (frame_header x)) (os_files s)" by auto
    moreover have "take k (frame_header x) = take (min k headerSize) (frame x)" by (simp add: frame_def min_def)
    ultimately show ?thesis using failed [of e s1 "min k headerSize"] Cons.prems(3) w1 s1 Inl by simp
  next
    case (Inr u)
    with f1 have fs1: "os_files s1 = AList.update (w_file w) (frames r0 @ frame_header x) (os_files s)" by simp
    then have c1: "map_of (os_files s1) (w_file w) = Some (frames r0 @ frame_header x)" by (simp add: update_conv')
    obtain r2 ws2 where w2: "f_Write (rec_Data x) (w, s1) = (r2, ws2)" by (metis surj_pair)
    obtain s2 where s2: "ws2 = (w, s2)" and f2: "case r2 of
        Inl _ \<Rightarrow> (\<exists>k. os_files s2 = AList.update (w_file w) ((frames r0 @ frame_header x) @ take k (rec_Data x)) (os_files s1))
      | Inr _ \<Rightarrow> os_files s2 = AList.update (w_file w) ((frames r0 @ frame_header x) @ rec_Data x) (os_files s1)"
      using f_Write_at_end [OF Cons.prems(1) w2 c1] by blast
    show ?thesis
    proof (cases r2)
      case r2: (Inl e)
      with f2 obtain k where "os_files s2 = AList.update (w_file w) (frames r0 @ frame_header x @ take k (rec_Data x)) (os_files s)"
        unfolding fs1 update_update by auto
      moreover have "frame_header x @ take k (rec_Data x) = take (headerSize + k) (frame x)" by (simp add: frame_def)
      ultimately show ?thesis using failed [of e s2 "headerSize + k"] Cons.prems(3) w1 s1 w2 s2 Inr r2 by simp
    next
      case r2: (Inr u2)
      with f2 have "os_files s2 = AList.update (w_file w) (frames r0 @ frame x) (os_files s)"
        unfolding fs1 update_update by (simp add: frame_def)
      note e2 = at_end_append [OF Cons.prems(1) x this]
      have "log_write rs (w\<lparr>w_size := w_size w + (headerSize + length (rec_Data x))\<rparr>, s2) = (res, (w', s'))"
        using Cons.prems(3) w1 s1 w2 s2 Inr r2 by simp
      from Cons.IH [OF e2 rs this] obtain k where "k \<le> length rs" "wal_inv w' s' (concat rss @ (r0 @ [x]) @ take k rs)"
        "res = Inr () \<longrightarrow> k = length rs" "w_closed w' = w_closed w" by auto
      then show ?thesis by (intro conjI exI [of _ "Suc k"]) simp_all
    qed
  qed
qed

lemma f_Plain_effect:
  assumes "f_Plain (w, s) = (res, (w', s'))"
  shows "w' = w \<and> os_files s' = os_files s"
  using assms by (auto simp: f_Plain_def on_file_def lift_os_def dest: sys_plain_files split: if_splits prod.splits)

lemma f_Close_effect:
  assumes "f_Close (w, s) = (res, (w', s'))"
  shows "w' = w\<lparr>w_open := False\<rparr> \<and> os_files s' = os_files s"
  using assms f_Plain_effect [of w s] by (auto simp: f_Close_def split: prod.splits)

lemma wal_inv_closed_handle:
  assumes "wal_inv w s rs" and "os_files s' = os_files s" and "\<not> w_open w'"
  shows "wal_inv w' s' rs"
  using assms unfolding wal_inv_def by metis

text \<open>An empty segment behind whole segments.\<close>

lemma put_segment:
  assumes "wf_files fs" "segs fs \<noteq> []" "files_hold fs (reader_files fs) rss r0 []" "num_ok (last (segs fs) + 1)"
    and fs1: "fs1 = AList.update (segmentPath (last (segs fs) + 1)) [] fs"
  shows "wf_files fs1" "segs fs1 = segs fs @ [last (segs fs) + 1]" "files_hold fs1 (reader_files fs1) (rss @ [r0]) [] []"
proof -
  note new = segs_new_last(1) [OF assms(1,2,4)] segs_new_last(2,3) [OF assms(1,2,4), of "[]", folded fs1]
  show "wf_files fs1" using assms(1,4) fs1 by blast
  show seg: "segs fs1 = segs fs @ [last (segs fs) + 1]" by (rule new)
  have "reader_files fs1 = reader_files fs @ [segmentPath (last (segs fs) + 1)]"
    unfolding reader_files_def seg new(3) by simp
  moreover have "segmentPath (last (segs fs) + 1) \<notin> set (reader_files fs)"
    using new(1) set_segs [OF assms(1)] set_cps [OF assms(1)] by (auto simp: reader_files_def)
  ultimately show "files_hold fs1 (reader_files fs1) (rss @ [r0]) [] []"
    using files_hold_snoc [OF assms(3)] fs1 by simp
qed

lemma roll_inv:
  assumes e: "at_end w s rss r0" and num: "num_ok (last (segs (os_files s)) + 1)"
    and roll: "roll (w, s) = (res, (w', s'))"
  shows "(case res of Inl _ \<Rightarrow> wal_inv w' s' (concat rss @ r0) | Inr _ \<Rightarrow> at_end w' s' (rss @ [r0]) []) \<and>
    w_closed w' = w_closed w"
proof -
  note inv = at_end_inv [OF e]
  obtain r1 w1 s1 where p: "f_Plain (w, s) = (r1, (w1, s1))" by (metis surj_pair)
  note p' = f_Plain_effect [OF p]
  obtain r2 w2 s2 where c: "f_Close (w, s1) = (r2, (w2, s2))" by (metis surj_pair)
  note c' = f_Close_effect [OF c]
  show ?thesis
  proof (cases r1)
    case (Inl x)
    then have "res = Inl x" "w' = w" "s' = s1" using roll p p' by (auto simp: roll_def seq_def)
    with inv p' show ?thesis by (simp add: wal_inv_def)
  next
    case r1: (Inr x)
    show ?thesis
    proof (cases r2)
      case (Inl y)
      then have "res = Inl y" "w' = w2" "s' = s2" using roll p p' c r1 by (auto simp: roll_def seq_def)
      with wal_inv_closed_handle [OF inv, of s2 w2] c' p' show ?thesis by simp
    next
      case r2: (Inr y)
      let ?fs = "os_files s" and ?n = "last (segs (os_files s)) + 1"
      have e': "wf_files ?fs" "segs ?fs \<noteq> []" "files_hold ?fs (reader_files ?fs) rss r0 []"
        "w_segment w = last (segs ?fs)" "w_broken w = None" using e by (simp_all add: at_end_def)
      have fs2: "os_files s2 = ?fs" using p' c' by simp
      have open': "openSegment ?n (w2, s2) = (res, (w', s'))"
        using roll p p' c c' r1 r2 e'(4) by (auto simp: roll_def seq_def)
      let ?fs1 = "AList.update (segmentPath ?n) [] ?fs"
      note new = put_segment [OF e'(1-3) num refl]
      have "map_of ?fs (segmentPath ?n) = None"
        using segs_new_last(1) [OF e'(1,2) num] names_map_of by blast
      with openSegment_files [OF open'] fs2 have eff: "case res of
          Inl _ \<Rightarrow> w' = w2 \<and> (os_files s' = ?fs \<or> os_files s' = ?fs1)
        | Inr _ \<Rightarrow> os_files s' = ?fs1 \<and> (\<exists>b. map_of ?fs1 (segmentPath ?n) = Some b \<and>
            w' = w2\<lparr>w_file := segmentPath ?n, w_open := True, w_segment := ?n, w_size := length b\<rparr>)"
        by (cases res) simp_all
      show ?thesis
      proof (cases res)
        case (Inl z)
        have "wal_inv w' s' (concat (rss @ [r0]) @ [])" if "os_files s' = ?fs1"
          by (rule wal_invI [of s' "rss @ [r0]" "[]" "[]"]) (use new that Inl eff c' in auto)
        moreover have "wal_inv w' s' (concat rss @ r0)" if "os_files s' = ?fs"
          using wal_inv_closed_handle [OF inv that] Inl eff c' by simp
        ultimately show ?thesis using Inl eff c' by auto
      next
        case (Inr z)
        with eff c' new e'(5) show ?thesis by (auto simp: at_end_def update_conv')
      qed
    qed
  qed
qed

lemma wal_inv_at_end:
  assumes "wal_inv w s rs" "w_open w" "w_broken w = None"
  obtains rss r0 where "at_end w s rss r0" "rs = concat rss @ r0"
  using assms unfolding wal_inv_def at_end_def by blast

lemma log_write_closed_handle:
  assumes "\<not> w_open w" "rs \<noteq> []" "log_write rs (w, s) = (res, (w', s'))"
  shows "\<exists>e. res = Inl e \<and> w' = w\<lparr>w_broken := Some e\<rparr> \<and> s' = s"
  using assms by (cases rs) (auto simp: f_Write_def on_file_def undoPartial_def f_Truncate_def)

lemma roll_closed_handle: "\<not> w_open w \<Longrightarrow> roll (w, s) = (Inl IOError, (w, s))"
  by (simp add: roll_def seq_def f_Plain_def on_file_def)

text \<open>Whatever fails, \<open>Log\<close> adds a prefix of the batch to what replay finds, and all of it when it
  returns without an error.\<close>

lemma Log_inv:
  assumes inv: "wal_inv w s rs" and num: "num_ok (last (segs (os_files s)) + 1)"
    and log: "Log batch (w, s) = (res, (w', s'))"
  shows "\<exists>k\<le>length batch. wal_inv w' s' (rs @ take k batch) \<and> (res = Inr () \<longrightarrow> k = length batch)"
proof -
  have unchanged: ?thesis if "wal_inv w' s' rs" "res = Inr () \<longrightarrow> batch = []"
    using that by (intro exI [of _ 0]) simp
  consider "batch = [] \<or> w_closed w \<or> w_broken w \<noteq> None \<or> (\<exists>e. log_check batch 0 = Inl e)"
    | n where "batch \<noteq> []" "\<not> w_closed w" "w_broken w = None" "log_check batch 0 = Inr n"
    by (cases "log_check batch 0") auto
  then show ?thesis
  proof cases
    case 1
    then have "w' = w" "s' = s" "res = Inr () \<longrightarrow> batch = []"
      using log by (auto simp: Log_def split: if_splits option.splits sum.splits)
    note eqs = this
    show ?thesis by (rule unchanged) (use inv eqs in simp_all)
  next
    case 2
    have ok: "list_all rec_ok batch" using log_check_Inr [OF 2(4)] .
    let ?full = "0 < w_size w \<and> w_segmentSize w < int (w_size w) + int n"
    have log': "(if ?full then seq roll (\<lambda>_. log_write batch) (w, s) else log_write batch (w, s)) = (res, (w', s'))"
      using log 2 by (simp add: Log_def)
    show ?thesis
    proof (cases "w_open w")
      case False
      show ?thesis
      proof (cases ?full)
        case True
        with log' roll_closed_handle [OF False] have "w' = w" "s' = s" "res = Inl IOError" by (auto simp: seq_def)
        note eqs = this
        show ?thesis by (rule unchanged) (use inv eqs in simp_all)
      next
        case full: False
        with log' have "log_write batch (w, s) = (res, (w', s'))" by (simp only: if_False)
        from log_write_closed_handle [OF False 2(1) this] obtain e where
          "res = Inl e" "w' = w\<lparr>w_broken := Some e\<rparr>" "s' = s" by blast
        note eqs = this
        show ?thesis by (rule unchanged) (use eqs False wal_inv_closed_handle [OF inv, of s' w'] in simp_all)
      qed
    next
      case True
      then obtain rss r0 where e: "at_end w s rss r0" "rs = concat rss @ r0"
        using wal_inv_at_end inv 2(3) by blast
      show ?thesis
      proof (cases ?full)
        case full: True
        obtain r1 w1 s1 where ro: "roll (w, s) = (r1, (w1, s1))" by (metis surj_pair)
        note ri = roll_inv [OF e(1) num ro]
        show ?thesis
        proof (cases r1)
          case (Inl x)
          with log' ro full have "res = Inl x" "w' = w1" "s' = s1" by (auto simp: seq_def)
          note eqs = this
          show ?thesis by (rule unchanged) (use eqs ri Inl e(2) in simp_all)
        next
          case (Inr x)
          with log' ro full have "log_write batch (w1, s1) = (res, (w', s'))" by (auto simp: seq_def)
          with log_write_inv [of w1 s1 "rss @ [r0]" "[]" batch res w' s'] ri Inr ok e(2) show ?thesis by auto
        qed
      next
        case False
        with log' have "log_write batch (w, s) = (res, (w', s'))" by (simp only: if_False)
        with log_write_inv [OF e(1) ok] e(2) show ?thesis by simp
      qed
    qed
  qed
qed

end
