(* ===== verification/Wal_Truncate.thy ===== *)
theory Wal_Truncate
  imports Wal_Durability
begin

text \<open>
  Repairing and shortening a log (\<open>internal/tsdb/wal/truncate.go\<close>): cutting a torn tail before the
  log is opened again, and replacing old segments by a checkpoint of the records still needed.
\<close>

section \<open>Operations\<close>

fun remove_each :: "string list \<Rightarrow> unit io" where
  "remove_each [] = ret ()"
| "remove_each (n # ns) = seq (sys_remove n) (\<lambda>_. remove_each ns)"

definition TruncateTail :: "Position \<Rightarrow> unit io" where
  "TruncateTail pos =
     (if pos_File pos = [] then ret ()
      else seq (sys_size (pos_File pos)) (\<lambda>sz.
           seq (if sz \<noteq> pos_Offset pos then sys_truncate (pos_File pos) (pos_Offset pos) else ret ()) (\<lambda>_.
           seq (listNumbered [] segmentExt) (\<lambda>ns.
           seq (remove_each (map segmentPath (filter (\<lambda>n. 0 \<le> pos_Segment pos \<and> pos_Segment pos < n) ns))) (\<lambda>_.
           syncDir)))))"

definition Repair :: "bool io" where
  "Repair = seq NewReader (\<lambda>r s.
     let r' = snd (drain (os_files s) r); pos = r_end r'
     in case r_err r' of
          Some e \<Rightarrow> (Inl e, s)
        | None \<Rightarrow>
            (if pos_File pos = [] then (Inr False, s)
             else seq (sys_size (pos_File pos)) (\<lambda>sz.
                  if sz = pos_Offset pos then ret False
                  else seq (TruncateTail pos) (\<lambda>_. ret True)) s))"

fun log_each :: "Record list \<Rightarrow> unit wal_op" where
  "log_each [] = ret ()"
| "log_each (r # rs) = seq (Log [r]) (\<lambda>_. log_each rs)"

text \<open>\<open>copyKept\<close>: the reads of one file do not depend on what is written to the checkpoint.\<close>

definition copyKept :: "(Record \<Rightarrow> bool) \<Rightarrow> string \<Rightarrow> unit wal_op" where
  "copyKept keep name ws =
     (let (recs, r) = drain (os_files (snd ws)) (readerOver [name] True)
      in seq (log_each (filter keep recs)) (\<lambda>_ ws'.
           case r_err r of Some e \<Rightarrow> (Inl (Checkpointing name e), ws') | None \<Rightarrow> (Inr (), ws')) ws)"

fun copy_each :: "(Record \<Rightarrow> bool) \<Rightarrow> string list \<Rightarrow> unit wal_op" where
  "copy_each keep [] = ret ()"
| "copy_each keep (n # ns) = seq (copyKept keep n) (\<lambda>_. copy_each keep ns)"

definition checkpointWAL :: "string \<Rightarrow> WAL" where
  "checkpointWAL tmp = \<lparr>w_segmentSize = 2 ^ 62, w_file = tmp, w_open = True, w_segment = 0, w_size = 0,
     w_closed = False, w_broken = None\<rparr>"

text \<open>From the open temporary file to the published checkpoint.\<close>

definition checkpoint_body :: "int list \<Rightarrow> int \<Rightarrow> (Record \<Rightarrow> bool) \<Rightarrow> unit wal_op" where
  "checkpoint_body doomed before keep =
     seq (lift_os (listNumbered checkpointPre [])) (\<lambda>ns.
     seq (copy_each keep (map checkpointPath (filter (\<lambda>n. n \<le> before) ns) @ map segmentPath doomed)) (\<lambda>_.
     seq f_Plain (\<lambda>_.
     seq f_Close (\<lambda>_.
     seq (lift_os (sys_rename (checkpointTmp before) (checkpointPath before))) (\<lambda>_.
     lift_os syncDir)))))"

text \<open>The deferred \<open>f.Close()\<close> and \<open>os.Remove(tmp)\<close> run on every path; their results are dropped.\<close>

definition writeCheckpoint :: "int list \<Rightarrow> int \<Rightarrow> (Record \<Rightarrow> bool) \<Rightarrow> unit io" where
  "writeCheckpoint doomed before keep =
     seq (sys_create_trunc (checkpointTmp before)) (\<lambda>_ s.
       case checkpoint_body doomed before keep (checkpointWAL (checkpointTmp before), s) of
         (res, ws1) \<Rightarrow> (res, snd (sys_remove (checkpointTmp before) (snd (snd (f_Close ws1))))))"

definition Truncate :: "int \<Rightarrow> (Record \<Rightarrow> bool) option \<Rightarrow> unit io" where
  "Truncate before keep =
     seq (listNumbered [] segmentExt) (\<lambda>ns.
       let doomed = filter (\<lambda>n. n < before) ns
       in if doomed = [] then ret ()
          else seq (case keep of None \<Rightarrow> ret () | Some k \<Rightarrow> writeCheckpoint doomed before k) (\<lambda>_.
               seq (remove_each (map segmentPath doomed)) (\<lambda>_.
               seq (listNumbered checkpointPre []) (\<lambda>cs.
               seq (remove_each (map checkpointPath (filter (\<lambda>n. n < before) cs))) (\<lambda>_.
               syncDir)))))"

section \<open>Without failures\<close>

definition calm :: "os \<Rightarrow> bool" where
  "calm s \<longleftrightarrow> os_faults s = []"

named_theorems calm_simps \<open>system calls that succeed\<close>

lemma fault_calm [calm_simps]: "calm s \<Longrightarrow> fault s = (None, s)"
  by (simp add: fault_def calm_def)

lemma calm_put [calm_simps]: "calm (put_file n b s) \<longleftrightarrow> calm s"
  by (simp add: calm_def put_file_def)

lemma os_files_put [calm_simps]: "os_files (put_file n b s) = AList.update n b (os_files s)"
  by (simp add: put_file_def)

lemma sys_plain_calm [calm_simps]: "calm s \<Longrightarrow> sys_plain s = (Inr (), s)"
  by (simp add: sys_plain_def fault_calm)

lemma syncDir_calm [calm_simps]: "calm s \<Longrightarrow> syncDir s = (Inr (), s)"
  by (simp add: syncDir_def seq_def sys_plain_calm)

lemma listNumbered_calm [calm_simps]: "calm s \<Longrightarrow> listNumbered p e s = (Inr (listing p e (os_files s)), s)"
  by (simp add: listNumbered_def seq_def sys_readdir_def fault_calm listing_def)

lemma sys_size_calm [calm_simps]:
  "calm s \<Longrightarrow> map_of (os_files s) n = Some b \<Longrightarrow> sys_size n s = (Inr (length b), s)"
  by (simp add: sys_size_def fault_calm file_content_def)

lemma sys_truncate_calm [calm_simps]:
  "calm s \<Longrightarrow> map_of (os_files s) n = Some b \<Longrightarrow> k \<le> length b \<Longrightarrow> sys_truncate n k s = (Inr (), put_file n (take k b) s)"
  by (simp add: sys_truncate_def fault_calm file_content_def)

lemma sys_write_calm [calm_simps]:
  "calm s \<Longrightarrow> map_of (os_files s) n = Some old \<Longrightarrow> sys_write n b s = (Inr (), put_file n (old @ b) s)"
  by (simp add: sys_write_def fault_calm file_content_def)

lemma sys_create_calm [calm_simps]:
  "calm s \<Longrightarrow> sys_create n s = (Inr (), if map_of (os_files s) n = None then put_file n [] s else s)"
  by (auto simp: sys_create_def fault_calm file_content_def split: option.split)

lemma NewReader_calm [calm_simps]: "calm s \<Longrightarrow> NewReader s = (Inr (readerOver (reader_files (os_files s)) False), s)"
  by (simp add: NewReader_def seq_def listNumbered_calm reader_files_def)

section \<open>Segment numbers of positions\<close>

lemma length_decimal: "n < 10 ^ Suc k \<Longrightarrow> length (decimal n) \<le> Suc k"
proof (induction k arbitrary: n)
  case 0
  then show ?case by (simp add: decimal.simps)
next
  case (Suc k)
  show ?case
  proof (cases "n < 10")
    case False
    have "n div 10 < 10 ^ Suc k" using Suc.prems by (simp add: div_less_iff_less_mult mult.commute)
    with False Suc.IH show ?thesis by (simp add: decimal.simps [of n])
  qed (simp add: decimal.simps)
qed

lemma length_pad8:
  assumes "0 \<le> n" "n < 10 ^ 8" shows "length (pad8 n) = 8"
proof -
  have "nat n < 10 ^ Suc 7" using assms by simp
  from length_decimal [OF this] show ?thesis using assms(1) by (simp add: pad8_def Let_def)
qed

lemma digits_no_dot: "list_all is_digit ds \<Longrightarrow> CHR ''.'' \<notin> set ds"
  using digit_not_sign by (auto simp: list_all_iff)

lemma takeWhile_digits: "list_all is_digit ds \<Longrightarrow> takeWhile is_digit ds = ds"
  by (simp add: takeWhile_eq_all_conv list_all_iff)

lemma segmentNumber_path:
  assumes "0 \<le> n" "n < 10 ^ 8" shows "segmentNumber (segmentPath n) = n"
proof -
  have d: "list_all is_digit (pad8 n)" "pad8 n \<noteq> []" using pad8_digits [OF assms(1)] by auto
  have "file_ext (segmentPath n) = segmentExt"
    using digits_no_dot [OF d(1)] by (simp add: file_ext_def segmentPath_def segmentExt_def)
  moreover have "is_digit (hd (pad8 n))" using pad8_hd [OF assms(1)] .
  then have "hd (pad8 n) \<noteq> CHR ''-''" "hd (pad8 n) \<noteq> CHR ''+''" using digit_not_sign by blast+
  then have "scan8 (segmentPath n) = Some (int (digits_val (pad8 n)))"
    using length_pad8 [OF assms] d by (simp add: scan8_def segmentPath_def takeWhile_digits)
  moreover have "int (digits_val (pad8 n)) = n"
    using assms(1) by (simp add: pad8_def Let_def pad_val decimal_val)
  ultimately show ?thesis by (simp add: segmentNumber_def)
qed

section \<open>Repair\<close>

lemma Repair_holds:
  assumes wf: "wf_files (os_files s)" "segs (os_files s) \<noteq> []" and c: "calm s"
    and hold: "files_hold (os_files s) (reader_files (os_files s)) rss r0 t" "partial t"
    and num: "last (segs (os_files s)) < 10 ^ 8"
  shows "\<exists>s'. Repair s = (Inr (t \<noteq> []), s') \<and> calm s' \<and> wf_files (os_files s') \<and>
    segs (os_files s') = segs (os_files s) \<and> files_hold (os_files s') (reader_files (os_files s')) rss r0 []"
proof -
  let ?fs = "os_files s" and ?name = "segmentPath (last (segs (os_files s)))"
  let ?pos = "\<lparr>pos_File = ?name, pos_Offset = length (frames r0), pos_Segment = last (segs ?fs)\<rparr>"
  note last = last_segs_ok [OF wf]
  obtain r' where r': "drain ?fs (readerOver (reader_files ?fs) False) = (concat rss @ r0, r')" "r_err r' = None"
    "r_end r' = ?pos"
    using replay_holds [OF hold] last_reader_files [OF wf(2)] segmentNumber_path [OF _ num] last
    by (auto simp: replay_def reader_files_def num_ok_def)
  have content: "map_of ?fs ?name = Some (frames r0 @ t)" "list_all rec_ok r0"
    using files_hold_last [OF hold(1)] last_reader_files [OF wf(2)] by auto
  have ne: "?name \<noteq> []" by (simp add: segmentPath_def segmentExt_def)
  show ?thesis
  proof (cases "t = []")
    case True
    then have "Repair s = (Inr False, s)"
      using r' ne content by (simp add: Repair_def seq_def calm_simps c)
    with True c wf hold show ?thesis by simp
  next
    case False
    let ?s = "put_file ?name (frames r0) s"
    have fs: "os_files ?s = AList.update ?name (frames r0 @ []) ?fs" by (simp add: calm_simps)
    note h = put_last [OF wf hold(1) content(2) fs]
    have "filter (\<lambda>n. 0 \<le> last (segs ?fs) \<and> last (segs ?fs) < n) (segs (os_files ?s)) = []"
      using h(2) le_last_sorted [of "segs ?fs"] by (force simp: filter_empty_conv listing_def)
    then have "Repair s = (Inr True, ?s)"
      using r' ne content False c by (simp add: Repair_def TruncateTail_def seq_def calm_simps)
    with False c h show ?thesis by (simp add: calm_simps)
  qed
qed

section \<open>Opening and appending\<close>

lemma openSegment_calm:
  assumes "calm s" "map_of (os_files s) (segmentPath n) = Some b"
  shows "openSegment n (w, s) =
    (Inr (), (w\<lparr>w_file := segmentPath n, w_open := True, w_segment := n, w_size := length b\<rparr>, s))"
  using assms by (simp add: openSegment_def lift_os_def calm_simps Let_def)

lemma openSegment_new_calm:
  assumes "calm s" "map_of (os_files s) (segmentPath n) = None"
  shows "openSegment n (w, s) =
    (Inr (), (w\<lparr>w_file := segmentPath n, w_open := True, w_segment := n, w_size := 0\<rparr>, put_file (segmentPath n) [] s))"
  using assms by (simp add: openSegment_def lift_os_def calm_simps update_conv' Let_def)

lemma Open_holds:
  assumes "wf_files (os_files s)" "segs (os_files s) \<noteq> []" "calm s" "dir \<noteq> []"
    and "files_hold (os_files s) (reader_files (os_files s)) rss r0 []"
  shows "\<exists>w. Open dir segSize s = (Inr w, s) \<and> at_end w s rss r0 \<and> \<not> w_closed w"
proof -
  have "map_of (os_files s) (segmentPath (last (segs (os_files s)))) = Some (frames r0)"
    using files_hold_last [OF assms(5)] last_reader_files [OF assms(2)] by simp
  from openSegment_calm [OF assms(3) this] assms show ?thesis
    by (simp add: Open_def seq_def calm_simps newWAL_def at_end_def)
qed

lemma Open_empty:
  assumes "os_files s = []" "calm s" "dir \<noteq> []"
  shows "\<exists>w s'. Open dir segSize s = (Inr w, s') \<and> at_end w s' [] [] \<and> \<not> w_closed w \<and> calm s' \<and> segs (os_files s') = [0]"
proof -
  have n: "num_ok 0" by (simp add: num_ok_def)
  let ?fs = "AList.update (segmentPath 0) [] []"
  have "wf_files []" by (simp add: wf_files_def file_names_def)
  then have wf: "wf_files ?fs" using n by blast
  have "{m. num_ok m \<and> segmentPath m = segmentPath 0} = {0}" using path_inj(1) n by auto
  then have seg: "segs ?fs = [0]" using segs_sorted_list [OF wf] by (simp add: file_names_def)
  have "checkpointPath m \<noteq> segmentPath 0" if "num_ok m" for m using path_inj(3) [OF n that] by metis
  then have "set (cps ?fs) = {}" unfolding set_cps [OF wf] by (auto simp: file_names_def)
  then have cp: "cps ?fs = []" by simp
  have "reader_files ?fs = [segmentPath 0]" unfolding reader_files_def seg cp by simp
  then have "files_hold ?fs (reader_files ?fs) [] [] []" by (simp add: files_hold_def)
  moreover have "listing [] segmentExt [] = []" by (simp add: listing_def List.map_filter_simps)
  ultimately show ?thesis
    using openSegment_new_calm [of s 0] assms wf seg
    by (simp add: Open_def seq_def calm_simps newWAL_def at_end_def)
qed

lemma log_check_ok: "list_all rec_ok rs \<Longrightarrow> \<exists>m. log_check rs n = Inr m"
  by (induction rs arbitrary: n) (auto simp: rec_ok_def)

lemma log_write_calm:
  assumes "at_end w s rss r0" "calm s" "list_all rec_ok rs"
  shows "\<exists>w' s'. log_write rs (w, s) = (Inr (), (w', s')) \<and> calm s' \<and> at_end w' s' rss (r0 @ rs) \<and>
    w_closed w' = w_closed w \<and> w_segmentSize w' = w_segmentSize w"
  using assms
proof (induction rs arbitrary: w s r0)
  case (Cons x rs)
  let ?s = "put_file (w_file w) (frames r0 @ frame x) s"
  let ?w = "w\<lparr>w_size := w_size w + (headerSize + length (rec_Data x))\<rparr>"
  have x: "rec_ok x" "list_all rec_ok rs" using Cons.prems(3) by simp_all
  have old: "map_of (os_files s) (w_file w) = Some (frames r0)" using at_end_content [OF Cons.prems(1)] by blast
  have fs: "os_files ?s = AList.update (w_file w) (frames r0 @ frame x) (os_files s)" by (simp add: calm_simps)
  have o: "w_open w" using Cons.prems(1) by (simp add: at_end_def)
  have twice: "put_file n b (put_file n a s) = put_file n b s" for n a b
    by (simp add: put_file_def update_update)
  have "log_write (x # rs) (w, s) = log_write rs (?w, ?s)"
    using old o Cons.prems(2)
    by (simp add: f_Write_def on_file_def lift_os_def calm_simps update_conv' twice frame_def)
  with Cons.IH [OF at_end_append [OF Cons.prems(1) x(1) fs] _ x(2)] Cons.prems(2) show ?case
    by (simp add: calm_simps)
qed simp

lemma roll_calm:
  assumes e: "at_end w s rss r0" and c: "calm s" and num: "num_ok (last (segs (os_files s)) + 1)"
  shows "\<exists>w' s'. roll (w, s) = (Inr (), (w', s')) \<and> calm s' \<and> at_end w' s' (rss @ [r0]) [] \<and> w_closed w' = w_closed w"
proof -
  have e': "w_open w" "w_segment w = last (segs (os_files s))" "wf_files (os_files s)" "segs (os_files s) \<noteq> []"
    using e by (simp_all add: at_end_def)
  have "map_of (os_files s) (segmentPath (last (segs (os_files s)) + 1)) = None"
    using segs_new_last(1) [OF e'(3,4) num] names_map_of by blast
  from openSegment_new_calm [OF c this] e' c obtain w' s' where
    r: "roll (w, s) = (Inr (), (w', s'))" "calm s'"
    by (simp add: roll_def seq_def f_Plain_def f_Close_def on_file_def lift_os_def calm_simps)
  with roll_inv [OF e num r(1)] show ?thesis by auto
qed

lemma Log_calm:
  assumes e: "at_end w s rss r0" and c: "calm s" and num: "num_ok (last (segs (os_files s)) + 1)"
    and ok: "list_all rec_ok batch" and "\<not> w_closed w"
  shows "\<exists>w' s' rss' r0'. Log batch (w, s) = (Inr (), (w', s')) \<and> calm s' \<and> at_end w' s' rss' r0' \<and> \<not> w_closed w' \<and>
    concat rss' @ r0' = concat rss @ r0 @ batch"
proof (cases "batch = []")
  case True
  with e c assms(5) show ?thesis by (auto simp: Log_def)
next
  case False
  have nb: "w_broken w = None" using e by (simp add: at_end_def)
  obtain m where m: "log_check batch 0 = Inr m" using log_check_ok [OF ok] by blast
  show ?thesis
  proof (cases "0 < w_size w \<and> w_segmentSize w < int (w_size w) + int m")
    case True
    obtain w1 s1 where r: "roll (w, s) = (Inr (), (w1, s1))" "calm s1" "at_end w1 s1 (rss @ [r0]) []" "w_closed w1 = w_closed w"
      using roll_calm [OF e c num] by blast
    obtain w2 s2 where "log_write batch (w1, s1) = (Inr (), (w2, s2))" "calm s2" "at_end w2 s2 (rss @ [r0]) ([] @ batch)"
      "w_closed w2 = w_closed w1" using log_write_calm [OF r(3,2) ok] by blast
    with True r m nb False assms(5) show ?thesis
      by (intro exI [of _ w2] exI [of _ s2] exI [of _ "rss @ [r0]"] exI [of _ batch]) (simp add: Log_def seq_def)
  next
    case nofull: False
    obtain w2 s2 where "log_write batch (w, s) = (Inr (), (w2, s2))" "calm s2" "at_end w2 s2 rss (r0 @ batch)"
      "w_closed w2 = w_closed w" using log_write_calm [OF e c ok] by blast
    with nofull m nb False assms(5) show ?thesis
      by (intro exI [of _ w2] exI [of _ s2] exI [of _ rss] exI [of _ "r0 @ batch"]) (auto simp: Log_def)
  qed
qed

section \<open>Runs of a log\<close>

text \<open>Any sequence of calls on an open log, with the batches handed to \<open>Log\<close> and whether each was
  acknowledged. Segment numbers stay representable.\<close>

inductive wal_run :: "WAL \<times> os \<Rightarrow> (Record list \<times> bool) list \<Rightarrow> WAL \<times> os \<Rightarrow> bool" where
  run_done: "wal_run ws [] ws"
| run_log: "num_ok (last (segs (os_files (snd ws))) + 1) \<Longrightarrow> Log b ws = (res, ws1) \<Longrightarrow> wal_run ws1 h ws2 \<Longrightarrow>
    wal_run ws ((b, res = Inr ()) # h) ws2"
| run_sync: "Sync ws = (res, ws1) \<Longrightarrow> wal_run ws1 h ws2 \<Longrightarrow> wal_run ws h ws2"
| run_close: "Close ws = (res, ws1) \<Longrightarrow> wal_run ws1 h ws2 \<Longrightarrow> wal_run ws h ws2"

lemma wal_inv_files: "wal_inv w s rs \<Longrightarrow> os_files s' = os_files s \<Longrightarrow> wal_inv w s' rs"
  by (simp add: wal_inv_def)

lemma Sync_inv:
  assumes "wal_inv w s rs" "Sync (w, s) = (res, (w', s'))"
  shows "wal_inv w' s' rs"
  using assms f_Plain_effect [of w s res w' s'] wal_inv_files
  by (auto simp: Sync_def split: if_splits option.splits)

lemma Close_inv:
  assumes "wal_inv w s rs" "Close (w, s) = (res, (w', s'))"
  shows "wal_inv w' s' rs"
proof (cases "w_closed w")
  case True
  with assms show ?thesis by (simp add: Close_def)
next
  case False
  obtain r1 w1 s1 where p: "f_Plain (w\<lparr>w_closed := True\<rparr>, s) = (r1, (w1, s1))" by (metis surj_pair)
  obtain r2 w2 s2 where c: "f_Close (w1, s1) = (r2, (w2, s2))" by (metis surj_pair)
  have "w' = w2" "s' = s2" using assms(2) False p c by (auto simp: Close_def split: sum.splits)
  with wal_inv_closed_handle [OF assms(1), of s2 w2] f_Plain_effect [OF p] f_Close_effect [OF c] show ?thesis by simp
qed

lemma wal_run_inv:
  "wal_run ws h ws' \<Longrightarrow> wal_inv (fst ws) (snd ws) rs \<Longrightarrow>
   \<exists>new. wal_inv (fst ws') (snd ws') (rs @ new) \<and> subseq (concat (map fst (filter snd h))) new \<and> subseq new (concat (map fst h))"
proof (induction arbitrary: rs rule: wal_run.induct)
  case (run_done ws)
  then show ?case by (intro exI [of _ "[]"]) simp
next
  case (run_log ws b res ws1 h ws2)
  obtain w s w1 s1 where ws: "ws = (w, s)" "ws1 = (w1, s1)" by (metis surj_pair)
  obtain k where k: "k \<le> length b" "wal_inv w1 s1 (rs @ take k b)" "res = Inr () \<longrightarrow> k = length b"
    using Log_inv [of w s rs b res w1 s1] run_log ws by auto
  from run_log.IH [of "rs @ take k b"] k(2) ws obtain new where
    n: "wal_inv (fst ws2) (snd ws2) ((rs @ take k b) @ new)" "subseq (concat (map fst (filter snd h))) new"
      "subseq new (concat (map fst h))" by auto
  have "subseq (take k b @ new) (b @ concat (map fst h))"
    using n(3) by (metis append_take_drop_id list_emb_append_mono prefix_imp_subseq prefixI)
  moreover have "subseq (concat (map fst (filter snd ((b, res = Inr ()) # h)))) (take k b @ new)"
    using n(2) k(3) by (auto intro: list_emb_append_mono subseq_drop_many)
  ultimately show ?case using n(1) by (intro exI [of _ "take k b @ new"]) simp
next
  case (run_sync ws res ws1 h ws2)
  then show ?case using Sync_inv [of "fst ws" "snd ws" rs res "fst ws1" "snd ws1"] by simp
next
  case (run_close ws res ws1 h ws2)
  then show ?case using Close_inv [of "fst ws" "snd ws" rs res "fst ws1" "snd ws1"] by simp
qed

lemma wal_inv_replay:
  "wal_inv w s rs \<Longrightarrow> \<exists>r. replay (os_files s) = (rs, r) \<and> r_err r = None"
  unfolding wal_inv_def using replay_holds by blast

end
