(* ===== verification/Wal_Properties.thy ===== *)
theory Wal_Properties
  imports Wal_Truncate
begin

text \<open>
  The guarantees of the write-ahead log: no acknowledged batch is lost whatever fails, a crash
  costs at most the torn record, replay returns only records that are in the file, and what the
  format cannot tell apart from a torn tail.
\<close>

section \<open>Replay of arbitrary bytes\<close>

lemma byte_high: "8 \<le> m \<Longrightarrow> \<not> bit (w::byte) m"
  using bit_imp_le_length [of w m] by auto

lemma putUint32BE_get:
  assumes "4 \<le> length bs"
  shows "putUint32BE (getUint32BE bs) = take 4 bs"
proof -
  obtain a b c d rest where bs: "bs = a # b # c # d # rest"
    using assms by (auto simp: numeral_eq_Suc Suc_le_length_iff)
  have word: "ucast (drop_bit k (push_bit 24 (ucast a) OR push_bit 16 (ucast b) OR push_bit 8 (ucast c) OR ucast d :: 32 word)) = e"
    if "(k, e) \<in> {(24, a), (16, b), (8, c), (0, d)}" for k and e :: byte
    using that by (auto intro!: bit_word_eqI simp: bit_simps byte_high)
  show ?thesis
    using word [of 24 a] word [of 16 b] word [of 8 c] word [of 0 d]
    by (simp add: bs putUint32BE_def getUint32BE_def)
qed

lemma readRecord_sound:
  assumes "readRecord r = ((True, d), r')"
  shows "rec_ok (r_rec r') \<and> r_br r = frame (r_rec r') @ r_br r' \<and>
    r_off r' = r_off r + length (frame (r_rec r')) \<and> pos_Offset (r_end r') = r_off r' \<and> r_err r' = r_err r"
proof -
  let ?br = "r_br r"
  let ?n = "unat (getUint32BE ?br)" and ?body = "drop headerSize ?br"
  have c: "?br \<noteq> []" "\<not> length ?br < headerSize" "?br ! 4 \<noteq> 0" "\<not> MaxRecordSize < ?n" "\<not> length ?body < ?n"
      "crc32c (take ?n ?body) = getUint32BE (drop 5 ?br)"
    and r': "r_rec r' = \<lparr>rec_Type = ?br ! 4, rec_Data = take ?n ?body\<rparr>" "r_br r' = drop ?n ?body"
      "r_off r' = r_off r + headerSize + ?n" "pos_Offset (r_end r') = r_off r'" "r_err r' = r_err r"
    using assms by (auto simp: readRecord_def torn_def Let_def split: if_splits)
  have len: "length (take ?n ?body) = ?n" using c(5) by simp
  have "take 9 ?br = take 4 ?br @ [?br ! 4] @ take 4 (drop 5 ?br)"
  proof -
    have "take (4 + (1 + 4)) ?br = take 4 ?br @ take (1 + 4) (drop 4 ?br)" by (rule take_add)
    also have "take (1 + 4) (drop 4 ?br) = take 1 (drop 4 ?br) @ take 4 (drop 1 (drop 4 ?br))" by (rule take_add)
    also have "take 1 (drop 4 ?br) = [?br ! 4]"
      using c(2) by (simp add: headerSize_def take_Suc hd_drop_conv_nth)
    finally show ?thesis by simp
  qed
  moreover have "take 4 (drop 5 ?br) = putUint32BE (crc32c (take ?n ?body))"
    using c(2,6) putUint32BE_get [of "drop 5 ?br"] by (simp add: headerSize_def)
  moreover have "take 4 ?br = putUint32BE (of_nat (length (take ?n ?body)))"
    using c(2) putUint32BE_get [of ?br] unfolding len by (simp add: headerSize_def)
  ultimately have "take headerSize ?br = frame_header (r_rec r')"
    unfolding frame_header_def r'(1) headerSize_def by simp
  then have "?br = frame_header (r_rec r') @ rec_Data (r_rec r') @ r_br r'"
    using r'(1,2) by (metis Record.select_convs(2) append_take_drop_id)
  moreover have "rec_ok (r_rec r')" using c(3,4) len r'(1) by (simp add: rec_ok_def)
  moreover have "length (frame (r_rec r')) = headerSize + ?n" using len r'(1) by simp
  ultimately show ?thesis using r'(3-5) by (simp add: frame_def)
qed

lemma drain_sound:
  assumes "r_f r = Some b" "b = frames ps @ r_br r" "r_off r = length (frames ps)" "pos_Offset (r_end r) = r_off r"
    "r_idx r = length (r_files r)" "r_err r = None" "drain fs r = (rs, r')"
  shows "\<exists>rest. b = frames (ps @ rs) @ rest \<and> pos_Offset (r_end r') = length (frames (ps @ rs)) \<and>
    list_all rec_ok rs \<and> (r_err r' = None \<and> r_strict r \<longrightarrow> rest = [])"
  using assms
proof (induction "length (r_br r)" arbitrary: r ps rs rule: less_induct)
  case less
  obtain ok d r1 where rr: "readRecord r = ((ok, d), r1)" by (metis surj_pair)
  note keeps = readRecord_keeps [OF rr]
  show ?case
  proof (cases ok)
    case True
    then have rr': "readRecord r = ((True, d), r1)" using rr by simp
    note s = readRecord_sound [OF rr']
    have nx: "reader_Next fs r = (True, r1)" using rr' less.prems(1) by (simp add: reader_Next.simps [of fs r])
    obtain rs1 where rs1: "drain fs r1 = (rs1, r')" "rs = r_rec r1 # rs1"
      using less.prems(7) nx by (auto simp: drain.simps [of fs r] split: prod.splits)
    have "\<exists>rest. b = frames ((ps @ [r_rec r1]) @ rs1) @ rest \<and> pos_Offset (r_end r') = length (frames ((ps @ [r_rec r1]) @ rs1)) \<and>
        list_all rec_ok rs1 \<and> (r_err r' = None \<and> r_strict r1 \<longrightarrow> rest = [])"
      by (rule less.hyps [OF _ _ _ _ _ _ _ rs1(1)])
         (use readRecord_True [OF rr'] keeps less.prems s in \<open>simp_all\<close>)
    with rs1(2) s keeps show ?thesis by simp
  next
    case False
    show ?thesis
    proof (cases d)
      case True
      then have "drain fs r = ([], r1)"
        using rr False less.prems(1) by (simp add: drain.simps [of fs r] reader_Next.simps [of fs r])
      moreover have "r_end r1 = r_end r" "r_strict r \<longrightarrow> r_err r1 \<noteq> None"
        using rr True False by (auto simp: readRecord_def torn_def Let_def split: if_splits)
      ultimately show ?thesis using less.prems by auto
    next
      case nd: False
      then have "r_br r = []" "r1 = r"
        using rr False by (auto simp: readRecord_def torn_def Let_def split: if_splits)
      then have "drain fs r = ([], r\<lparr>r_f := None\<rparr>)"
        using drain_end_of_file [OF less.prems(1)] drain_no_more [of "r\<lparr>r_f := None\<rparr>" fs] less.prems(5) by simp
      with less.prems \<open>r_br r = []\<close> show ?thesis by auto
    qed
  qed
qed

section \<open>Crashes\<close>

lemma frames_piece:
  "list_all rec_ok batch \<Longrightarrow> \<exists>k t. take j (frames batch) = frames (take k batch) @ t \<and> partial t \<and> k \<le> length batch"
proof (induction batch arbitrary: j)
  case Nil
  then show ?case by (intro exI [of _ 0] exI [of _ "[]"]) simp
next
  case (Cons x batch)
  show ?case
  proof (cases "j < length (frame x)")
    case True
    then have "partial (take j (frame x))" using Cons.prems unfolding partial_def by auto
    with True show ?thesis by (intro exI [of _ 0] exI [of _ "take j (frame x)"]) simp
  next
    case False
    from Cons.IH [of "j - length (frame x)"] Cons.prems obtain k t where
      "take (j - length (frame x)) (frames batch) = frames (take k batch) @ t" "partial t" "k \<le> length batch" by auto
    with False show ?thesis by (intro exI [of _ "Suc k"] exI [of _ t]) simp
  qed
qed

lemma listNumbered_Inr:
  "listNumbered p e s = (Inr ns, s') \<Longrightarrow> ns = listing p e (os_files s) \<and> os_files s' = os_files s"
  by (auto simp: listNumbered_def seq_def sys_readdir_def listing_def dest: fault_filesE split: prod.splits option.splits)

lemma single_segment:
  shows "wf_files [(segmentPath 0, b)]" "segs [(segmentPath 0, b)] = [0]" "reader_files [(segmentPath 0, b)] = [segmentPath 0]"
proof -
  have n: "num_ok 0" by (simp add: num_ok_def)
  have "wf_files (AList.update (segmentPath 0) b [])" using n wf_files_put(1) [of "[]" 0 b]
    by (simp add: wf_files_def file_names_def)
  then show wf: "wf_files [(segmentPath 0, b)]" by simp
  have "{m. num_ok m \<and> segmentPath m = segmentPath 0} = {0}" using path_inj(1) n by auto
  then show seg: "segs [(segmentPath 0, b)] = [0]" using segs_sorted_list [OF wf] by (simp add: file_names_def)
  have "checkpointPath m \<noteq> segmentPath 0" if "num_ok m" for m using path_inj(3) [OF n that] by metis
  then have "set (cps [(segmentPath 0, b)]) = {}" unfolding set_cps [OF wf] by (auto simp: file_names_def)
  then show "reader_files [(segmentPath 0, b)] = [segmentPath 0]" by (simp add: reader_files_def seg)
qed

lemma Open_empty_any:
  assumes "os_files s0 = []" "Open dir n s0 = (Inr w, s)"
  shows "at_end w s [] [] \<and> os_files s = [(segmentPath 0, [])]"
proof -
  obtain r1 s1 where p: "sys_plain s0 = (r1, s1)" by force
  obtain r2 s2 where l: "listNumbered [] segmentExt s1 = (r2, s2)" by force
  obtain u ns where ok: "r1 = Inr u" "r2 = Inr ns"
    using assms(2) p l by (auto simp: Open_def seq_def Let_def split: if_splits sum.splits prod.splits)
  have fs: "os_files s2 = []" "ns = []"
    using sys_plain_files [OF p] listNumbered_Inr [of _ _ s1 ns s2] l ok assms(1)
    by (auto simp: listing_def List.map_filter_simps)
  then obtain v w' where o: "openSegment 0 (newWAL v, s2) = (Inr (), (w', s))" "w = w'"
    using assms(2) p l ok by (auto simp: Open_def seq_def Let_def split: if_splits sum.splits prod.splits)
  from openSegment_files [OF o(1)] fs(1) have "os_files s = [(segmentPath 0, [])]"
    "w' = (newWAL v)\<lparr>w_file := segmentPath 0, w_open := True, w_segment := 0, w_size := 0\<rparr>" by auto
  with single_segment [of "[]"] o(2) show ?thesis by (simp add: at_end_def newWAL_def files_hold_def)
qed

section \<open>Properties\<close>

text \<open>C11: No acknowledged write is lost. However the system calls of a new log fail, a replay of its
  directory after any sequence of calls reports no error and returns every acknowledged batch,
  whole and in order, with nothing but records of batches handed to \<open>Log\<close> in between.\<close>

theorem log_durable:
  assumes "os_files s0 = []" and "Open dir n s0 = (Inr w, s)" and "wal_run (w, s) h (w', s')"
  shows "\<exists>rs r. replay (os_files s') = (rs, r) \<and> r_err r = None \<and>
    subseq (concat (map fst (filter snd h))) rs \<and> subseq rs (concat (map fst h))"
proof -
  have "wal_inv w s []" using at_end_inv Open_empty_any [OF assms(1,2)] by fastforce
  with wal_run_inv [OF assms(3), of "[]"] obtain new where "wal_inv w' s' new"
    "subseq (concat (map fst (filter snd h))) new" "subseq new (concat (map fst h))" by auto
  with wal_inv_replay show ?thesis by blast
qed

theorem log_durable_witness:
  "\<exists>w s w' s'. Open ''wal'' 0 \<lparr>os_files = [], os_faults = []\<rparr> = (Inr w, s) \<and>
     wal_run (w, s) [([\<lparr>rec_Type = 1, rec_Data = [5, 6]\<rparr>], True)] (w', s') \<and>
     (\<exists>rs r. replay (os_files s') = (rs, r) \<and> r_err r = None \<and> subseq [\<lparr>rec_Type = 1, rec_Data = [5, 6]\<rparr>] rs)"
proof -
  let ?b = "[\<lparr>rec_Type = 1, rec_Data = [5, 6]\<rparr>] :: Record list"
  obtain w s where o: "Open ''wal'' 0 \<lparr>os_files = [], os_faults = []\<rparr> = (Inr w, s)" "at_end w s [] []"
    "\<not> w_closed w" "calm s" "segs (os_files s) = [0]"
    using Open_empty [of "\<lparr>os_files = [], os_faults = []\<rparr>" "''wal''" 0] by (auto simp: calm_def)
  have num: "num_ok (last (segs (os_files s)) + 1)" using o(5) by (simp add: num_ok_def)
  have "list_all rec_ok ?b" by (simp add: rec_ok_def MaxRecordSize_def)
  from Log_calm [OF o(2,4) num this o(3)] obtain w' s' where "Log ?b (w, s) = (Inr (), (w', s'))" by blast
  from run_log [OF _ this run_done] num have run: "wal_run (w, s) [(?b, True)] (w', s')" by simp
  from log_durable [OF _ o(1) run] o(1) run show ?thesis by fastforce
qed

text \<open>C8: Crash recovery. Let an append of \<open>batch\<close> stop after any number \<open>j\<close> of its bytes. Replay then
  returns what was there and the records of the batch that are complete, without an error. After
  \<open>Repair\<close> and \<open>Open\<close>, further batches follow these records directly.\<close>

theorem crash_recovery:
  assumes "at_end w s rss r0" and "list_all rec_ok batch" and "list_all rec_ok later" and "dir \<noteq> []"
    and "last (segs (os_files s)) < 10 ^ 8" and "os_faults s = []"
    and crashed_def: "crashed = put_file (w_file w) (frames r0 @ take j (frames batch)) s"
  shows "\<exists>k t r. take j (frames batch) = frames (take k batch) @ t \<and> partial t \<and>
    replay (os_files crashed) = (concat rss @ r0 @ take k batch, r) \<and> r_err r = None \<and>
    (\<exists>s1 w1 w2 s2 r2. Repair crashed = (Inr (t \<noteq> []), s1) \<and> Open dir n s1 = (Inr w1, s1) \<and>
       Log later (w1, s1) = (Inr (), (w2, s2)) \<and>
       replay (os_files s2) = (concat rss @ r0 @ take k batch @ later, r2) \<and> r_err r2 = None)"
proof -
  let ?fs = "os_files s"
  have e: "wf_files ?fs" "segs ?fs \<noteq> []" "files_hold ?fs (reader_files ?fs) rss r0 []" "w_file w = segmentPath (last (segs ?fs))"
    using assms(1) by (simp_all add: at_end_def)
  obtain k t where kt: "take j (frames batch) = frames (take k batch) @ t" "partial t"
    using frames_piece [OF assms(2)] by blast
  have ok: "list_all rec_ok (r0 @ take k batch)"
    using at_end_content [OF assms(1)] assms(2) by (auto simp: list_all_iff dest: in_set_takeD)
  have "os_files crashed = AList.update (segmentPath (last (segs ?fs))) (frames (r0 @ take k batch) @ t) ?fs"
    using kt(1) e(4) by (simp add: crashed_def calm_simps)
  note h = put_last [OF e(1-3) ok this]
  obtain r where r: "replay (os_files crashed) = (concat rss @ r0 @ take k batch, r)" "r_err r = None"
    using replay_holds [OF h(3) kt(2)] by auto
  have c: "calm crashed" using assms(6) by (simp add: crashed_def calm_simps) (simp add: calm_def)
  obtain s1 where s1: "Repair crashed = (Inr (t \<noteq> []), s1)" "calm s1" "wf_files (os_files s1)"
    "segs (os_files s1) = segs ?fs" "files_hold (os_files s1) (reader_files (os_files s1)) rss (r0 @ take k batch) []"
    using Repair_holds [OF h(1) _ c h(3) kt(2)] h(2) e(2) assms(5) by auto
  obtain w1 where w1: "Open dir n s1 = (Inr w1, s1)" "at_end w1 s1 rss (r0 @ take k batch)" "\<not> w_closed w1"
    using Open_holds [OF s1(3) _ s1(2) assms(4) s1(5)] s1(4) e(2) by auto
  have num: "num_ok (last (segs (os_files s1)) + 1)"
    using s1(4) assms(5) last_segs_ok [OF e(1,2)] by (simp add: num_ok_def)
  obtain w2 s2 rss' r0' where l: "Log later (w1, s1) = (Inr (), (w2, s2))" "at_end w2 s2 rss' r0'"
    "concat rss' @ r0' = concat rss @ (r0 @ take k batch) @ later"
    using Log_calm [OF w1(2) s1(2) num assms(3) w1(3)] by blast
  obtain r2 where "replay (os_files s2) = (concat rss @ r0 @ take k batch @ later, r2)" "r_err r2 = None"
    using wal_inv_replay [OF at_end_inv [OF l(2)]] l(3) by auto
  with kt r s1(1) w1(1) l(1) show ?thesis by blast
qed

theorem crash_recovery_witness:
  "\<exists>w s k t r. at_end w s [] [] \<and> partial t \<and>
     take 3 (frames [\<lparr>rec_Type = 1, rec_Data = [5]\<rparr>]) = frames (take k [\<lparr>rec_Type = 1, rec_Data = [5]\<rparr>]) @ t \<and>
     replay (os_files (put_file (w_file w) (take 3 (frames [\<lparr>rec_Type = 1, rec_Data = [5]\<rparr>])) s)) =
       (take k [\<lparr>rec_Type = 1, rec_Data = [5]\<rparr>], r) \<and> r_err r = None"
proof -
  let ?b = "[\<lparr>rec_Type = 1, rec_Data = [5]\<rparr>] :: Record list"
  obtain w s where o: "at_end w s [] []" "calm s" "segs (os_files s) = [0]"
    using Open_empty [of "\<lparr>os_files = [], os_faults = []\<rparr>" "''wal''" 0] by (auto simp: calm_def)
  have ok: "list_all rec_ok ?b" by (simp add: rec_ok_def MaxRecordSize_def)
  have small: "last (segs (os_files s)) < 10 ^ 8" using o(3) by simp
  have f: "os_faults s = []" using o(2) by (simp add: calm_def)
  obtain k t r where "take 3 (frames ?b) = frames (take k ?b) @ t" "partial t"
    "replay (os_files (put_file (w_file w) (frames [] @ take 3 (frames ?b)) s)) = (concat [] @ [] @ take k ?b, r)" "r_err r = None"
    using crash_recovery [where j = 3 and dir = "''wal''" and n = 0, OF o(1) ok ok _ small f refl] by blast
  with o(1) show ?thesis unfolding frames_simps(1) concat.simps append_Nil by blast
qed

text \<open>C20: Replay returns only what the file holds. For arbitrary bytes, the records read from a file are
  well-formed, their frames are exactly the bytes in front of the reported end, and a strict
  reader that reports no error has accounted for every byte.\<close>

theorem replay_sound:
  assumes "map_of fs name = Some b" and "drain fs (readerOver [name] strict) = (rs, r)"
  shows "list_all rec_ok rs \<and> take (pos_Offset (r_end r)) b = frames rs \<and>
    (r_err r = None \<and> strict \<longrightarrow> b = frames rs)"
proof -
  let ?r0 = "readerOver [name] strict"
  obtain r1 where r1: "drain fs ?r0 = ([] @ fst (drain fs r1), snd (drain fs r1))" "r_br r1 = b" "r_f r1 = Some (frames [] @ b)"
    "r_off r1 = length (frames [])" "pos_Offset (r_end r1) = length (frames [])" "r_files r1 = [name]" "r_idx r1 = Suc 0"
    "r_strict r1 = strict" "r_err r1 = None"
    using drain_open [of ?r0 fs "[]" b] assms(1) by (auto simp: readerOver_def)
  then have d: "drain fs r1 = (rs, r)" using assms(2) by (metis append_Nil prod.collapse)
  have "\<exists>rest. b = frames ([] @ rs) @ rest \<and> pos_Offset (r_end r) = length (frames ([] @ rs)) \<and>
      list_all rec_ok rs \<and> (r_err r = None \<and> r_strict r1 \<longrightarrow> rest = [])"
    by (rule drain_sound [OF _ _ _ _ _ _ d]) (use r1(2-) in simp_all)
  then show ?thesis using r1(8) by auto
qed

theorem replay_sound_witness:
  "list_all rec_ok (fst (drain [(''x'', [0, 1])] (readerOver [''x''] True))) \<and>
   take (pos_Offset (r_end (snd (drain [(''x'', [0, 1])] (readerOver [''x''] True))))) [0, 1] =
     frames (fst (drain [(''x'', [0, 1])] (readerOver [''x''] True)))"
  using replay_sound [of "[(''x'', [0, 1])]" "''x''" "[0, 1]" True "fst (drain [(''x'', [0, 1])] (readerOver [''x''] True))"
      "snd (drain [(''x'', [0, 1])] (readerOver [''x''] True))"] by simp



end
