(* ===== verification/Wal_Checkpoint.thy ===== *)
theory Wal_Checkpoint
  imports Wal_Properties
begin

text \<open>
  Checkpointing is safe at every point: whichever system call of \<open>Truncate\<close> fails, and so wherever
  a crash interrupts it, replay still finds every record the policy keeps.
\<close>

section \<open>Directories by file\<close>

text \<open>\<open>R\<close> gives the records of every file replay reads; the last one may have a torn tail \<open>t\<close>.\<close>

definition dir_of :: "files \<Rightarrow> (string \<Rightarrow> Record list) \<Rightarrow> byte list \<Rightarrow> bool" where
  "dir_of fs R t \<longleftrightarrow> wf_files fs \<and> reader_files fs \<noteq> [] \<and> partial t \<and>
     (\<forall>name \<in> set (reader_files fs). list_all rec_ok (R name) \<and>
        map_of fs name = Some (frames (R name) @ (if name = last (reader_files fs) then t else [])))"

lemma files_hold_butlast:
  assumes "names \<noteq> []" and "distinct names"
    and "\<And>n. n \<in> set names \<Longrightarrow> list_all rec_ok (R n) \<and> map_of fs n = Some (frames (R n) @ (if n = last names then t else []))"
  shows "files_hold fs names (map R (butlast names)) (R (last names)) t"
  using assms
proof (induction names)
  case (Cons n ns)
  show ?case
  proof (cases "ns = []")
    case True
    with Cons.prems show ?thesis by (simp add: files_hold_Nil)
  next
    case False
    then have last: "last (n # ns) = last ns" "last ns \<in> set ns" by simp_all
    then have "n \<noteq> last ns" using Cons.prems(2) by auto
    moreover have "files_hold fs ns (map R (butlast ns)) (R (last ns)) t"
      by (rule Cons.IH) (use False Cons.prems last in auto)
    moreover have "list_all rec_ok (R n) \<and> map_of fs n = Some (frames (R n) @ (if n = last (n # ns) then t else []))"
      by (rule Cons.prems(3)) simp
    ultimately show ?thesis using False last(1) by (auto simp: files_hold_Cons)
  qed
qed simp

lemma concat_butlast: "xs \<noteq> [] \<Longrightarrow> concat (map f (butlast xs)) @ f (last xs) = concat (map f xs)"
  by (induction xs) auto

lemma replay_dir_of:
  assumes "dir_of fs R t"
  shows "\<exists>r. replay fs = (concat (map R (reader_files fs)), r) \<and> r_err r = None"
proof -
  let ?n = "reader_files fs"
  have "files_hold fs ?n (map R (butlast ?n)) (R (last ?n)) t"
    by (rule files_hold_butlast) (use assms reader_files_distinct in \<open>auto simp: dir_of_def\<close>)
  moreover have "concat (map R (butlast ?n)) @ R (last ?n) = concat (map R ?n)"
    by (rule concat_butlast) (use assms in \<open>simp add: dir_of_def\<close>)
  ultimately show ?thesis using replay_holds [of fs "map R (butlast ?n)" "R (last ?n)" t] assms
    by (auto simp: dir_of_def)
qed

section \<open>Calls that touch one file\<close>

text \<open>The same files, but for \<open>x\<close>.\<close>

definition agree :: "string \<Rightarrow> files \<Rightarrow> files \<Rightarrow> bool" where
  "agree x fs fs' \<longleftrightarrow> wf_files fs' \<and> (\<forall>n. n \<noteq> x \<longrightarrow> map_of fs' n = map_of fs n)"

definition plain_name :: "string \<Rightarrow> bool" where
  "plain_name x \<longleftrightarrow> seg_number x = None \<and> cp_number x = None"

lemma plain_tmp: "num_ok n \<Longrightarrow> plain_name (checkpointTmp n)"
  by (simp add: plain_name_def)

lemma agree_refl: "wf_files fs \<Longrightarrow> agree x fs fs"
  by (simp add: agree_def)

lemma agree_trans: "agree x a b \<Longrightarrow> agree x b c \<Longrightarrow> agree x a c"
  by (simp add: agree_def)

lemma agree_update: "agree x fs fs' \<Longrightarrow> plain_name x \<Longrightarrow> agree x fs (AList.update x b fs')"
  by (auto simp: agree_def plain_name_def update_conv' intro!: wf_files_update)

lemma agree_delete: "agree x fs fs' \<Longrightarrow> agree x fs (AList.delete x fs')"
  by (auto simp: agree_def delete_conv')

lemma agree_names:
  assumes "agree x fs fs'" "plain_name x" "wf_files fs"
  shows "segs fs' = segs fs" "cps fs' = cps fs" "reader_files fs' = reader_files fs"
proof -
  have n: "num_ok n \<Longrightarrow> segmentPath n \<noteq> x \<and> checkpointPath n \<noteq> x" for n
    using assms(2) num_ok_numbers(1,2) by (force simp: plain_name_def)
  then have "num_ok n \<Longrightarrow> (segmentPath n \<in> file_names fs' \<longleftrightarrow> segmentPath n \<in> file_names fs) \<and>
      (checkpointPath n \<in> file_names fs' \<longleftrightarrow> checkpointPath n \<in> file_names fs)" for n
    using assms(1) by (simp add: names_map_of agree_def)
  then show "segs fs' = segs fs" "cps fs' = cps fs"
    using assms by (auto simp: segs_sorted_list cps_sorted_list agree_def intro!: arg_cong [of _ _ sorted_list_of_set])
  then show "reader_files fs' = reader_files fs" by (simp add: reader_files_def)
qed

lemma reader_file_not_plain:
  assumes "wf_files fs" "name \<in> set (reader_files fs)" shows "\<not> plain_name name"
  using assms set_segs [OF assms(1)] set_cps [OF assms(1)] by (auto simp: reader_files_def plain_name_def)

lemma agree_dir_of:
  assumes "agree x fs fs'" "plain_name x" "dir_of fs R t"
  shows "dir_of fs' R t"
proof -
  have wf: "wf_files fs" using assms(3) by (simp add: dir_of_def)
  have "map_of fs' n = map_of fs n" if "n \<in> set (reader_files fs)" for n
    using reader_file_not_plain [OF wf that] assms(1,2) by (auto simp: agree_def)
  then show ?thesis using assms agree_names [OF assms(1,2) wf] by (simp add: dir_of_def agree_def)
qed

section \<open>Writing the temporary file\<close>

lemma f_Write_tmp:
  assumes "f_Write b (w, s) = (r, (w', s'))" "agree (w_file w) fs (os_files s)" "plain_name (w_file w)"
  shows "w' = w \<and> agree (w_file w) fs (os_files s') \<and>
    (r = Inr () \<longrightarrow> (\<exists>old. map_of (os_files s) (w_file w) = Some old \<and> map_of (os_files s') (w_file w) = Some (old @ b)))"
  using assms agree_update [OF assms(2,3)]
  by (auto simp: f_Write_def on_file_def lift_os_def sys_write_def file_content_def put_file_def update_conv'
      dest!: fault_filesE split: if_splits prod.splits option.splits)

lemma f_Truncate_tmp:
  assumes "f_Truncate n (w, s) = (r, (w', s'))" "agree (w_file w) fs (os_files s)" "plain_name (w_file w)"
  shows "w' = w \<and> agree (w_file w) fs (os_files s')"
  using assms agree_update [OF assms(2,3)]
  by (auto simp: f_Truncate_def on_file_def lift_os_def sys_truncate_def file_content_def put_file_def
      dest!: fault_filesE split: if_splits prod.splits option.splits)

lemma f_Plain_files: "f_Plain (w, s) = (r, (w', s')) \<Longrightarrow> w' = w \<and> os_files s' = os_files s"
  by (auto simp: f_Plain_def on_file_def lift_os_def dest!: sys_plain_files split: if_splits prod.splits)

lemma f_Close_files: "f_Close (w, s) = (r, (w', s')) \<Longrightarrow> w' = w\<lparr>w_open := False\<rparr> \<and> os_files s' = os_files s"
  by (auto simp: f_Close_def dest!: f_Plain_files split: prod.splits)

lemma undoPartial_tmp:
  assumes "undoPartial e (w, s) = (r, (w', s'))" "agree (w_file w) fs (os_files s)" "plain_name (w_file w)"
  shows "isl r \<and> w_file w' = w_file w \<and> agree (w_file w) fs (os_files s')"
proof -
  obtain r1 w1 s1 where t: "f_Truncate (w_size w) (w, s) = (r1, (w1, s1))" by (metis surj_pair)
  obtain r2 w2 s2 where q: "f_Plain (w1, s1) = (r2, (w2, s2))" by (metis surj_pair)
  show ?thesis using assms(1) t q f_Truncate_tmp [OF t assms(2,3)] f_Plain_files [OF q]
    by (auto simp: undoPartial_def split: sum.splits)
qed

text \<open>The checkpoint being written holds the records \<open>acc\<close>, and no other file has changed.\<close>

definition writing :: "string \<Rightarrow> files \<Rightarrow> WAL \<Rightarrow> os \<Rightarrow> Record list \<Rightarrow> bool" where
  "writing tmp fs w s acc \<longleftrightarrow> w_file w = tmp \<and> w_segmentSize w = 2 ^ 62 \<and> w_size w = length (frames acc) \<and>
     map_of (os_files s) tmp = Some (frames acc) \<and> agree tmp fs (os_files s)"

lemma log_write_tmp:
  assumes "log_write [r] (w, s) = (res, (w', s'))" "writing tmp fs w s acc" "plain_name tmp"
  shows "w_file w' = tmp \<and> agree tmp fs (os_files s') \<and> (res = Inr () \<longrightarrow> writing tmp fs w' s' (acc @ [r]))"
proof -
  have w: "w_file w = tmp" "agree tmp fs (os_files s)" using assms(2) by (simp_all add: writing_def)
  obtain r1 w1 s1 where a: "f_Write (frame_header r) (w, s) = (r1, (w1, s1))" by (metis surj_pair)
  obtain r2 w2 s2 where b: "f_Write (rec_Data r) (w1, s1) = (r2, (w2, s2))" by (metis surj_pair)
  note a' = f_Write_tmp [OF a, unfolded w(1), OF w(2) assms(3)]
  then have w1: "w_file w1 = tmp" "agree tmp fs (os_files s1)" using w(1) by simp_all
  note b' = f_Write_tmp [OF b, unfolded w1(1), OF w1(2) assms(3)]
  then have w2: "w_file w2 = tmp" "agree tmp fs (os_files s2)" using w1(1) by simp_all
  show ?thesis
  proof (cases "isl r1 \<or> isl r2")
    case True
    then obtain e w0 s0 where "undoPartial e (w0, s0) = (res, (w', s'))" "w_file w0 = tmp" "agree tmp fs (os_files s0)"
      using assms(1) a b w1 w2 by (auto simp: isl_def split: sum.splits)
    with undoPartial_tmp [of e w0 s0 res w' s' fs] assms(3) show ?thesis by auto
  next
    case False
    then show ?thesis using assms(1,2) a b a' b' w w2
      by (auto simp: writing_def isl_def frame_def split: sum.splits)
  qed
qed

lemma Log_one_tmp:
  assumes "Log [r] (w, s) = (res, (w', s'))" "writing tmp fs w s acc" "plain_name tmp"
    and "length (frames (acc @ [r])) \<le> 2 ^ 62"
  shows "w_file w' = tmp \<and> agree tmp fs (os_files s') \<and> (res = Inr () \<longrightarrow> writing tmp fs w' s' (acc @ [r]))"
proof -
  have fits: "\<not> w_segmentSize w < int (w_size w) + int (headerSize + length (rec_Data r))"
    using assms(2,4) by (auto simp: writing_def)
  have "(\<exists>e. res = Inl e \<and> (w', s') = (w, s)) \<or> log_write [r] (w, s) = (res, (w', s'))"
    using assms(1) fits by (auto simp: Log_def split: if_splits option.splits)
  then show ?thesis
  proof
    assume "log_write [r] (w, s) = (res, (w', s'))"
    from log_write_tmp [OF this assms(2,3)] show ?thesis .
  qed (use assms(2) in \<open>auto simp: writing_def\<close>)
qed

lemma log_each_tmp:
  assumes "log_each rs (w, s) = (res, (w', s'))" "writing tmp fs w s acc" "plain_name tmp"
    and "length (frames (acc @ rs)) \<le> 2 ^ 62"
  shows "w_file w' = tmp \<and> agree tmp fs (os_files s') \<and> (res = Inr () \<longrightarrow> writing tmp fs w' s' (acc @ rs))"
  using assms(1,2,4)
proof (induction rs arbitrary: w s acc)
  case Nil
  then show ?case by (auto simp: ret_def writing_def)
next
  case (Cons r rs)
  obtain r1 w1 s1 where a: "Log [r] (w, s) = (r1, (w1, s1))" by (metis surj_pair)
  have "length (frames (acc @ [r])) \<le> 2 ^ 62" using Cons.prems(3) by simp
  note b = Log_one_tmp [OF a Cons.prems(2) assms(3) this]
  show ?case
  proof (cases r1)
    case (Inl e)
    with a b Cons.prems(1) show ?thesis by (auto simp: seq_def)
  next
    case (Inr u)
    then have "log_each rs (w1, s1) = (res, (w', s'))" using a Cons.prems(1) by (simp add: seq_def)
    from Cons.IH [OF this, of "acc @ [r]"] b Inr Cons.prems(3) show ?thesis by simp
  qed
qed

text \<open>A sequence stops at the first error or passes the state on.\<close>

lemma seqE:
  assumes "seq m f s = (r, s')"
  obtains e where "m s = (Inl e, s')" "r = Inl e" | x s1 where "m s = (Inr x, s1)" "f x s1 = (r, s')"
  using assms by (auto simp: seq_def split: prod.splits sum.splits)

lemma copyKept_tmp:
  assumes "copyKept keep name (w, s) = (res, (w', s'))" "writing tmp fs w s acc" "plain_name tmp"
    and "map_of fs name = Some (frames rs)" "list_all rec_ok rs" "name \<noteq> tmp"
    and "length (frames (acc @ filter keep rs)) \<le> 2 ^ 62"
  shows "w_file w' = tmp \<and> agree tmp fs (os_files s') \<and> (res = Inr () \<longrightarrow> writing tmp fs w' s' (acc @ filter keep rs))"
proof -
  have "map_of (os_files s) name = Some (frames rs @ [])"
    using assms(2,4,6) by (simp add: writing_def agree_def)
  then obtain r where d: "drain (os_files s) (readerOver [name] True) = (rs, r)" "r_err r = None"
    using drain_last_file [of "readerOver [name] True" "os_files s" rs "[]"] assms(5) partial_Nil
    by (auto simp: readerOver_def)
  have "log_each (filter keep rs) (w, s) = (res, (w', s'))"
    using assms(1) d by (auto simp: copyKept_def seq_def split: prod.splits sum.splits)
  from log_each_tmp [OF this assms(2,3,7)] show ?thesis .
qed

lemma copy_each_tmp:
  assumes "copy_each keep names (w, s) = (res, (w', s'))" "writing tmp fs w s acc" "plain_name tmp"
    and "\<And>n. n \<in> set names \<Longrightarrow> map_of fs n = Some (frames (R n)) \<and> list_all rec_ok (R n) \<and> n \<noteq> tmp"
    and "length (frames (acc @ filter keep (concat (map R names)))) \<le> 2 ^ 62"
  shows "w_file w' = tmp \<and> agree tmp fs (os_files s') \<and>
    (res = Inr () \<longrightarrow> writing tmp fs w' s' (acc @ filter keep (concat (map R names))))"
  using assms(1,2,4,5)
proof (induction names arbitrary: w s acc)
  case Nil
  then show ?case by (auto simp: writing_def)
next
  case (Cons n ns)
  have n: "map_of fs n = Some (frames (R n))" "list_all rec_ok (R n)" "n \<noteq> tmp"
    using Cons.prems(3) [of n] by simp_all
  have small: "length (frames (acc @ filter keep (R n))) \<le> 2 ^ 62" using Cons.prems(4) by simp
  have "seq (copyKept keep n) (\<lambda>_. copy_each keep ns) (w, s) = (res, (w', s'))" using Cons.prems(1) by simp
  then show ?case
  proof (cases rule: seqE)
    case (1 e)
    with copyKept_tmp [OF 1(1) Cons.prems(2) assms(3) n small] show ?thesis by simp
  next
    case (2 x ws1)
    obtain w1 s1 where ws1: "ws1 = (w1, s1)" by force
    with copyKept_tmp [OF 2(1) [unfolded ws1] Cons.prems(2) assms(3) n small]
    have w1: "writing tmp fs w1 s1 (acc @ filter keep (R n))" by simp
    have "length (frames ((acc @ filter keep (R n)) @ filter keep (concat (map R ns)))) \<le> 2 ^ 62"
      using Cons.prems(4) by simp
    from Cons.IH [OF 2(2) [unfolded ws1] w1 Cons.prems(3) this] show ?thesis by simp
  qed
qed

section \<open>Publishing\<close>

definition published :: "int \<Rightarrow> Record list \<Rightarrow> files \<Rightarrow> files \<Rightarrow> bool" where
  "published before kept fs fs' \<longleftrightarrow> wf_files fs' \<and> map_of fs' (checkpointPath before) = Some (frames kept) \<and>
     (\<forall>n. n \<noteq> checkpointTmp before \<and> n \<noteq> checkpointPath before \<longrightarrow> map_of fs' n = map_of fs n)"

lemma sys_rename_publishes:
  assumes "sys_rename (checkpointTmp before) (checkpointPath before) s = (res, s')" "num_ok before"
    and "agree (checkpointTmp before) fs (os_files s)" "map_of (os_files s) (checkpointTmp before) = Some (frames kept)"
  shows "(isl res \<and> agree (checkpointTmp before) fs (os_files s')) \<or> published before kept fs (os_files s')"
proof -
  obtain f s1 where "fault s = (f, s1)" by force
  note f = this fault_filesE [OF this]
  show ?thesis
  proof (cases f)
    case None
    then have s': "os_files s' = AList.update (checkpointPath before) (frames kept)
        (AList.delete (checkpointTmp before) (os_files s))"
      using assms(1,4) f by (auto simp: sys_rename_def file_content_def put_file_def)
    have "wf_files (os_files s')" unfolding s'
      by (intro wf_files_put(2) wf_files_delete) (use assms(2,3) in \<open>auto simp: agree_def\<close>)
    then show ?thesis using assms(3) s' by (auto simp: published_def agree_def update_conv' delete_conv')
  qed (use assms(1,3) f in \<open>auto simp: sys_rename_def\<close>)
qed

lemma lift_osE: "lift_os m (w, s) = (r, (w', s')) \<Longrightarrow> w' = w \<and> m s = (r, s')"
  by (auto simp: lift_os_def split: prod.splits)

lemma listNumbered_files:
  "listNumbered p e s = (r, s') \<Longrightarrow> os_files s' = os_files s \<and> (\<forall>ns. r = Inr ns \<longrightarrow> ns = listing p e (os_files s))"
  by (auto simp: listNumbered_def seq_def sys_readdir_def listing_def dest: fault_filesE split: prod.splits sum.splits option.splits)

lemma sys_remove_files: "sys_remove n s = (r, s') \<Longrightarrow>
    (isl r \<and> os_files s' = os_files s) \<or> (r = Inr () \<and> os_files s' = AList.delete n (os_files s))"
  by (auto simp: sys_remove_def dest: fault_filesE split: prod.splits option.splits)

text \<open>The files a checkpoint is made of.\<close>

abbreviation sources :: "files \<Rightarrow> int \<Rightarrow> int list \<Rightarrow> string list" where
  "sources fs before doomed \<equiv> map checkpointPath (filter (\<lambda>n. n \<le> before) (cps fs)) @ map segmentPath doomed"

lemma checkpoint_body_effect:
  assumes "checkpoint_body doomed before keep (w, s) = (res, (w', s'))" "writing (checkpointTmp before) fs w s []"
    and num: "num_ok before" and wf: "wf_files fs"
    and src: "\<And>n. n \<in> set (sources fs before doomed) \<Longrightarrow> map_of fs n = Some (frames (R n)) \<and> list_all rec_ok (R n) \<and> n \<noteq> checkpointTmp before"
    and kept: "kept = filter keep (concat (map R (sources fs before doomed)))" "length (frames kept) \<le> 2 ^ 62"
  shows "(isl res \<and> agree (checkpointTmp before) fs (os_files s')) \<or> published before kept fs (os_files s')"
proof -
  let ?tmp = "checkpointTmp before"
  have ag: "agree ?tmp fs (os_files s)" using assms(2) by (simp add: writing_def)
  note cps = agree_names(2) [OF ag plain_tmp [OF num] wf]
  obtain r1 w1 s1 where a: "lift_os (listNumbered checkpointPre []) (w, s) = (r1, (w1, s1))" by (metis surj_pair)
  note a' = lift_osE [OF a]
  then have s1: "os_files s1 = os_files s" "w1 = w" "\<And>ns. r1 = Inr ns \<Longrightarrow> ns = cps fs"
    using listNumbered_files [of checkpointPre "[]" s r1 s1] cps by auto
  have writing1: "writing ?tmp fs w1 s1 []" using assms(2) s1 by (simp add: writing_def)
  from assms(1) show ?thesis unfolding checkpoint_body_def
  proof (cases rule: seqE)
    case (1 e)
    then show ?thesis using a ag s1 by simp
  next
    case (2 ns ws1)
    then have ns: "ns = cps fs" "ws1 = (w1, s1)" using a s1(3) by simp_all
    have small: "length (frames ([] @ filter keep (concat (map R (sources fs before doomed))))) \<le> 2 ^ 62"
      using kept by simp
    note copied = copy_each_tmp [OF _ writing1 plain_tmp [OF num] src small]
    from 2(2) show ?thesis unfolding ns
    proof (cases rule: seqE)
      case (1 e)
      with copied [OF 1(1)] show ?thesis by simp
    next
      case (2 x ws2)
      obtain w2 s2 where ws2: "ws2 = (w2, s2)" by force
      have w2: "writing ?tmp fs w2 s2 kept" using copied [OF 2(1) [unfolded ws2]] kept(1) by simp
      obtain r3 w3 s3 where c: "f_Plain (w2, s2) = (r3, (w3, s3))" by (metis surj_pair)
      obtain r4 w4 s4 where d: "f_Close (w3, s3) = (r4, (w4, s4))" by (metis surj_pair)
      obtain r5 s5 where e: "sys_rename ?tmp (checkpointPath before) s4 = (r5, s5)" by force
      obtain r6 s6 where g: "syncDir s5 = (r6, s6)" by force
      have s4: "os_files s3 = os_files s2" "os_files s4 = os_files s2" using f_Plain_files [OF c] f_Close_files [OF d] by simp_all
      have ag4: "agree ?tmp fs (os_files s2)" using w2 by (simp add: writing_def)
      have "(isl r5 \<and> agree ?tmp fs (os_files s5)) \<or> published before kept fs (os_files s5)"
        by (rule sys_rename_publishes [OF e num]) (use w2 s4 in \<open>simp_all add: writing_def\<close>)
      with 2(2) c d e g ag4 s4 syncDir_files [OF g] ws2 show ?thesis
        by (cases r3; cases r4; cases r5) (auto simp: seq_def lift_os_def)
    qed
  qed
qed

lemma writeCheckpoint_effect:
  assumes "writeCheckpoint doomed before keep s = (res, s')"
    and num: "num_ok before" and wf: "wf_files (os_files s)"
    and src: "\<And>n. n \<in> set (sources (os_files s) before doomed) \<Longrightarrow>
      map_of (os_files s) n = Some (frames (R n)) \<and> list_all rec_ok (R n) \<and> n \<noteq> checkpointTmp before"
    and kept: "kept = filter keep (concat (map R (sources (os_files s) before doomed)))" "length (frames kept) \<le> 2 ^ 62"
  shows "(isl res \<and> agree (checkpointTmp before) (os_files s) (os_files s')) \<or> published before kept (os_files s) (os_files s')"
proof -
  let ?tmp = "checkpointTmp before" and ?fs = "os_files s"
  from assms(1) show ?thesis unfolding writeCheckpoint_def
  proof (cases rule: seqE)
    case (1 e)
    then show ?thesis using wf
      by (auto simp: sys_create_trunc_def agree_refl dest: fault_filesE split: prod.splits option.splits)
  next
    case (2 x s1)
    have s1: "os_files s1 = AList.update ?tmp [] ?fs"
      using 2(1) by (auto simp: sys_create_trunc_def put_file_def dest: fault_filesE split: prod.splits option.splits)
    have w1: "writing ?tmp ?fs (checkpointWAL ?tmp) s1 []"
      using s1 agree_update [OF agree_refl [OF wf] plain_tmp [OF num]]
      by (simp add: writing_def checkpointWAL_def update_conv')
    obtain r2 w2 s2 where b: "checkpoint_body doomed before keep (checkpointWAL ?tmp, s1) = (r2, (w2, s2))" by (metis surj_pair)
    note b' = checkpoint_body_effect [OF b w1 num wf src kept]
    obtain r3 w3 s3 where c: "f_Close (w2, s2) = (r3, (w3, s3))" by (metis surj_pair)
    obtain r4 s4 where d: "sys_remove ?tmp s3 = (r4, s4)" by force
    have eq: "res = r2" "s' = s4" using 2(2) b c d by simp_all
    have s4: "os_files s4 = os_files s2 \<or> os_files s4 = AList.delete ?tmp (os_files s2)"
      using sys_remove_files [OF d] f_Close_files [OF c] by auto
    have ne: "checkpointPath before \<noteq> ?tmp" using path_inj num num_ok_numbers(2,6) by (metis option.distinct(1))
    show ?thesis using b' s4 ne unfolding eq
      by (auto simp: published_def delete_conv' intro: agree_delete)
  qed
qed

section \<open>Removing what the checkpoint replaces\<close>

definition removed :: "string set \<Rightarrow> files \<Rightarrow> files \<Rightarrow> bool" where
  "removed D fs fs' \<longleftrightarrow> wf_files fs' \<and> (\<forall>n. map_of fs' n = (if n \<in> D then None else map_of fs n))"

lemma remove_each_effect:
  assumes "remove_each names s = (res, s')" "wf_files (os_files s)"
  shows "\<exists>D. D \<subseteq> set names \<and> removed D (os_files s) (os_files s') \<and> (res = Inr () \<longrightarrow> D = set names)"
  using assms
proof (induction names arbitrary: s)
  case Nil
  then show ?case by (simp add: removed_def)
next
  case (Cons n ns)
  from Cons.prems(1) have "seq (sys_remove n) (\<lambda>_. remove_each ns) s = (res, s')" by simp
  then show ?case
  proof (cases rule: seqE)
    case (1 e)
    with sys_remove_files [OF 1(1)] Cons.prems(2) show ?thesis
      by (intro exI [of _ "{}"]) (simp add: removed_def)
  next
    case (2 x s1)
    with sys_remove_files [OF 2(1)] have s1: "os_files s1 = AList.delete n (os_files s)" by auto
    then have "wf_files (os_files s1)" using Cons.prems(2) by auto
    from Cons.IH [OF 2(2) this] obtain D where "D \<subseteq> set ns" "removed D (os_files s1) (os_files s')"
      "res = Inr () \<longrightarrow> D = set ns" by blast
    then show ?thesis using s1
      by (intro exI [of _ "insert n D"]) (auto simp: removed_def delete_conv')
  qed
qed

lemma removed_trans: "removed D a b \<Longrightarrow> removed E b c \<Longrightarrow> removed (D \<union> E) a c"
  by (auto simp: removed_def)

text \<open>The directory after the checkpoint is in place and the files of \<open>D\<close> are gone.\<close>

lemma sorted_parts: "sorted xs \<Longrightarrow> filter (\<lambda>x. x < b) xs @ filter (\<lambda>x. \<not> x < b) xs = (xs :: int list)"
proof (induction xs)
  case (Cons a xs)
  show ?case
  proof (cases "a < b")
    case False
    with Cons.prems have "\<forall>x \<in> set (a # xs). \<not> x < b" by auto
    then have "filter (\<lambda>x. x < b) (a # xs) = []" "filter (\<lambda>x. \<not> x < b) (a # xs) = a # xs"
      by (simp_all add: filter_empty_conv filter_id_conv)
    then show ?thesis by simp
  qed (use Cons in simp)
qed simp

lemma sorted_listing: "sorted (listing p e fs)"
  by (simp add: listing_def)

lemma published_cps:
  assumes "published before kept fs fs1" "removed D fs1 fs'" "wf_files fs" "num_ok before"
    and "checkpointPath before \<notin> D" "\<forall>c \<in> set (cps fs). c \<le> before"
  shows "cps fs' = filter (\<lambda>c. c < before \<and> checkpointPath c \<notin> D) (cps fs) @ [before]"
proof (rule sorted_distinct_set_unique)
  have wf': "wf_files fs'" using assms(2) by (simp add: removed_def)
  have tmp: "num_ok n \<Longrightarrow> checkpointPath n \<noteq> checkpointTmp before" for n
    using num_ok_numbers(2) [of n] num_ok_numbers(6) [OF assms(4)] by force
  have "checkpointPath n \<in> file_names fs' \<longleftrightarrow> n = before \<or> checkpointPath n \<in> file_names fs \<and> checkpointPath n \<notin> D"
    if "num_ok n" for n
    using assms(1,2,5) tmp [OF that] path_inj(2) [OF that assms(4)]
    by (cases "n = before") (auto simp: names_map_of published_def removed_def)
  then show "set (cps fs') = set (filter (\<lambda>c. c < before \<and> checkpointPath c \<notin> D) (cps fs) @ [before])"
    using assms(4,6) by (auto simp: set_cps [OF wf'] set_cps [OF assms(3)])
  show "sorted (cps fs')" "distinct (cps fs')" using sorted_listing listing_distinct [OF wf'] by simp_all
  show "sorted (filter (\<lambda>c. c < before \<and> checkpointPath c \<notin> D) (cps fs) @ [before])"
    using sorted_listing [of checkpointPre "[]" fs] by (auto simp: sorted_append intro: sorted_wrt_filter)
  show "distinct (filter (\<lambda>c. c < before \<and> checkpointPath c \<notin> D) (cps fs) @ [before])"
    using listing_distinct [OF assms(3)] by simp
qed

lemma published_segs:
  assumes "published before kept fs fs1" "removed D fs1 fs'" "wf_files fs" "num_ok before"
  shows "segs fs' = filter (\<lambda>n. segmentPath n \<notin> D) (segs fs)"
proof (rule sorted_distinct_set_unique)
  have wf': "wf_files fs'" using assms(2) by (simp add: removed_def)
  have "segmentPath n \<noteq> checkpointTmp before \<and> segmentPath n \<noteq> checkpointPath before" if "num_ok n" for n
    using num_ok_numbers(1) [OF that] num_ok_numbers(3,5) [OF assms(4)] by force
  then have "segmentPath n \<in> file_names fs' \<longleftrightarrow> segmentPath n \<in> file_names fs \<and> segmentPath n \<notin> D" if "num_ok n" for n
    using assms(1,2) that by (auto simp: names_map_of published_def removed_def)
  then show "set (segs fs') = set (filter (\<lambda>n. segmentPath n \<notin> D) (segs fs))"
    by (auto simp: set_segs [OF wf'] set_segs [OF assms(3)])
  show "sorted (segs fs')" "distinct (segs fs')" using sorted_listing listing_distinct [OF wf'] by simp_all
  show "sorted (filter (\<lambda>n. segmentPath n \<notin> D) (segs fs))" "distinct (filter (\<lambda>n. segmentPath n \<notin> D) (segs fs))"
    using sorted_listing [of "[]" segmentExt fs] listing_distinct [OF assms(3)] by (simp_all add: sorted_wrt_filter)
qed

text \<open>When a checkpoint below \<open>before\<close> may be taken: a later segment stays, and no checkpoint is
  newer.\<close>

definition cuttable :: "files \<Rightarrow> int \<Rightarrow> bool" where
  "cuttable fs before \<longleftrightarrow> num_ok before \<and> (\<forall>c \<in> set (cps fs). c \<le> before) \<and> segs fs \<noteq> [] \<and> before \<le> last (segs fs)"

abbreviation old_segs :: "files \<Rightarrow> int \<Rightarrow> int list" where
  "old_segs fs before \<equiv> filter (\<lambda>n. n < before) (segs fs)"

abbreviation new_segs :: "files \<Rightarrow> int \<Rightarrow> int list" where
  "new_segs fs before \<equiv> filter (\<lambda>n. \<not> n < before) (segs fs)"

abbreviation superseded :: "files \<Rightarrow> int \<Rightarrow> string set" where
  "superseded fs before \<equiv> segmentPath ` set (old_segs fs before) \<union> checkpointPath ` {c \<in> set (cps fs). c < before}"

lemma superseded_not:
  assumes "wf_files fs" "cuttable fs before"
  shows "checkpointPath before \<notin> superseded fs before" "n \<in> set (new_segs fs before) \<Longrightarrow> segmentPath n \<notin> superseded fs before"
proof -
  have ok: "num_ok before" "n \<in> set (segs fs) \<Longrightarrow> num_ok n" "n \<in> set (cps fs) \<Longrightarrow> num_ok n" for n
    using assms set_segs [OF assms(1)] set_cps [OF assms(1)] by (auto simp: cuttable_def)
  then show "checkpointPath before \<notin> superseded fs before" using path_inj(2,3) by fastforce
  assume "n \<in> set (new_segs fs before)"
  then show "segmentPath n \<notin> superseded fs before" using path_inj(1,3) ok by fastforce
qed

lemma segs_parts: "old_segs fs before @ new_segs fs before = segs fs"
  by (rule sorted_parts) (rule sorted_listing)

lemma published_reader_files:
  assumes "published before kept fs fs1" "removed D fs1 fs'" "wf_files fs" "cuttable fs before" "D \<subseteq> superseded fs before"
  shows "reader_files fs' = map checkpointPath (filter (\<lambda>c. c < before \<and> checkpointPath c \<notin> D) (cps fs)) @ [checkpointPath before] @
    map segmentPath (filter (\<lambda>n. segmentPath n \<notin> D) (old_segs fs before)) @ map segmentPath (new_segs fs before)"
proof -
  have num: "num_ok before" and le: "\<forall>c \<in> set (cps fs). c \<le> before" using assms(4) by (simp_all add: cuttable_def)
  have cp: "checkpointPath before \<notin> D" using superseded_not(1) [OF assms(3,4)] assms(5) by blast
  have "filter (\<lambda>n. segmentPath n \<notin> D) (new_segs fs before) = new_segs fs before"
    using superseded_not(2) [OF assms(3,4)] assms(5) by (intro filter_True) blast
  then have "segs fs' = filter (\<lambda>n. segmentPath n \<notin> D) (old_segs fs before) @ new_segs fs before"
    using published_segs [OF assms(1-3) num] segs_parts [of before fs] by (metis filter_append)
  then show ?thesis
    unfolding reader_files_def published_cps [OF assms(1-3) num cp le] by simp
qed

lemma last_new_segs: "cuttable fs before \<Longrightarrow> new_segs fs before \<noteq> [] \<and> last (new_segs fs before) = last (segs fs)"
proof -
  assume "cuttable fs before"
  then have "last (segs fs) \<in> set (new_segs fs before)" by (simp add: cuttable_def)
  then have "new_segs fs before \<noteq> []" by (metis empty_iff list.set(1))
  then show ?thesis using segs_parts [of before fs] by (metis last_appendR)
qed

lemma published_dir_of:
  assumes "published before kept fs fs1" "removed D fs1 fs'" "dir_of fs R t" "cuttable fs before" "D \<subseteq> superseded fs before"
    and "list_all rec_ok kept"
  shows "dir_of fs' (R(checkpointPath before := kept)) t"
proof -
  let ?cp = "checkpointPath before"
  have wf: "wf_files fs" using assms(3) by (simp add: dir_of_def)
  note names = published_reader_files [OF assms(1,2) wf assms(4,5)]
  have last: "last (reader_files fs') = last (reader_files fs)"
    using last_new_segs [OF assms(4)] last_reader_files assms(4) unfolding names by (simp add: last_map cuttable_def)
  have segs: "segs fs \<noteq> []" using assms(4) by (simp add: cuttable_def)
  have "list_all rec_ok ((R(?cp := kept)) n) \<and>
      map_of fs' n = Some (frames ((R(?cp := kept)) n) @ (if n = last (reader_files fs') then t else []))"
    if n: "n \<in> set (reader_files fs')" for n
  proof (cases "n = ?cp")
    case True
    have "?cp \<noteq> last (reader_files fs)"
      using last_reader_files [OF segs] last_segs_ok [OF wf segs] path_inj(3) assms(4) unfolding cuttable_def by metis
    moreover have "?cp \<notin> D" using superseded_not(1) [OF wf assms(4)] assms(5) by blast
    ultimately show ?thesis using True assms(1,2,6) last by (simp add: published_def removed_def)
  next
    case False
    have new: "segmentPath m \<notin> D" if "m \<in> set (new_segs fs before)" for m
      using superseded_not(2) [OF wf assms(4) that] assms(5) by blast
    have old: "n \<in> set (reader_files fs)" "n \<notin> D"
      using n [unfolded names] False new by (auto simp: reader_files_def)
    then have "n \<noteq> checkpointTmp before"
      using reader_file_not_plain [OF wf old(1)] plain_tmp assms(4) by (auto simp: cuttable_def)
    then have "map_of fs' n = map_of fs n" using assms(1,2) False old by (simp add: published_def removed_def)
    then show ?thesis using assms(3) old False last by (simp add: dir_of_def)
  qed
  moreover have "reader_files fs' \<noteq> []" unfolding names by simp
  ultimately show ?thesis using assms(2,3) by (simp add: dir_of_def removed_def)
qed

text \<open>The removals at the end of \<open>Truncate\<close>.\<close>

abbreviation cleanup :: "int list \<Rightarrow> int \<Rightarrow> unit io" where
  "cleanup doomed before \<equiv> seq (remove_each (map segmentPath doomed)) (\<lambda>_.
     seq (listNumbered checkpointPre []) (\<lambda>cs.
     seq (remove_each (map checkpointPath (filter (\<lambda>n. n < before) cs))) (\<lambda>_. syncDir)))"

lemma removed_refl: "wf_files fs \<Longrightarrow> removed {} fs fs"
  by (simp add: removed_def)

lemma cleanup_effect:
  assumes "cleanup (old_segs fs before) before s = (res, s')" "published before kept fs (os_files s)"
    and wf: "wf_files fs" and cut: "cuttable fs before"
  shows "\<exists>D. removed D (os_files s) (os_files s') \<and> D \<subseteq> superseded fs before \<and> (res = Inr () \<longrightarrow> D = superseded fs before)"
proof -
  have wfs: "wf_files (os_files s)" using assms(2) by (simp add: published_def)
  have num: "num_ok before" and le: "\<forall>c \<in> set (cps fs). c \<le> before" using cut by (simp_all add: cuttable_def)
  from assms(1) show ?thesis
  proof (cases rule: seqE)
    case (1 e)
    with remove_each_effect [OF 1(1) wfs] show ?thesis by auto
  next
    case (2 x s1)
    with remove_each_effect [OF 2(1) wfs] have r1: "removed (segmentPath ` set (old_segs fs before)) (os_files s) (os_files s1)" by auto
    have not: "checkpointPath c \<notin> segmentPath ` set (old_segs fs before)" if "num_ok c" for c
      using path_inj(3) that set_segs [OF wf] by fastforce
    have "c \<in> set (cps fs) \<Longrightarrow> checkpointPath c \<notin> segmentPath ` set (old_segs fs before)" for c
      using not set_cps [OF wf] by simp
    then have cps1: "filter (\<lambda>n. n < before) (cps (os_files s1)) = filter (\<lambda>n. n < before) (cps fs)"
      unfolding published_cps [OF assms(2) r1 wf num not [OF num] le] by (auto intro: filter_cong)
    from 2(2) show ?thesis
    proof (cases rule: seqE)
      case (1 e)
      with listNumbered_files [OF 1(1)] r1 show ?thesis
        by (intro exI [of _ "segmentPath ` set (old_segs fs before)"]) auto
    next
      case (2 cs s2)
      have s2: "os_files s2 = os_files s1" "filter (\<lambda>n. n < before) cs = filter (\<lambda>n. n < before) (cps fs)"
        using listNumbered_files [OF 2(1)] cps1 by auto
      obtain r3 s3 where r: "remove_each (map checkpointPath (filter (\<lambda>n. n < before) cs)) s2 = (r3, s3)" by force
      from remove_each_effect [OF r] r1 s2 obtain E where E: "E \<subseteq> checkpointPath ` {c \<in> set (cps fs). c < before}"
        "removed E (os_files s1) (os_files s3)" "r3 = Inr () \<longrightarrow> E = checkpointPath ` {c \<in> set (cps fs). c < before}"
        by (auto simp: removed_def)
      have "os_files s' = os_files s3 \<and> (res = Inr () \<longrightarrow> r3 = Inr ())"
        using 2(2) r by (auto simp: seq_def dest: syncDir_files split: sum.splits)
      with E removed_trans [OF r1 E(2)] show ?thesis
        by (intro exI [of _ "segmentPath ` set (old_segs fs before) \<union> E"]) auto
    qed
  qed
qed

lemma sources_hold:
  assumes "dir_of fs R t" "cuttable fs before" "n \<in> set (sources fs before (old_segs fs before))"
  shows "map_of fs n = Some (frames (R n)) \<and> list_all rec_ok (R n) \<and> n \<noteq> checkpointTmp before"
proof -
  have wf: "wf_files fs" and segs: "segs fs \<noteq> []" and num: "num_ok before"
    using assms(1,2) by (simp_all add: dir_of_def cuttable_def)
  have n: "n \<in> set (reader_files fs)" using assms(3) by (auto simp: reader_files_def)
  note ok = set_segs [OF wf] set_cps [OF wf] last_segs_ok [OF wf segs]
  have "n \<noteq> segmentPath (last (segs fs))"
    using assms(2,3) ok path_inj(1,3) by (fastforce simp: cuttable_def)
  moreover have "n \<noteq> checkpointTmp before" using reader_file_not_plain [OF wf n] plain_tmp [OF num] by auto
  ultimately show ?thesis using assms(1) n last_reader_files [OF segs] by (simp add: dir_of_def)
qed

lemma Truncate_effect:
  assumes "Truncate before (Some keep) s = (res, s')" "dir_of (os_files s) R t" "cuttable (os_files s) before"
    and kept: "kept = filter keep (concat (map R (sources (os_files s) before (old_segs (os_files s) before))))"
      "length (frames kept) \<le> 2 ^ 62"
  shows "(old_segs (os_files s) before = [] \<or> isl res) \<and> agree (checkpointTmp before) (os_files s) (os_files s') \<or>
    (\<exists>fs1 D. published before kept (os_files s) fs1 \<and> removed D fs1 (os_files s') \<and> D \<subseteq> superseded (os_files s) before \<and>
      (res = Inr () \<longrightarrow> D = superseded (os_files s) before))"
proof -
  let ?fs = "os_files s" and ?old = "old_segs (os_files s) before"
  have wf: "wf_files ?fs" and num: "num_ok before" using assms(2,3) by (simp_all add: dir_of_def cuttable_def)
  from assms(1) show ?thesis unfolding Truncate_def
  proof (cases rule: seqE)
    case (1 e)
    with listNumbered_files [OF 1(1)] show ?thesis using agree_refl [OF wf] by simp
  next
    case (2 ns s1)
    have s1: "os_files s1 = ?fs" "filter (\<lambda>n. n < before) ns = ?old" using listNumbered_files [OF 2(1)] by auto
    show ?thesis
    proof (cases "?old = []")
      case True
      with 2(2) s1 show ?thesis using agree_refl [OF wf] by (simp add: Let_def)
    next
      case False
      have "seq (writeCheckpoint ?old before keep) (\<lambda>_. cleanup ?old before) s1 = (res, s')"
        using 2(2) False s1(2) by (simp add: Let_def)
      then show ?thesis
      proof (cases rule: seqE)
        case (1 e)
        have "agree (checkpointTmp before) ?fs (os_files s') \<or> published before kept ?fs (os_files s')"
          using writeCheckpoint_effect [OF 1(1) num, unfolded s1(1), OF wf sources_hold [OF assms(2,3)] kept] by blast
        with 1(2) removed_refl show ?thesis by (auto simp: published_def)
      next
        case (2 x s2)
        have "published before kept ?fs (os_files s2)"
          using writeCheckpoint_effect [OF 2(1) num, unfolded s1(1), OF wf sources_hold [OF assms(2,3)] kept] by simp
        with cleanup_effect [OF 2(2) this wf assms(3)] show ?thesis by blast
      qed
    qed
  qed
qed

section \<open>Properties\<close>

lemma reader_files_parts:
  "cuttable fs before \<Longrightarrow> reader_files fs = sources fs before (old_segs fs before) @ map segmentPath (new_segs fs before)"
  using segs_parts [of before fs] unfolding reader_files_def cuttable_def by (simp flip: map_append)

lemma rec_ok_sources:
  assumes "dir_of fs R t" "cuttable fs before"
  shows "list_all rec_ok (filter keep (concat (map R (sources fs before (old_segs fs before)))))"
proof -
  have "\<forall>n \<in> set (sources fs before (old_segs fs before)). list_all rec_ok (R n)"
    using sources_hold [OF assms] by blast
  then show ?thesis by (simp only: list_all_iff set_filter set_concat set_map) blast
qed

text \<open>C2: Checkpoints lose nothing, wherever they are interrupted. Whichever system call of \<open>Truncate\<close>
  fails, replay of the directory it leaves reports no error and returns, in order, every record of
  the old files the policy keeps and every record of the segments that stay. When it succeeds and
  there was something to cut, replay returns exactly these records.\<close>

theorem checkpoint_safe:
  assumes "dir_of (os_files s) R t" and "cuttable (os_files s) before"
    and "length (frames (filter keep (concat (map R (sources (os_files s) before (old_segs (os_files s) before)))))) \<le> 2 ^ 62"
    and "Truncate before (Some keep) s = (res, s')"
  shows "\<exists>rs r. replay (os_files s') = (rs, r) \<and> r_err r = None \<and>
    subseq (filter keep (concat (map R (sources (os_files s) before (old_segs (os_files s) before)))) @
      concat (map (\<lambda>n. R (segmentPath n)) (new_segs (os_files s) before))) rs \<and>
    (res = Inr () \<and> old_segs (os_files s) before \<noteq> [] \<longrightarrow>
       rs = filter keep (concat (map R (sources (os_files s) before (old_segs (os_files s) before)))) @
         concat (map (\<lambda>n. R (segmentPath n)) (new_segs (os_files s) before)))"
proof -
  let ?fs = "os_files s" and ?old = "old_segs (os_files s) before" and ?new = "new_segs (os_files s) before"
  define kept where "kept = filter keep (concat (map R (sources ?fs before ?old)))"
  have wf: "wf_files ?fs" and num: "num_ok before" using assms(1,2) by (simp_all add: dir_of_def cuttable_def)
  have small: "length (frames kept) \<le> 2 ^ 62" using assms(3) by (simp add: kept_def)
  have ok: "list_all rec_ok kept" using rec_ok_sources [OF assms(1,2)] by (simp add: kept_def)
  from Truncate_effect [OF assms(4,1,2) kept_def small] show ?thesis
  proof
    assume a: "(?old = [] \<or> isl res) \<and> agree (checkpointTmp before) ?fs (os_files s')"
    then obtain r where "replay (os_files s') = (concat (map R (reader_files ?fs)), r)" "r_err r = None"
      using replay_dir_of [OF agree_dir_of [OF _ plain_tmp [OF num] assms(1)]] agree_names(3) [OF _ plain_tmp [OF num] wf] by metis
    moreover have "subseq (kept @ concat (map (\<lambda>n. R (segmentPath n)) ?new)) (concat (map R (reader_files ?fs)))"
      unfolding reader_files_parts [OF assms(2)] kept_def map_append concat_append map_map comp_def
      by (intro list_emb_append_mono) (simp_all add: subseq_filter_left flip: filter_append)
    moreover have "\<not> (res = Inr () \<and> ?old \<noteq> [])" using a by auto
    ultimately show ?thesis unfolding kept_def by blast
  next
    assume "\<exists>fs1 D. published before kept ?fs fs1 \<and> removed D fs1 (os_files s') \<and> D \<subseteq> superseded ?fs before \<and>
      (res = Inr () \<longrightarrow> D = superseded ?fs before)"
    then obtain fs1 D where D: "published before kept ?fs fs1" "removed D fs1 (os_files s')" "D \<subseteq> superseded ?fs before"
      "res = Inr () \<longrightarrow> D = superseded ?fs before" by blast
    let ?R = "R(checkpointPath before := kept)"
    let ?c = "filter (\<lambda>c. c < before \<and> checkpointPath c \<notin> D) (cps ?fs)" and ?o = "filter (\<lambda>n. segmentPath n \<notin> D) ?old"
    obtain r where r: "replay (os_files s') = (concat (map ?R (reader_files (os_files s'))), r)" "r_err r = None"
      using replay_dir_of [OF published_dir_of [OF D(1,2) assms(1,2) D(3) ok]] by blast
    have seg: "map (\<lambda>n. ?R (segmentPath n)) ?new = map (\<lambda>n. R (segmentPath n)) ?new"
      using path_inj(3) [OF _ num] set_segs [OF wf] by (intro map_cong) auto
    have rs: "concat (map ?R (reader_files (os_files s'))) = concat (map (\<lambda>c. ?R (checkpointPath c)) ?c) @ kept @
        concat (map (\<lambda>n. ?R (segmentPath n)) ?o) @ concat (map (\<lambda>n. R (segmentPath n)) ?new)"
      unfolding published_reader_files [OF D(1,2) wf assms(2) D(3)] map_append concat_append map_map comp_def seg by simp
    have "subseq (kept @ concat (map (\<lambda>n. R (segmentPath n)) ?new)) (concat (map ?R (reader_files (os_files s'))))"
      unfolding rs by (intro list_emb_append2 list_emb_append_mono) simp_all
    moreover have "res = Inr () \<Longrightarrow> ?c = [] \<and> ?o = []" using D(4) by (auto simp: filter_empty_conv)
    ultimately show ?thesis using r rs unfolding kept_def by auto
  qed
qed

lemma two_segments:
  assumes fs_def: "fs = [(segmentPath 0, b), (segmentPath 1, c)]"
  shows "wf_files fs" "segs fs = [0, 1]" "cps fs = []"
proof -
  have n: "num_ok 0" "num_ok 1" by (simp_all add: num_ok_def)
  have "segmentPath 1 \<noteq> segmentPath 0" using path_inj(1) [OF n(2,1)] by simp
  then have "fs = AList.update (segmentPath 1) c [(segmentPath 0, b)]" by (simp add: fs_def)
  then show "wf_files fs" using wf_files_put(1) [OF single_segment(1) n(2)] by (simp only:)
  show "segs fs = [0, 1]" "cps fs = []"
    unfolding fs_def listing_def by (simp_all add: n sort_key_def List.map_filter_def)
qed

theorem checkpoint_safe_witness:
  "let a = \<lparr>rec_Type = 1, rec_Data = [5]\<rparr>; b = \<lparr>rec_Type = 2, rec_Data = []\<rparr>; c = \<lparr>rec_Type = 2, rec_Data = [7]\<rparr>;
     s = \<lparr>os_files = [(segmentPath 0, frames [a, b]), (segmentPath 1, frames [c])], os_faults = [None, None, Some 3]\<rparr>
   in \<exists>rs r. replay (os_files (snd (Truncate 1 (Some (\<lambda>r. rec_Type r = 1)) s))) = (rs, r) \<and>
        r_err r = None \<and> subseq [a, c] rs"
proof -
  define a b c :: Record where "a = \<lparr>rec_Type = 1, rec_Data = [5]\<rparr>" and "b = \<lparr>rec_Type = 2, rec_Data = []\<rparr>"
    and "c = \<lparr>rec_Type = 2, rec_Data = [7]\<rparr>"
  let ?s = "\<lparr>os_files = [(segmentPath 0, frames [a, b]), (segmentPath 1, frames [c])], os_faults = [None, None, Some 3]\<rparr>"
  let ?R = "\<lambda>n. if n = segmentPath 0 then [a, b] else [c]" and ?k = "\<lambda>r :: Record. rec_Type r = 1"
  have ne: "segmentPath 1 \<noteq> segmentPath 0" using path_inj(1) [of 1 0] by (simp add: num_ok_def)
  note fs = two_segments [of "os_files ?s" "frames [a, b]" "frames [c]", simplified]
  have rf: "reader_files (os_files ?s) = [segmentPath 0, segmentPath 1]" using fs by (simp add: reader_files_def)
  have ok: "list_all rec_ok [a, b]" "list_all rec_ok [c]" by (simp_all add: rec_ok_def a_def b_def c_def MaxRecordSize_def)
  have "\<forall>n \<in> set [segmentPath 0, segmentPath 1]. list_all rec_ok (?R n) \<and>
      map_of (os_files ?s) n = Some (frames (?R n) @ (if n = last [segmentPath 0, segmentPath 1] then [] else []))"
    using ok ne by simp
  then have dir: "dir_of (os_files ?s) ?R []" unfolding dir_of_def rf using fs(1) by simp
  have cut: "cuttable (os_files ?s) 1" using fs by (simp add: cuttable_def num_ok_def)
  have kept: "filter ?k (concat (map ?R (sources (os_files ?s) 1 (old_segs (os_files ?s) 1)))) = [a]"
    "concat (map (\<lambda>n. ?R (segmentPath n)) (new_segs (os_files ?s) 1)) = [c]"
    using fs ne by (simp_all add: a_def b_def c_def)
  have small: "length (frames [a]) \<le> 2 ^ 62" by (simp add: a_def headerSize_def)
  from checkpoint_safe [OF dir cut _ prod.collapse [symmetric], of ?k, unfolded kept, OF small]
  show ?thesis unfolding Let_def a_def b_def c_def by auto
qed

end
