(* ===== verification/Glob.thy ===== *)
theory Glob
  imports Go_Strings
begin

text \<open>
  Glob matching of tag values: \<open>tsdb.GlobMatch\<close>, which escapes a pattern and hands it to Go's
  \<open>path.Match\<close>. The matcher of the library is modelled as it is written (chunks between stars,
  the first place a chunk fits, no backtracking) for the patterns \<open>GlobMatch\<close> builds, in which
  \<open>?\<close> and \<open>[\<close> are always escaped, and proved equal to the textbook meaning of \<open>*\<close>.
\<close>

section \<open>The matcher of the path package\<close>

datatype path_error = ErrBadPattern

fun scanBody :: "string \<Rightarrow> string \<times> string" where
  "scanBody [] = ([], [])"
| "scanBody (c # p) =
     (if c = CHR ''*'' then ([], c # p)
      else if c = CHR 0x5c
      then case p of
             [] \<Rightarrow> ([c], [])
           | d # q \<Rightarrow> (let (chunk, rest) = scanBody q in (c # d # chunk, rest))
      else let (chunk, rest) = scanBody p in (c # chunk, rest))"

definition scanChunk :: "string \<Rightarrow> bool \<times> string \<times> string" where
  "scanChunk pattern =
     (let body = dropWhile (\<lambda>c. c = CHR ''*'') pattern
      in (pattern \<noteq> body, scanBody body))"

fun matchChunk :: "string \<Rightarrow> string \<Rightarrow> bool \<Rightarrow> path_error + string option" where
  "matchChunk [] s failed = Inr (if failed then None else Some s)"
| "matchChunk (c # cs) s failed =
     (let failed1 = (failed \<or> s = [])
      in if c = CHR 0x5c
         then case cs of
                [] \<Rightarrow> Inl ErrBadPattern
              | d # ds \<Rightarrow> matchChunk ds (if failed1 then s else tl s) (failed1 \<or> d \<noteq> hd s)
         else matchChunk cs (if failed1 then s else tl s) (failed1 \<or> c \<noteq> hd s))"

fun starSearch :: "string \<Rightarrow> string \<Rightarrow> string \<Rightarrow> path_error + string option" where
  "starSearch chunk rest [] = Inr None"
| "starSearch chunk rest (c # name) =
     (if c = CHR ''/'' then Inr None
      else case matchChunk chunk name False of
             Inl e \<Rightarrow> Inl e
           | Inr (Some t) \<Rightarrow> if rest = [] \<and> t \<noteq> [] then starSearch chunk rest name else Inr (Some t)
           | Inr None \<Rightarrow> starSearch chunk rest name)"

declare scanBody.simps(2) [simp del]

lemma scanBody_append: "fst (scanBody p) @ snd (scanBody p) = p"
proof (induction p rule: scanBody.induct)
  case 1
  then show ?case by simp
next
  case (2 c p)
  then show ?case
    by (cases p) (auto simp: scanBody.simps(2) [of c] split: prod.splits)
qed

lemma scanChunk_shorter:
  assumes "scanChunk p = (star, chunk, rest)" and "p \<noteq> []"
  shows "length rest < length p"
proof -
  let ?b = "dropWhile (\<lambda>c. c = CHR ''*'') p"
  have eq: "star = (p \<noteq> ?b)" "chunk = fst (scanBody ?b)" "rest = snd (scanBody ?b)"
    using assms(1) by (auto simp: scanChunk_def Let_def split: prod.splits)
  have len: "length chunk + length rest = length ?b"
    unfolding eq(2,3) by (metis length_append scanBody_append)
  show ?thesis
  proof (cases "hd p = CHR ''*''")
    case True
    then have "length ?b < length p" using assms(2)
      by (cases p) (auto simp: le_imp_less_Suc length_dropWhile_le)
    then show ?thesis using len by simp
  next
    case False
    then have b: "?b = p" using assms(2) by (cases p) auto
    have "fst (scanBody p) \<noteq> []"
      using False assms(2) by (cases p) (auto simp: scanBody.simps(2) split: prod.splits list.splits)
    then have "0 < length chunk" using eq(2) b by simp
    then show ?thesis using len unfolding b by linarith
  qed
qed

lemma scanChunk_shorter':
  "(star, chunk, rest) = scanChunk p \<Longrightarrow> p \<noteq> [] \<Longrightarrow> length rest < length p"
  by (metis scanChunk_shorter)

text \<open>What is left of a pattern that cannot match is still checked for syntax.\<close>

function checkRest :: "string \<Rightarrow> path_error + bool" where
  "checkRest pattern =
     (if pattern = [] then Inr False
      else let (star, chunk, rest) = scanChunk pattern
           in case matchChunk chunk [] False of Inl e \<Rightarrow> Inl e | Inr _ \<Rightarrow> checkRest rest)"
  by pat_completeness auto
termination
  by (relation "measure length") (simp_all add: scanChunk_shorter' split_paired_all)

function path_Match :: "string \<Rightarrow> string \<Rightarrow> path_error + bool" where
  "path_Match pattern name =
     (if pattern = [] then Inr (name = [])
      else let (star, chunk, rest) = scanChunk pattern
           in if star \<and> chunk = [] then Inr (CHR ''/'' \<notin> set name)
              else case matchChunk chunk name False of
                Inl e \<Rightarrow> Inl e
              | Inr r \<Rightarrow>
                  if (case r of Some t \<Rightarrow> t = [] \<or> rest \<noteq> [] | None \<Rightarrow> False)
                  then path_Match rest (the r)
                  else if star
                  then case starSearch chunk rest name of
                         Inl e \<Rightarrow> Inl e
                       | Inr (Some t) \<Rightarrow> path_Match rest t
                       | Inr None \<Rightarrow> checkRest rest
                  else checkRest rest)"
  by pat_completeness auto
termination
  by (relation "measure (\<lambda>(p, n). length p)") (simp_all add: scanChunk_shorter' split_paired_all)

declare checkRest.simps [simp del] path_Match.simps [simp del]

section \<open>GlobMatch\<close>

definition glob_escape :: "char \<Rightarrow> string" where
  "glob_escape c =
     (if c = CHR 0x5c then [CHR 0x5c, CHR 0x5c]
      else if c = CHR ''?'' then [CHR 0x5c, CHR ''?'']
      else if c = CHR ''['' then [CHR 0x5c, CHR ''['']
      else if c = CHR ''/'' then [CHR 0x00]
      else [c])"

definition slash_to_nul :: "char \<Rightarrow> char" where
  "slash_to_nul c = (if c = CHR ''/'' then CHR 0x00 else c)"

definition GlobMatch :: "string \<Rightarrow> string \<Rightarrow> bool" where
  "GlobMatch pattern s =
     (case path_Match (concat (map glob_escape pattern)) (map slash_to_nul s) of
        Inl _ \<Rightarrow> False
      | Inr ok \<Rightarrow> ok)"

section \<open>Reference semantics\<close>

text \<open>\<open>*\<close> matches any run of characters and every other character matches itself.\<close>

fun glob :: "string \<Rightarrow> string \<Rightarrow> bool" where
  "glob [] s = (s = [])"
| "glob (c # p) s =
     (if c = CHR ''*'' then glob p s \<or> (case s of [] \<Rightarrow> False | _ # s' \<Rightarrow> glob (c # p) s')
      else case s of [] \<Rightarrow> False | d # s' \<Rightarrow> d = c \<and> glob p s')"

declare glob.simps(2) [simp del]

section \<open>The greedy matcher is the reference semantics\<close>

lemma glob_star: "glob (CHR ''*'' # p) s \<longleftrightarrow> (\<exists>u v. s = u @ v \<and> glob p v)"
proof (induction s)
  case Nil
  then show ?case by (simp add: glob.simps(2))
next
  case (Cons a s)
  have "glob (CHR ''*'' # p) (a # s) \<longleftrightarrow> glob p (a # s) \<or> (\<exists>u v. s = u @ v \<and> glob p v)"
    by (subst glob.simps(2)) (simp add: Cons.IH)
  also have "\<dots> \<longleftrightarrow> (\<exists>u v. a # s = u @ v \<and> glob p v)"
    by (auto simp: Cons_eq_append_conv)
  finally show ?case .
qed

lemma glob_lit: "c \<noteq> CHR ''*'' \<Longrightarrow> glob (c # p) s \<longleftrightarrow> (\<exists>t. s = c # t \<and> glob p t)"
  by (subst glob.simps(2)) (auto split: list.split)

lemma glob_lits:
  "CHR ''*'' \<notin> set l \<Longrightarrow> glob (l @ p) s \<longleftrightarrow> (\<exists>t. s = l @ t \<and> glob p t)"
  by (induction l arbitrary: s) (auto simp: glob_lit)

text \<open>A pattern that starts with a star also matches every longer text with the same end.\<close>

lemma glob_absorb: "glob (CHR ''*'' # p) v \<Longrightarrow> glob (CHR ''*'' # p) (u @ v)"
  unfolding glob_star by (metis append.assoc)

lemma glob_stars: "glob (CHR ''*'' # CHR ''*'' # p) s \<longleftrightarrow> glob (CHR ''*'' # p) s"
  unfolding glob_star [of "CHR ''*'' # p"] using glob_absorb by (metis append_Nil)

lemma glob_replicate_star:
  "glob (replicate (Suc n) (CHR ''*'') @ p) s \<longleftrightarrow> glob (CHR ''*'' # p) s"
proof (induction n arbitrary: s)
  case (Suc n)
  have "glob (replicate (Suc (Suc n)) (CHR ''*'') @ p) s \<longleftrightarrow> (\<exists>u v. s = u @ v \<and> glob (CHR ''*'' # p) v)"
    using glob_star [of "replicate (Suc n) (CHR ''*'') @ p" s] Suc.IH by simp
  then show ?case using glob_stars [of p s] glob_star [of "CHR ''*'' # p" s] by blast
qed simp

abbreviation escaped :: "string \<Rightarrow> string" where
  "escaped p \<equiv> concat (map glob_escape p)"

lemma escape_star [simp]: "glob_escape (CHR ''*'') = ''*''"
  by (simp add: glob_escape_def)

lemma escape_cases:
  assumes "c \<noteq> CHR ''*''"
  obtains (plain) "glob_escape c = [slash_to_nul c]" "slash_to_nul c \<noteq> CHR 0x5c" "slash_to_nul c \<noteq> CHR ''*''"
    | (quoted) "glob_escape c = [CHR 0x5c, slash_to_nul c]"
proof (cases "glob_escape c = [slash_to_nul c] \<and> slash_to_nul c \<noteq> CHR 0x5c \<and> slash_to_nul c \<noteq> CHR ''*''")
  case True
  then show ?thesis using plain by blast
next
  case False
  then have "c \<in> {CHR 0x5c, CHR ''?'', CHR ''[''}"
    using assms by (auto simp: glob_escape_def slash_to_nul_def split: if_splits)
  then show ?thesis by (intro quoted) (auto simp: glob_escape_def slash_to_nul_def)
qed

lemma escape_not_Nil [simp]: "glob_escape c \<noteq> []"
  by (simp add: glob_escape_def)

lemma escaped_Nil: "escaped p = [] \<longleftrightarrow> p = []"
  by simp

lemma scanBody_escaped:
  assumes "CHR ''*'' \<notin> set l" and "q = [] \<or> hd q = CHR ''*''"
  shows "scanBody (escaped (l @ q)) = (escaped l, escaped q)"
  using assms(1)
proof (induction l)
  case Nil
  then show ?case using assms(2) by (cases q) (auto simp: scanBody.simps(2))
next
  case (Cons c l)
  then have IH: "scanBody (escaped l @ escaped q) = (escaped l, escaped q)" and "c \<noteq> CHR ''*''" by auto
  from this(2) show ?case
    by (cases rule: escape_cases [of c]) (simp_all add: scanBody.simps(2) IH)
qed

lemma dropWhile_star_escaped:
  assumes "l @ q = [] \<or> hd (l @ q) \<noteq> CHR ''*''"
  shows "dropWhile (\<lambda>c. c = CHR ''*'') (escaped (replicate n (CHR ''*'') @ l @ q)) = escaped (l @ q)"
proof -
  have "escaped (l @ q) = [] \<or> hd (escaped (l @ q)) \<noteq> CHR ''*''"
  proof (cases "l @ q")
    case (Cons c r)
    with assms have "c \<noteq> CHR ''*''" by simp
    then show ?thesis unfolding Cons by (cases rule: escape_cases [of c]) simp_all
  qed simp
  then have "dropWhile (\<lambda>c. c = CHR ''*'') (escaped (l @ q)) = escaped (l @ q)"
    by (cases "escaped (l @ q)") auto
  moreover have "escaped (replicate n (CHR ''*'')) = replicate n (CHR ''*'')" by (induction n) simp_all
  ultimately show ?thesis by (simp add: dropWhile_append)
qed

lemma scanChunk_escaped:
  assumes "CHR ''*'' \<notin> set l" and "q = [] \<or> hd q = CHR ''*'' \<and> l \<noteq> []"
  shows "scanChunk (escaped (replicate n (CHR ''*'') @ l @ q)) = (0 < n, escaped l, escaped q)"
proof -
  have "l @ q = [] \<or> hd (l @ q) \<noteq> CHR ''*''" using assms by (cases l) auto
  note d = dropWhile_star_escaped [OF this, of n]
  have "length (escaped (replicate n (CHR ''*'') @ l @ q)) = n + length (escaped (l @ q))"
    by (induction n) simp_all
  then have "escaped (replicate n (CHR ''*'') @ l @ q) \<noteq> escaped (l @ q) \<longleftrightarrow> 0 < n"
    by (cases n) auto
  then show ?thesis
    using scanBody_escaped [OF assms(1), of q] assms(2) d by (auto simp: scanChunk_def)
qed

abbreviation nul :: "string \<Rightarrow> string" where
  "nul p \<equiv> map slash_to_nul p"

lemma matchChunk_failed: "CHR ''*'' \<notin> set l \<Longrightarrow> matchChunk (escaped l) s True = Inr None"
proof (induction l)
  case (Cons c l)
  then have "c \<noteq> CHR ''*''" and IH: "matchChunk (escaped l) s True = Inr None" by auto
  from this(1) show ?case by (cases rule: escape_cases [of c]) (simp_all add: IH)
qed simp

lemma matchChunk_escaped:
  "CHR ''*'' \<notin> set l \<Longrightarrow>
   matchChunk (escaped l) s False =
     Inr (if take (length l) s = nul l then Some (drop (length l) s) else None)"
proof (induction l arbitrary: s)
  case (Cons c l)
  then have c: "c \<noteq> CHR ''*''" "CHR ''*'' \<notin> set l" by auto
  have step: "matchChunk (escaped (c # l)) s False =
      matchChunk (escaped l) (if s = [] then s else tl s) (s = [] \<or> slash_to_nul c \<noteq> hd s)"
    using c(1) by (cases rule: escape_cases [of c]) simp_all
  show ?case
  proof (cases "s = [] \<or> slash_to_nul c \<noteq> hd s")
    case True
    then show ?thesis unfolding step by (cases s) (auto simp: matchChunk_failed [OF c(2)])
  next
    case False
    then show ?thesis unfolding step by (cases s) (auto simp: Cons.IH [OF c(2)])
  qed
qed simp

text \<open>The first place a chunk \<open>l\<close> fits: the text behind it, which must be empty when nothing of
  the pattern is left.\<close>

fun seek :: "string \<Rightarrow> string \<Rightarrow> string \<Rightarrow> string option" where
  "seek l q [] = (if l = [] then Some [] else None)"
| "seek l q (c # s) =
     (if take (length l) (c # s) = nul l \<and> (drop (length l) (c # s) = [] \<or> q \<noteq> [])
      then Some (drop (length l) (c # s)) else seek l q s)"

declare seek.simps(2) [simp del]

lemma seek_step:
  "seek l q s =
     (if take (length l) s = nul l \<and> (drop (length l) s = [] \<or> q \<noteq> [])
      then Some (drop (length l) s) else case s of [] \<Rightarrow> None | _ # s' \<Rightarrow> seek l q s')"
  by (cases s) (auto simp: seek.simps(2))

lemma starSearch_escaped:
  assumes "CHR ''*'' \<notin> set l"
  shows "CHR ''/'' \<notin> set s \<Longrightarrow>
    starSearch (escaped l) (escaped q) s = Inr (case s of [] \<Rightarrow> None | _ # s' \<Rightarrow> seek l q s')"
proof (induction s)
  case (Cons c s)
  then have c: "c \<noteq> CHR ''/''" and
    IH: "starSearch (escaped l) (escaped q) s = Inr (case s of [] \<Rightarrow> None | _ # s' \<Rightarrow> seek l q s')" by auto
  show ?case
    unfolding starSearch.simps(2) matchChunk_escaped [OF assms] IH list.case seek_step [of l q s] escaped_Nil
    using c by (cases "take (length l) s = nul l"; cases "drop (length l) s = []"; cases "q = []") simp_all
qed simp

lemma nul_split: "take (length l) s = nul l \<Longrightarrow> s = nul l @ drop (length l) s"
  by (metis append_take_drop_id)

lemma seek_suffix: "seek l q s = Some t \<Longrightarrow> \<exists>u. s = u @ nul l @ t"
proof (induction s)
  case (Cons c s)
  show ?case
  proof (cases "take (length l) (c # s) = nul l \<and> (drop (length l) (c # s) = [] \<or> q \<noteq> [])")
    case True
    with Cons.prems have "t = drop (length l) (c # s)" unfolding seek.simps(2) by simp
    with True nul_split [of l "c # s"] show ?thesis by (metis append_Nil)
  next
    case False
    with Cons.prems have "seek l q s = Some t" unfolding seek.simps(2) by (simp only: if_False)
    with Cons.IH show ?thesis by (metis append_Cons)
  qed
qed (auto split: if_splits)

lemma nul_no_star: "CHR ''*'' \<notin> set l \<Longrightarrow> CHR ''*'' \<notin> set (nul l)"
  by (auto simp: slash_to_nul_def)

lemma shorter_suffix:
  assumes "u @ v = u' @ v'" and "length v \<le> length v'"
  shows "\<exists>w. v' = w @ v"
proof -
  have "length u' \<le> length u" using assms(2) arg_cong [OF assms(1), of length] by simp
  then have "drop (length u') (u @ v) = drop (length u') u @ v" by simp
  with assms(1) show ?thesis by (metis append_eq_conv_conj)
qed

text \<open>No backtracking is needed: a text matches a star, a chunk and a rest that is empty or
  starts with a star exactly when the rest matches behind the first place the chunk fits.\<close>

lemma glob_seek:
  assumes l: "CHR ''*'' \<notin> set l" and q: "q = [] \<or> (\<exists>q'. q = CHR ''*'' # q')"
  shows "glob (CHR ''*'' # nul l @ nul q) s \<longleftrightarrow> (case seek l q s of None \<Rightarrow> False | Some t \<Rightarrow> glob (nul q) t)"
proof (induction s)
  case Nil
  show ?case using glob_lits [OF nul_no_star [OF l], of "nul q" "[]"]
    by (auto simp: glob_star glob_lits [OF nul_no_star [OF l]])
next
  case (Cons c s)
  let ?L = "nul l" and ?Q = "nul q" and ?t = "drop (length l) (c # s)"
  have step: "glob (CHR ''*'' # ?L @ ?Q) (c # s) \<longleftrightarrow> glob (?L @ ?Q) (c # s) \<or> glob (CHR ''*'' # ?L @ ?Q) s"
    by (subst glob.simps(2)) simp
  have direct: "glob (?L @ ?Q) (c # s) \<longleftrightarrow> take (length l) (c # s) = ?L \<and> glob ?Q ?t"
    unfolding glob_lits [OF nul_no_star [OF l]]
    by (metis append_eq_conv_conj length_map nul_split)
  show ?case
  proof (cases "take (length l) (c # s) = ?L \<and> (?t = [] \<or> q \<noteq> [])")
    case True
    have "glob ?Q ?t" if later: "glob (CHR ''*'' # ?L @ ?Q) s"
    proof (cases "q = []")
      case False
      with q obtain q' where q': "?Q = CHR ''*'' # q'" by (auto simp: slash_to_nul_def)
      from later Cons.IH obtain t' where t': "seek l q s = Some t'" "glob ?Q t'"
        by (auto split: option.splits)
      then obtain u where u: "s = u @ ?L @ t'" using seek_suffix by blast
      then have "(c # u @ ?L) @ t' = ?L @ ?t" using nul_split True by (metis append.assoc append_Cons)
      moreover from arg_cong [OF this, of length] have "length t' \<le> length ?t"
        by (simp only: length_append length_Cons)
      ultimately obtain w where "?t = w @ t'" using shorter_suffix by blast
      with t'(2) show ?thesis unfolding q' using glob_absorb by simp
    qed (use True in simp)
    moreover have "seek l q (c # s) = Some ?t" unfolding seek.simps(2) using True by (simp only: if_True simp_thms)
    ultimately show ?thesis using step direct True by auto
  next
    case False
    then have "seek l q (c # s) = seek l q s" unfolding seek.simps(2) by (simp only: if_False)
    moreover have "\<not> glob (?L @ ?Q) (c # s)" using False direct by auto
    ultimately show ?thesis using step Cons.IH by simp
  qed
qed

lemma strip_stars: "\<exists>n r. p = replicate n (CHR ''*'') @ r \<and> (r = [] \<or> hd r \<noteq> CHR ''*'')"
proof (induction p)
  case (Cons c p)
  then obtain n r where r: "p = replicate n (CHR ''*'') @ r" "r = [] \<or> hd r \<noteq> CHR ''*''" by blast
  show ?case
  proof (cases "c = CHR ''*''")
    case True
    with r show ?thesis by (intro exI [of _ "Suc n"] exI [of _ r]) simp
  next
    case False
    then show ?thesis by (intro exI [of _ 0] exI [of _ "c # p"]) simp
  qed
qed simp

lemma split_lits: "\<exists>l q. r = l @ q \<and> CHR ''*'' \<notin> set l \<and> (q = [] \<or> hd q = CHR ''*'')"
proof (induction r)
  case (Cons c r)
  then obtain l q where l: "r = l @ q" "CHR ''*'' \<notin> set l" "q = [] \<or> hd q = CHR ''*''" by blast
  show ?case
  proof (cases "c = CHR ''*''")
    case True
    then show ?thesis by (intro exI [of _ "[]"] exI [of _ "c # r"]) simp
  next
    case False
    with l show ?thesis by (intro exI [of _ "c # l"] exI [of _ q]) simp
  qed
qed simp

lemma glob_decompose:
  assumes "p \<noteq> []"
  shows "\<exists>n l q. p = replicate n (CHR ''*'') @ l @ q \<and> CHR ''*'' \<notin> set l \<and>
    (q = [] \<or> hd q = CHR ''*'' \<and> l \<noteq> []) \<and> (0 < n \<or> l \<noteq> [])"
proof -
  obtain n r where r: "p = replicate n (CHR ''*'') @ r" "r = [] \<or> hd r \<noteq> CHR ''*''"
    using strip_stars by blast
  obtain l q where l: "r = l @ q" "CHR ''*'' \<notin> set l" "q = [] \<or> hd q = CHR ''*''"
    using split_lits by blast
  have "l \<noteq> [] \<or> q = []" using r(2) l(1,3) by (cases l) auto
  moreover from this have "0 < n \<or> l \<noteq> []" using assms r(1) l(1) by (cases n) auto
  ultimately show ?thesis using r(1) l by blast
qed

lemma checkRest_escaped: "checkRest (escaped p) = Inr False"
proof (induction "length p" arbitrary: p rule: less_induct)
  case less
  show ?case
  proof (cases "p = []")
    case False
    obtain n l q where p: "p = replicate n (CHR ''*'') @ l @ q" and l: "CHR ''*'' \<notin> set l"
      and q: "q = [] \<or> hd q = CHR ''*'' \<and> l \<noteq> []" and pos: "0 < n \<or> l \<noteq> []"
      using glob_decompose [OF False] by blast
    have "length q < length p" using p pos by (cases l) auto
    note IH = less [OF this]
    have "scanChunk (escaped p) = (0 < n, escaped l, escaped q)"
      unfolding p by (rule scanChunk_escaped [OF l q])
    with IH False matchChunk_escaped [OF l, of "[]"] show ?thesis
      by (subst checkRest.simps) simp
  qed (simp add: checkRest.simps)
qed

lemma nul_star_iff: "q = [] \<or> hd q = CHR ''*'' \<and> l \<noteq> [] \<Longrightarrow> q = [] \<or> (\<exists>q'. q = CHR ''*'' # q')"
  by (cases q) auto

text \<open>One round of the pattern loop.\<close>

lemma path_Match_round:
  assumes l: "CHR ''*'' \<notin> set l" and q: "q = [] \<or> hd q = CHR ''*'' \<and> l \<noteq> []" and "0 < n \<or> l \<noteq> []"
    and s: "CHR ''/'' \<notin> set s"
  shows "path_Match (escaped (replicate n (CHR ''*'') @ l @ q)) s =
    (if 0 < n then if l = [] then Inr True
       else (case seek l q s of None \<Rightarrow> Inr False | Some t \<Rightarrow> path_Match (escaped q) t)
     else if take (length l) s = nul l \<and> (drop (length l) s = [] \<or> q \<noteq> [])
     then path_Match (escaped q) (drop (length l) s) else Inr False)"
proof -
  let ?p = "replicate n (CHR ''*'') @ l @ q" and ?t = "drop (length l) s"
  have sc: "scanChunk (escaped ?p) = (0 < n, escaped l, escaped q)" by (rule scanChunk_escaped [OF l q])
  have ne: "escaped ?p \<noteq> []" using assms(3) unfolding escaped_Nil by (cases n) auto
  have star: "starSearch (escaped l) (escaped q) s = Inr (case s of [] \<Rightarrow> None | _ # s' \<Rightarrow> seek l q s')"
    by (rule starSearch_escaped [OF l s])
  note unfold = path_Match.simps [of "escaped ?p"] sc if_not_P [OF ne] Let_def prod.case
    matchChunk_escaped [OF l] sum.case escaped_Nil star checkRest_escaped
  consider "0 < n" "l = []" | "0 < n" "l \<noteq> []" | "n = 0" "l \<noteq> []" using assms(3) by blast
  then show ?thesis
  proof cases
    case 1
    then show ?thesis unfolding unfold using s by simp
  next
    case 2
    show ?thesis
    proof (cases "take (length l) s = nul l \<and> (?t = [] \<or> q \<noteq> [])")
      case True
      then have "seek l q s = Some ?t" by (simp only: seek_step [of l q s] if_True simp_thms)
      with True 2 show ?thesis unfolding unfold by simp
    next
      case False
      then have "seek l q s = (case s of [] \<Rightarrow> None | _ # s' \<Rightarrow> seek l q s')"
        by (simp only: seek_step [of l q s] if_False)
      with False 2 show ?thesis unfolding unfold by (simp split: option.split)
    qed
  next
    case 3
    then show ?thesis unfolding unfold by simp
  qed
qed

lemma path_Match_glob:
  "CHR ''/'' \<notin> set s \<Longrightarrow> path_Match (escaped p) s = Inr (glob (nul p) s)"
proof (induction "length p" arbitrary: p s rule: less_induct)
  case less
  show ?case
  proof (cases "p = []")
    case True
    then show ?thesis by (simp add: path_Match.simps)
  next
    case False
    then obtain n l q where p: "p = replicate n (CHR ''*'') @ l @ q" and l: "CHR ''*'' \<notin> set l"
      and q: "q = [] \<or> hd q = CHR ''*'' \<and> l \<noteq> []" and pos: "0 < n \<or> l \<noteq> []"
      using glob_decompose by blast
    have "length q < length p" using p pos by (cases l) auto
    then have IH: "path_Match (escaped q) t = Inr (glob (nul q) t)" if "CHR ''/'' \<notin> set t" for t
      using less that by blast
    have np: "nul p = replicate n (CHR ''*'') @ nul l @ nul q"
      unfolding p by (simp add: slash_to_nul_def)
    note round = path_Match_round [OF l q pos less.prems, folded p]
    show ?thesis
    proof (cases n)
      case 0
      have "CHR ''/'' \<notin> set (drop (length l) s)" using less.prems by (meson in_set_dropD)
      moreover have "glob (nul p) s \<longleftrightarrow> take (length l) s = nul l \<and> glob (nul q) (drop (length l) s)"
        unfolding np 0 using glob_lits [OF nul_no_star [OF l], of "nul q" s]
        by simp (metis append_eq_conv_conj length_map nul_split)
      ultimately show ?thesis unfolding round using 0 IH by auto
    next
      case (Suc m)
      have g: "glob (nul p) s \<longleftrightarrow> glob (CHR ''*'' # nul l @ nul q) s"
        unfolding np Suc by (rule glob_replicate_star)
      show ?thesis
      proof (cases "l = []")
        case True
        with q have "glob (CHR ''*'' # nul l @ nul q) s" by (simp add: glob_star)
        with True Suc g show ?thesis unfolding round by simp
      next
        case False
        have "CHR ''/'' \<notin> set t" if "seek l q s = Some t" for t
          using seek_suffix [OF that] less.prems by auto
        with False Suc g IH glob_seek [OF l nul_star_iff [OF q], of s] show ?thesis
          unfolding round by (simp split: option.splits)
      qed
    qed
  qed
qed


end
