(* ===== verification/Wire_Names.thy ===== *)
theory Wire_Names
  imports Go_Strings
begin

text \<open>
  Metric names and tags on the wire (\<open>pkg/wire/names.go\<close>): what the agent repairs and what the
  intake accepts. A pair of a string and a validity flag is an option.
\<close>

section \<open>Character classes and limits\<close>

definition MaxMetricNameLen :: nat where "MaxMetricNameLen = 200"
definition MaxTagKeyLen :: nat where "MaxTagKeyLen = 100"
definition MaxTagLen :: nat where "MaxTagLen = 200"

definition isLower :: "char \<Rightarrow> bool" where
  "isLower c \<longleftrightarrow> CHR ''a'' \<le> c \<and> c \<le> CHR ''z''"

definition isLetter :: "char \<Rightarrow> bool" where
  "isLetter c \<longleftrightarrow> isLower c \<or> CHR ''A'' \<le> c \<and> c \<le> CHR ''Z''"

definition isDigit :: "char \<Rightarrow> bool" where
  "isDigit c \<longleftrightarrow> CHR ''0'' \<le> c \<and> c \<le> CHR ''9''"

definition isNameChar :: "char \<Rightarrow> bool" where
  "isNameChar c \<longleftrightarrow> isLetter c \<or> isDigit c \<or> c = CHR ''_'' \<or> c = CHR ''.''"

definition isTagKeyChar :: "char \<Rightarrow> bool" where
  "isTagKeyChar c \<longleftrightarrow> isLower c \<or> isDigit c \<or> c = CHR ''_'' \<or> c = CHR ''.'' \<or>
     c = CHR ''-'' \<or> c = CHR ''/''"

section \<open>Names\<close>

definition ValidMetricName :: "string \<Rightarrow> bool" where
  "ValidMetricName name =
     (if name = [] \<or> MaxMetricNameLen < length name \<or> \<not> isLetter (hd name) then False
      else list_all isNameChar (tl name))"

definition NormalizeMetricName :: "string \<Rightarrow> string option" where
  "NormalizeMetricName name =
     (if ValidMetricName name then Some name
      else if name = [] \<or> MaxMetricNameLen < length name \<or> \<not> isLetter (hd name) then None
      else Some (hd name # map (\<lambda>c. if isNameChar c then c else CHR ''_'') (tl name)))"

section \<open>Tags\<close>

definition SplitTag :: "string \<Rightarrow> string \<times> string" where
  "SplitTag tag =
     (case IndexByte tag (CHR '':'') of
        Some i \<Rightarrow> (take i tag, drop (i + 1) tag)
      | None \<Rightarrow> (tag, []))"

definition JoinTag :: "string \<Rightarrow> string \<Rightarrow> string" where
  "JoinTag key value = (if value = [] then key else key @ '':'' @ value)"

definition validTagKey :: "string \<Rightarrow> bool" where
  "validTagKey key =
     (if key = [] \<or> MaxTagKeyLen < length key \<or> \<not> isLower (hd key) then False
      else list_all isTagKeyChar (tl key))"

definition ValidTag :: "string \<Rightarrow> bool" where
  "ValidTag tag =
     (if tag = [] \<or> MaxTagLen < length tag \<or> \<not> utf8_ValidString tag \<or>
        ContainsAny tag [CHR '','', CHR 0x0a] then False
      else validTagKey (fst (SplitTag tag)))"

definition needsLower :: "string \<Rightarrow> bool" where
  "needsLower s \<longleftrightarrow> list_ex (\<lambda>c. CHR ''A'' \<le> c \<and> c \<le> CHR ''Z'' \<or> 0x80 \<le> (of_char c :: nat)) s"

definition NormalizeTag :: "(string \<Rightarrow> string) \<Rightarrow> string \<Rightarrow> string option" where
  "NormalizeTag unicode_lower tag0 =
     (let tag1 = TrimSuffix tag0 '':''
      in if \<not> utf8_ValidString tag1 then None
         else
           let tag2 = (if needsLower tag1 then ToLower unicode_lower tag1 else tag1);
               (key, value) = SplitTag tag2
           in if key = [] \<or> MaxTagKeyLen < length key \<or> \<not> isLower (hd key) then None
              else
                let tag3 = (if \<not> validTagKey key
                            then JoinTag (hd key # map (\<lambda>c. if isTagKeyChar c then c else CHR ''_'') (tl key)) value
                            else tag2)
                in if \<not> ValidTag tag3 then None else Some tag3)"

definition CanonicalTags :: "string list \<Rightarrow> string list" where
  "CanonicalTags tags = remdups_adj (sort tags)"

definition HasTagKey :: "string list \<Rightarrow> string \<Rightarrow> bool" where
  "HasTagKey tags key = list_ex (\<lambda>t. fst (SplitTag t) = key) tags"

section \<open>Splitting and joining\<close>

lemma SplitTag_key: "CHR '':'' \<notin> set (fst (SplitTag tag))"
  by (auto simp: SplitTag_def IndexByte_None split: option.splits dest!: IndexByte_SomeD)

lemma SplitTag_Join: "CHR '':'' \<notin> set key \<Longrightarrow> SplitTag (JoinTag key value) = (key, value)"
  by (simp add: SplitTag_def JoinTag_def)

lemma JoinTag_Split:
  assumes "snd (SplitTag tag) \<noteq> [] \<or> CHR '':'' \<notin> set tag"
  shows "JoinTag (fst (SplitTag tag)) (snd (SplitTag tag)) = tag"
proof (cases "IndexByte tag (CHR '':'')")
  case None
  then show ?thesis by (simp add: SplitTag_def JoinTag_def)
next
  case (Some i)
  then have "CHR '':'' \<in> set tag" by (metis IndexByte_None option.distinct(1))
  with Some assms IndexByte_SomeD [OF Some] show ?thesis
    by (simp add: SplitTag_def JoinTag_def)
qed

lemma isTagKeyChar_special: "\<not> isTagKeyChar (CHR '','')" "\<not> isTagKeyChar (CHR '':'')"
  "\<not> isLower (CHR '','')" "\<not> isLower (CHR '':'')" "\<not> isNameChar (CHR ''|'')" "\<not> isLetter (CHR ''|'')"
  by code_simp+

lemma validTagKey_chars:
  assumes "validTagKey key"
  shows "CHR '','' \<notin> set key" "CHR '':'' \<notin> set key" "key \<noteq> []"
  using assms isTagKeyChar_special
  by (cases key; auto simp: validTagKey_def list_all_iff split: if_splits)+

lemma ValidTag_chars:
  assumes "ValidTag tag"
  shows "CHR '','' \<notin> set tag" "tag \<noteq> []" "validTagKey (fst (SplitTag tag))"
  using assms by (auto simp: ValidTag_def ContainsAny_def list_ex_iff split: if_splits)

lemma ValidMetricName_no_bar:
  assumes "ValidMetricName m"
  shows "CHR ''|'' \<notin> set m" "m \<noteq> []"
  using assms isTagKeyChar_special
  by (cases m; auto simp: ValidMetricName_def list_all_iff split: if_splits)+

section \<open>Normalization\<close>

lemma isNameChar_underscore [simp]: "isNameChar (CHR ''_'')"
  by (simp add: isNameChar_def)

lemma letter_isNameChar: "isLetter c \<Longrightarrow> isNameChar c"
  by (simp add: isNameChar_def)

lemma TrimSuffix_single:
  "TrimSuffix s [c] = (if s \<noteq> [] \<and> last s = c then butlast s else s)"
  by (cases s rule: rev_cases) (auto simp: TrimSuffix_def)

lemma TrimSuffix_id: "s = [] \<or> last s \<noteq> c \<Longrightarrow> TrimSuffix s [c] = s"
  by (auto simp: TrimSuffix_single)

lemma NormalizeTag_Some_valid: "NormalizeTag lw t = Some r \<Longrightarrow> ValidTag r"
  by (auto simp: NormalizeTag_def Let_def split: if_splits prod.splits)

lemma NormalizeTag_fixpoint:
  assumes "ValidTag t" and "last t \<noteq> CHR '':''" and "\<not> needsLower t"
  shows "NormalizeTag lw t = Some t"
proof -
  have "TrimSuffix t '':'' = t" using assms(2) TrimSuffix_id by simp
  moreover have "utf8_ValidString t" using assms(1) by (auto simp: ValidTag_def split: if_splits)
  moreover have "validTagKey (fst (SplitTag t))" using assms(1) by (rule ValidTag_chars)
  moreover from this have "fst (SplitTag t) \<noteq> []" "length (fst (SplitTag t)) \<le> MaxTagKeyLen"
      "isLower (hd (fst (SplitTag t)))"
    by (auto simp: validTagKey_def split: if_splits)
  ultimately show ?thesis using assms by (auto simp: NormalizeTag_def Let_def split: prod.split)
qed

text \<open>C26: Metric names. Normalization fails exactly on the names no replacement can fix; otherwise
  its result is valid, has the length of the input, keeps every legal character after the first
  in place and is a fixed point of normalization.\<close>

theorem NormalizeMetricName_spec:
  "case NormalizeMetricName n of
     None \<Rightarrow> \<not> (n \<noteq> [] \<and> length n \<le> MaxMetricNameLen \<and> isLetter (hd n))
   | Some r \<Rightarrow> ValidMetricName r \<and> length r = length n \<and> NormalizeMetricName r = Some r \<and>
       r = map (\<lambda>c. if isNameChar c then c else CHR ''_'') n"
proof (cases "ValidMetricName n")
  case True
  then have "n = map (\<lambda>c. if isNameChar c then c else CHR ''_'') n"
    by (cases n) (auto simp: ValidMetricName_def list_all_iff letter_isNameChar map_idI split: if_splits)
  with True show ?thesis by (simp add: NormalizeMetricName_def)
next
  case False
  show ?thesis
  proof (cases "n = [] \<or> MaxMetricNameLen < length n \<or> \<not> isLetter (hd n)")
    case True
    with False show ?thesis by (auto simp: NormalizeMetricName_def)
  next
    case ok: False
    let ?r = "hd n # map (\<lambda>c. if isNameChar c then c else CHR ''_'') (tl n)"
    have "?r = map (\<lambda>c. if isNameChar c then c else CHR ''_'') n"
      using ok by (cases n) (auto simp: letter_isNameChar)
    moreover have "ValidMetricName ?r"
      using ok by (auto simp: ValidMetricName_def list_all_iff)
    moreover have "length ?r = length n" using ok by simp
    ultimately show ?thesis using False ok by (simp add: NormalizeMetricName_def [of n])
        (simp add: NormalizeMetricName_def)
  qed
qed




end
