(* ===== verification/Tsdb_Types.thy ===== *)
theory Tsdb_Types
  imports Glob Wire_Names "HOL-Library.Signed_Division"
begin

text \<open>
  The vocabulary of the metric stores (\<open>internal/tsdb/tsdb.go\<close>): tags, series identities and
  their keys, matchers and selectors, and block boundaries.
\<close>

section \<open>Tags\<close>

record Tag =
  tag_Key :: string
  tag_Value :: string

text \<open>Tags are ordered by key, then value: the order of \<open>SortTags\<close> and \<open>Validate\<close>.\<close>

instantiation Tag_ext :: (linorder) linorder
begin

definition less_eq_Tag_ext :: "('a::linorder) Tag_scheme \<Rightarrow> 'a Tag_scheme \<Rightarrow> bool" where
  "less_eq_Tag_ext a b \<longleftrightarrow> (tag_Key a, tag_Value a, Tag.more a) \<le> (tag_Key b, tag_Value b, Tag.more b)"

definition less_Tag_ext :: "('a::linorder) Tag_scheme \<Rightarrow> 'a Tag_scheme \<Rightarrow> bool" where
  "less_Tag_ext a b \<longleftrightarrow> (tag_Key a, tag_Value a, Tag.more a) < (tag_Key b, tag_Value b, Tag.more b)"

instance
proof
  fix a b c :: "'a Tag_scheme"
  show "(a < b) = (a \<le> b \<and> \<not> b \<le> a)" unfolding less_eq_Tag_ext_def less_Tag_ext_def by (rule less_le_not_le)
  show "a \<le> a" unfolding less_eq_Tag_ext_def by (rule order_refl)
  show "a \<le> b \<or> b \<le> a" unfolding less_eq_Tag_ext_def by (rule linear)
  show "a \<le> c" if "a \<le> b" "b \<le> c" using that unfolding less_eq_Tag_ext_def by (rule order_trans)
  show "a = b" if "a \<le> b" "b \<le> a"
    using order_antisym [OF that [unfolded less_eq_Tag_ext_def]] by simp
qed

end

definition tag_String :: "Tag \<Rightarrow> string" where
  "tag_String t = (if tag_Value t = [] then tag_Key t else tag_Key t @ '':'' @ tag_Value t)"

definition ParseTag :: "string \<Rightarrow> Tag" where
  "ParseTag s =
     (case IndexByte s (CHR '':'') of
        Some i \<Rightarrow> \<lparr>tag_Key = take i s, tag_Value = drop (i + 1) s\<rparr>
      | None \<Rightarrow> \<lparr>tag_Key = s, tag_Value = []\<rparr>)"

section \<open>Series\<close>

text \<open>A sample is its timestamp in milliseconds and the bits of its value.\<close>

type_synonym Sample = "i64 \<times> f64"

record SeriesRef =
  ref_Metric :: string
  ref_Tags :: "Tag list"

record SeriesSamples =
  ss_Series :: SeriesRef
  ss_Samples :: "Sample list"

definition SortTags :: "Tag list \<Rightarrow> Tag list" where
  "SortTags tags = sort tags"

definition NewSeriesRef :: "string \<Rightarrow> string list \<Rightarrow> SeriesRef" where
  "NewSeriesRef metric tags =
     \<lparr>ref_Metric = metric, ref_Tags = remdups_adj (SortTags (map ParseTag tags))\<rparr>"

fun joinTags :: "Tag list \<Rightarrow> string" where
  "joinTags [] = []"
| "joinTags [t] = tag_String t"
| "joinTags (t # ts) = tag_String t @ '','' @ joinTags ts"

definition series_Key :: "SeriesRef \<Rightarrow> string" where
  "series_Key s = ref_Metric s @ ''|'' @ joinTags (ref_Tags s)"

definition series_Get :: "SeriesRef \<Rightarrow> string \<Rightarrow> string option" where
  "series_Get s key = map_option tag_Value (find (\<lambda>t. tag_Key t = key) (ref_Tags s))"

datatype validate_error = EmptyMetric | TagsNotSorted

fun tags_sorted :: "Tag list \<Rightarrow> bool" where
  "tags_sorted (a # b # ts) =
     (if tag_Key a > tag_Key b \<or> tag_Key a = tag_Key b \<and> tag_Value a \<ge> tag_Value b then False
      else tags_sorted (b # ts))"
| "tags_sorted _ = True"

definition Validate :: "SeriesRef \<Rightarrow> validate_error option" where
  "Validate s =
     (if ref_Metric s = [] then Some EmptyMetric
      else if tags_sorted (ref_Tags s) then None else Some TagsNotSorted)"

section \<open>Matchers\<close>

datatype MatchType = Equal | NotEqual | Wildcard | NotWildcard

record Matcher =
  m_Key :: string
  m_Value :: string
  m_Type :: MatchType

fun matcher_has :: "Matcher \<Rightarrow> Tag list \<Rightarrow> bool \<Rightarrow> bool" where
  "matcher_has m [] has = has"
| "matcher_has m (t # ts) has =
     (if tag_Key t \<noteq> m_Key m then matcher_has m ts has
      else matcher_has m ts
        (case m_Type m of
           Equal \<Rightarrow> has \<or> tag_Value t = m_Value m
         | NotEqual \<Rightarrow> has \<or> tag_Value t = m_Value m
         | Wildcard \<Rightarrow> has \<or> GlobMatch (m_Value m) (tag_Value t)
         | NotWildcard \<Rightarrow> has \<or> GlobMatch (m_Value m) (tag_Value t)))"

definition matcher_Matches :: "Matcher \<Rightarrow> Tag list \<Rightarrow> bool" where
  "matcher_Matches m tags =
     (let has = matcher_has m tags False
      in if m_Type m = NotEqual \<or> m_Type m = NotWildcard then \<not> has else has)"

record Selector =
  sel_Metric :: string
  sel_Matchers :: "Matcher list"

definition selector_Matches :: "Selector \<Rightarrow> SeriesRef \<Rightarrow> bool" where
  "selector_Matches sel ref =
     (if ref_Metric ref \<noteq> sel_Metric sel then False
      else list_all (\<lambda>m. matcher_Matches m (ref_Tags ref)) (sel_Matchers sel))"

section \<open>Block boundaries\<close>

text \<open>Go's \<open>/\<close> and \<open>%\<close> on \<open>int64\<close> truncate toward zero.\<close>

definition int64_quot :: "i64 \<Rightarrow> i64 \<Rightarrow> i64" where
  "int64_quot a b = word_of_int (sint a sdiv sint b)"

definition int64_rem :: "i64 \<Rightarrow> i64 \<Rightarrow> i64" where
  "int64_rem a b = word_of_int (sint a smod sint b)"

definition BlockOf :: "i64 \<Rightarrow> i64 \<Rightarrow> i64" where
  "BlockOf t rangeMs =
     (let q = int64_quot t rangeMs
      in if int64_rem t rangeMs \<noteq> 0 \<and> (sint t < 0) \<noteq> (sint rangeMs < 0) then q - 1 else q)"

section \<open>Canonical series\<close>

lemma tag_less_iff:
  "(a::Tag) < b \<longleftrightarrow> tag_Key a < tag_Key b \<or> tag_Key a = tag_Key b \<and> tag_Value a < tag_Value b"
  unfolding less_Tag_ext_def less_prod_simp by (auto simp: order_le_less)

lemma tags_sorted_iff: "tags_sorted ts \<longleftrightarrow> sorted_wrt (<) ts"
proof (induction ts rule: tags_sorted.induct)
  case (1 a b ts)
  have "tag_Key a > tag_Key b \<or> tag_Key a = tag_Key b \<and> tag_Value a \<ge> tag_Value b \<longleftrightarrow> \<not> a < b"
    unfolding tag_less_iff by (metis linorder_not_less not_less_iff_gr_or_eq)
  moreover have "sorted_wrt (<) (a # b # ts) \<longleftrightarrow> a < b \<and> sorted_wrt (<) (b # ts)"
    by (auto dest: less_trans)
  ultimately show ?case using 1 by (simp del: sorted_wrt.simps)
qed simp_all

lemma NewSeriesRef_sorted: "sorted_wrt (<) (ref_Tags (NewSeriesRef m tags))"
  by (simp add: NewSeriesRef_def SortTags_def sorted_remdups_adj_strict)

lemma NewSeriesRef_Tags_set: "set (ref_Tags (NewSeriesRef m tags)) = ParseTag ` set tags"
  by (simp add: NewSeriesRef_def SortTags_def)

lemma NewSeriesRef_Metric [simp]: "ref_Metric (NewSeriesRef m tags) = m"
  by (simp add: NewSeriesRef_def)

lemma ParseTag_Split: "ParseTag s = \<lparr>tag_Key = fst (SplitTag s), tag_Value = snd (SplitTag s)\<rparr>"
  by (simp add: ParseTag_def SplitTag_def split: option.split)

lemma tag_String_Join: "tag_String t = JoinTag (tag_Key t) (tag_Value t)"
  by (simp add: tag_String_def JoinTag_def)

lemma ParseTag_String: "CHR '':'' \<notin> set (tag_Key t) \<Longrightarrow> ParseTag (tag_String t) = t"
  by (simp add: ParseTag_Split tag_String_Join SplitTag_Join)

lemma set_tag_String:
  "set (tag_String t) \<subseteq> insert (CHR '':'') (set (tag_Key t) \<union> set (tag_Value t))"
  by (auto simp: tag_String_def)

text \<open>The first separator splits a string in one way only.\<close>

lemma first_separator:
  "c \<notin> set a \<Longrightarrow> c \<notin> set b \<Longrightarrow> a @ c # x = b @ c # y \<longleftrightarrow> a = b \<and> x = y"
proof (induction a arbitrary: b)
  case Nil
  then show ?case by (cases b) auto
next
  case (Cons d a)
  then show ?case by (cases b) auto
qed

definition key_safe :: "Tag \<Rightarrow> bool" where
  "key_safe t \<longleftrightarrow> tag_Key t \<noteq> [] \<and> CHR '':'' \<notin> set (tag_Key t) \<and> CHR '','' \<notin> set (tag_Key t) \<and>
     CHR '','' \<notin> set (tag_Value t)"

lemma key_safe_String:
  assumes "key_safe t"
  shows "tag_String t \<noteq> []" "CHR '','' \<notin> set (tag_String t)" "ParseTag (tag_String t) = t"
  using assms set_tag_String [of t] ParseTag_String [of t] by (auto simp: key_safe_def tag_String_def)

lemma joinTags_Cons:
  "joinTags (t # ts) = tag_String t @ (if ts = [] then [] else CHR '','' # joinTags ts)"
  by (cases ts) simp_all

lemma joinTags_not_Nil: "list_all key_safe ts \<Longrightarrow> ts \<noteq> [] \<Longrightarrow> joinTags ts \<noteq> []"
  using key_safe_String(1) by (cases ts) (auto simp: joinTags_Cons)

lemma joinTags_inj:
  assumes "list_all key_safe ts" and "list_all key_safe us" and "joinTags ts = joinTags us"
  shows "ts = us"
  using assms
proof (induction ts arbitrary: us)
  case Nil
  then show ?case using joinTags_not_Nil [of us] by auto
next
  case (Cons t ts)
  have "joinTags us \<noteq> []" using joinTags_not_Nil [of "t # ts"] Cons.prems by simp
  then obtain u us' where us: "us = u # us'" by (cases us) auto
  have t: "key_safe t" "key_safe u" using Cons.prems us by auto
  note safe = key_safe_String(2,3) [OF t(1)] key_safe_String(2,3) [OF t(2)]
  have eq: "tag_String t @ (if ts = [] then [] else CHR '','' # joinTags ts) =
      tag_String u @ (if us' = [] then [] else CHR '','' # joinTags us')"
    using Cons.prems(3) unfolding us joinTags_Cons .
  have comma: "CHR '','' \<in> set (tag_String w @ (if ws = [] then [] else CHR '','' # joinTags ws)) \<longleftrightarrow> ws \<noteq> []"
    if "CHR '','' \<notin> set (tag_String w)" for w ws using that by simp
  have empty: "ts = [] \<longleftrightarrow> us' = []"
    using comma [OF safe(1), of ts] comma [OF safe(3), of us'] unfolding eq by blast
  have "tag_String t = tag_String u \<and> joinTags ts = joinTags us'"
  proof (cases "ts = []")
    case True
    with eq empty show ?thesis by simp
  next
    case False
    with eq empty first_separator [OF safe(1,3)] show ?thesis by simp
  qed
  then have "t = u" "joinTags ts = joinTags us'" using safe(2,4) by (metis, blast)
  with Cons.IH [of us'] Cons.prems(1,2) us show ?case by simp
qed

lemma series_Key_inj:
  assumes "CHR ''|'' \<notin> set (ref_Metric r)" and "CHR ''|'' \<notin> set (ref_Metric s)"
    and "list_all key_safe (ref_Tags r)" and "list_all key_safe (ref_Tags s)"
    and "series_Key r = series_Key s"
  shows "r = s"
  using first_separator [OF assms(1,2)] joinTags_inj [OF assms(3,4)] assms(5)
  by (simp add: series_Key_def)

lemma ValidTag_key_safe: "ValidTag s \<Longrightarrow> key_safe (ParseTag s)"
  using ValidTag_chars [of s] validTagKey_chars [of "fst (SplitTag s)"] SplitTag_key [of s]
  by (auto simp: key_safe_def ParseTag_Split SplitTag_def split: option.splits dest: in_set_dropD)

section \<open>Properties\<close>

text \<open>C24: Canonical references. \<open>NewSeriesRef\<close> builds a reference whose tags are exactly the parsed
  wire tags, each once and in order, so \<open>Validate\<close> accepts it whenever the metric has a name.\<close>

theorem NewSeriesRef_canonical:
  "Validate (NewSeriesRef m tags) = (if m = [] then Some EmptyMetric else None) \<and>
   set (ref_Tags (NewSeriesRef m tags)) = ParseTag ` set tags \<and>
   distinct (ref_Tags (NewSeriesRef m tags))"
  using NewSeriesRef_sorted [of m tags] NewSeriesRef_Tags_set [of m tags]
  by (simp add: Validate_def tags_sorted_iff strict_sorted_iff)

text \<open>C23: Keys identify series. For metric names and tags the intake accepts, two series with the
  same key have the same metric and the same set of tags: they are the same series.\<close>

theorem series_Key_identifies:
  assumes "ValidMetricName m" and "ValidMetricName m'" and "list_all ValidTag tags" and "list_all ValidTag tags'"
    and "series_Key (NewSeriesRef m tags) = series_Key (NewSeriesRef m' tags')"
  shows "NewSeriesRef m tags = NewSeriesRef m' tags' \<and> m = m' \<and> ParseTag ` set tags = ParseTag ` set tags'"
proof -
  have safe: "list_all key_safe (ref_Tags (NewSeriesRef n ts))" if "list_all ValidTag ts" for n ts
    using that by (auto simp: list_all_iff NewSeriesRef_Tags_set ValidTag_key_safe)
  have "NewSeriesRef m tags = NewSeriesRef m' tags'"
    using series_Key_inj [OF _ _ safe [OF assms(3)] safe [OF assms(4)] assms(5)]
      ValidMetricName_no_bar(1) assms(1,2) by simp
  then show ?thesis by (metis NewSeriesRef_Metric NewSeriesRef_Tags_set)
qed

theorem series_Key_identifies_witness:
  "NewSeriesRef ''cpu'' [''host:a'', ''env:x''] = NewSeriesRef ''cpu'' [''env:x'', ''host:a'', ''env:x'']"
proof -
  have "ValidMetricName ''cpu''" "list_all ValidTag [''host:a'', ''env:x'']"
    "list_all ValidTag [''env:x'', ''host:a'', ''env:x'']"
    "series_Key (NewSeriesRef ''cpu'' [''host:a'', ''env:x'']) =
     series_Key (NewSeriesRef ''cpu'' [''env:x'', ''host:a'', ''env:x''])" by code_simp+
  with series_Key_identifies show ?thesis by blast
qed

section \<open>Block boundaries are floors\<close>

lemma sdiv_floor:
  fixes t r :: int
  assumes "0 < r"
  shows "(if t smod r \<noteq> 0 \<and> t < 0 then t sdiv r - 1 else t sdiv r) = t div r"
proof (cases "t < 0")
  case True
  then have "t sdiv r = - ((- t) div r)" "t smod r = - ((- t) mod r)"
    using assms by (simp_all add: signed_divide_int_def signed_modulo_int_def)
  moreover have "t div r = (if (- t) mod r = 0 then - ((- t) div r) else - ((- t) div r) - 1)"
    using zdiv_zminus1_eq_if [of r "- t"] assms by simp
  ultimately show ?thesis using True by simp
next
  case False
  then have "t sdiv r = t div r"
    using assms by (cases "t = 0") (simp_all add: signed_divide_int_def)
  with False show ?thesis by simp
qed

lemma sint_word_of_int_64:
  "- (2 ^ 63) \<le> k \<Longrightarrow> k < 2 ^ 63 \<Longrightarrow> sint (word_of_int k :: 64 word) = k"
  by (simp add: sint_sbintrunc' signed_take_bit_int_eq_self)

lemma sint_range_64: "- (2 ^ 63) \<le> sint (w :: 64 word)" "sint (w :: 64 word) < 2 ^ 63"
  using sint_ge [of w] sint_lt [of w] by simp_all

lemma floor_bounds:
  fixes t r :: int
  assumes "0 < r"
  shows "t div r * r \<le> t" and "t < (t div r + 1) * r"
proof -
  have "t div r * r + t mod r = t" "0 \<le> t mod r" "t mod r < r" using assms by simp_all
  then show "t div r * r \<le> t" "t < (t div r + 1) * r" unfolding distrib_right by linarith+
qed

lemma div_range:
  fixes t r :: int
  assumes "0 < r" and "- N \<le> t" and "t < N" and "0 < N"
  shows "- N \<le> t div r" and "t div r < N"
proof -
  have r: "1 \<le> r" using assms(1) by simp
  have N: "N \<le> N * r" using mult_left_mono [OF r, of N] assms(4) by simp
  show "- N \<le> t div r"
  proof (rule ccontr)
    assume "\<not> - N \<le> t div r"
    then have "(t div r + 1) * r \<le> - N * r" by (intro mult_right_mono) (use r in linarith)+
    also have "\<dots> \<le> - N" using N by simp
    finally show False using floor_bounds(2) [OF assms(1), of t] assms(2) by linarith
  qed
  show "t div r < N"
  proof (rule ccontr)
    assume "\<not> t div r < N"
    then have "N * r \<le> t div r * r" by (intro mult_right_mono) (use r in linarith)+
    then show False using N floor_bounds(1) [OF assms(1), of t] assms(3) by linarith
  qed
qed

lemma smod_bound:
  fixes t r :: int
  assumes "0 < r"
  shows "- r < t smod r" and "t smod r < r"
proof -
  have m: "0 \<le> \<bar>t\<bar> mod r" "\<bar>t\<bar> mod r < r" using assms by simp_all
  have "t smod r = (if t < 0 then - (\<bar>t\<bar> mod r) else \<bar>t\<bar> mod r)"
    using assms by (cases "t = 0") (simp_all add: signed_modulo_int_def)
  with m show "- r < t smod r" "t smod r < r" by (simp_all split: if_splits)
qed

lemma BlockOf_div:
  assumes "0 < sint rangeMs"
  shows "sint (BlockOf t rangeMs) = sint t div sint rangeMs"
proof -
  let ?t = "sint t" and ?r = "sint rangeMs"
  have "- (2 ^ 63) \<le> ?t smod ?r" "?t smod ?r < 2 ^ 63"
    using smod_bound [OF assms, of ?t] sint_range_64 [of rangeMs] by linarith+
  note small = sint_word_of_int_64 [OF this]
  have rem: "int64_rem t rangeMs = 0 \<longleftrightarrow> ?t smod ?r = 0"
    unfolding int64_rem_def using small by (metis signed_0 of_int_0)
  have "BlockOf t rangeMs = word_of_int (?t div ?r)"
    unfolding BlockOf_def Let_def rem int64_quot_def sdiv_floor [OF assms, of ?t, symmetric]
    using assms by simp
  moreover have "- (2 ^ 63) \<le> ?t div ?r" "?t div ?r < 2 ^ 63"
    by (rule div_range [OF assms sint_range_64]; simp)+
  ultimately show ?thesis using sint_word_of_int_64 by simp
qed

text \<open>C25: One rule for block boundaries. For a positive range, \<open>BlockOf\<close> is division rounded toward
  minus infinity at every 64-bit timestamp, before the epoch included, so the block of \<open>t\<close> is the
  one whose half-open interval contains \<open>t\<close>.\<close>

theorem BlockOf_floor:
  assumes "0 < sint rangeMs"
  shows "sint (BlockOf t rangeMs) = sint t div sint rangeMs \<and>
    sint (BlockOf t rangeMs) * sint rangeMs \<le> sint t \<and>
    sint t < (sint (BlockOf t rangeMs) + 1) * sint rangeMs"
  using BlockOf_div [OF assms] floor_bounds [OF assms, of "sint t"] by simp

theorem BlockOf_floor_witness:
  "sint (BlockOf (- 1) 7200000) = - 1 \<and> sint (BlockOf 7200000 7200000) = 1"
  using BlockOf_floor [of 7200000 "- 1"] BlockOf_floor [of 7200000 7200000] by simp

end
