(* ===== verification/Postings.thy ===== *)
theory Postings
  imports Ozy_Prelude "HOL-Library.Multiset"
begin

text \<open>
  Set operations on postings lists (\<open>internal/tsdb/index/index.go\<close>): sorted lists of series ids,
  intersected by galloping search, subtracted and merged. Each is shown to be the set operation
  it implements. Go's \<open>sort.Search\<close> is modelled as the standard library writes it.
\<close>

section \<open>Binary search\<close>

function search_loop :: "(nat \<Rightarrow> bool) \<Rightarrow> nat \<Rightarrow> nat \<Rightarrow> nat" where
  "search_loop f i j =
     (if i < j then let h = (i + j) div 2 in if f h then search_loop f i h else search_loop f (h + 1) j
      else i)"
  by pat_completeness auto
termination by (relation "measure (\<lambda>(f, i, j). j - i)") auto

declare search_loop.simps [simp del]

definition sort_Search :: "nat \<Rightarrow> (nat \<Rightarrow> bool) \<Rightarrow> nat" where
  "sort_Search n f = search_loop f 0 n"

section \<open>Operations\<close>

definition appendSorted :: "u64 list \<Rightarrow> u64 \<Rightarrow> u64 list" where
  "appendSorted list sid =
     (if list = [] \<or> last list < sid then list @ [sid]
      else let i = sort_Search (length list) (\<lambda>i. sid \<le> list ! i)
           in if i < length list \<and> list ! i = sid then list
              else take i list @ sid # drop i list)"

definition removeID :: "u64 list \<Rightarrow> u64 \<Rightarrow> u64 list" where
  "removeID list sid =
     (let i = sort_Search (length list) (\<lambda>i. sid \<le> list ! i)
      in if length list \<le> i \<or> list ! i \<noteq> sid then list
         else take i list @ drop (i + 1) list)"

text \<open>The doubling loop of \<open>gallop\<close>.\<close>

function gallop_loop :: "u64 list \<Rightarrow> u64 \<Rightarrow> nat \<Rightarrow> nat \<Rightarrow> nat \<times> nat" where
  "gallop_loop list target i step =
     (if 0 < step \<and> i + step < length list \<and> list ! (i + step) < target
      then gallop_loop list target (i + step) (step * 2)
      else (i, step))"
  by pat_completeness auto
termination by (relation "measure (\<lambda>(list, target, i, step). length list - i)") auto

declare gallop_loop.simps [simp del]

definition gallop :: "u64 list \<Rightarrow> u64 \<Rightarrow> nat" where
  "gallop list target =
     (let (i, step) = gallop_loop list target 0 1;
          hi = min (i + step + 1) (length list)
      in i + sort_Search (hi - i) (\<lambda>k. target \<le> list ! (i + k)))"

lemma search_loop_pos:
  "\<not> f i \<Longrightarrow> i < j \<Longrightarrow> i < search_loop f i j"
proof (induction f i j rule: search_loop.induct)
  case (1 f i j)
  let ?h = "(i + j) div 2"
  have h: "i \<le> ?h" "?h < j" using 1(4) by auto
  show ?case
  proof (cases "f ?h")
    case True
    with 1(3) have "i < ?h" using h(1) by (metis le_neq_implies_less)
    with 1(1) [OF 1(4) refl True 1(3)] True 1(4) show ?thesis by (simp add: search_loop.simps [of f i j] Let_def)
  next
    case False
    have ge: "a \<le> search_loop f a b" for a b
      by (induction f a b rule: search_loop.induct) (subst search_loop.simps, auto simp: Let_def)
    have "?h + 1 \<le> search_loop f (?h + 1) j" by (rule ge)
    with False 1(4) h show ?thesis by (simp add: search_loop.simps [of f i j] Let_def)
  qed
qed

lemma gallop_loop_less:
  "list ! i < target \<Longrightarrow> i < length list \<Longrightarrow> 0 < step \<Longrightarrow> gallop_loop list target i step = (i', step') \<Longrightarrow>
    list ! i' < target \<and> i' < length list \<and> 0 < step' \<and> i \<le> i'"
proof (induction list target i step rule: gallop_loop.induct)
  case (1 list target i step)
  let ?go = "0 < step \<and> i + step < length list \<and> list ! (i + step) < target"
  show ?case
  proof (cases ?go)
    case True
    then have "gallop_loop list target (i + step) (step * 2) = (i', step')"
      using 1(5) by (subst (asm) gallop_loop.simps) simp
    with 1(1) [OF True] True show ?thesis by auto
  next
    case False
    then have "i' = i \<and> step' = step" using 1(5) by (subst (asm) gallop_loop.simps) auto
    with 1 show ?thesis by simp
  qed
qed

text \<open>A gallop from an id below the target moves forward, so \<open>intersect\<close> ends.\<close>

lemma gallop_pos:
  assumes "list \<noteq> []" "hd list < target" shows "0 < gallop list target"
proof -
  obtain i step where l: "gallop_loop list target 0 1 = (i, step)" by force
  have "list ! i < target" "i < length list" "0 < step"
    using gallop_loop_less [OF _ _ _ l] assms by (auto simp: hd_conv_nth)
  then have "0 < sort_Search (min (i + step + 1) (length list) - i) (\<lambda>k. target \<le> list ! (i + k))"
    unfolding sort_Search_def by (intro search_loop_pos) auto
  then show ?thesis unfolding gallop_def l Let_def by simp
qed

text \<open>The loop of \<open>intersect\<close>, on what is left of both lists.\<close>

function intersect_loop :: "u64 list \<Rightarrow> u64 list \<Rightarrow> u64 list" where
  "intersect_loop a b =
     (if a = [] \<or> b = [] then []
      else if hd a = hd b then hd a # intersect_loop (tl a) (tl b)
      else if hd a < hd b then intersect_loop (drop (gallop a (hd b)) a) b
      else intersect_loop a (drop (gallop b (hd a)) b))"
  by pat_completeness auto
termination
proof (relation "measure (\<lambda>(a, b). length a + length b)", goal_cases)
  case (2 a b)
  then show ?case by (cases a; cases b) auto
next
  case (3 a b)
  then show ?case using gallop_pos [of a "hd b"] by auto
next
  case (4 a b)
  then show ?case using gallop_pos [of b "hd a"] by auto
qed auto

declare intersect_loop.simps [simp del]

definition intersect :: "u64 list \<Rightarrow> u64 list \<Rightarrow> u64 list" where
  "intersect a b = (if a = [] \<or> b = [] then [] else intersect_loop a b)"

fun subtract_loop :: "u64 list \<Rightarrow> u64 list \<Rightarrow> u64 list" where
  "subtract_loop [] b = []"
| "subtract_loop (x # a) b =
     (let b' = dropWhile (\<lambda>y. y < x) b
      in if b' \<noteq> [] \<and> hd b' = x then subtract_loop a b' else x # subtract_loop a b')"

definition subtract :: "u64 list \<Rightarrow> u64 list \<Rightarrow> u64 list" where
  "subtract a b = (if b = [] then a else subtract_loop a b)"

text \<open>\<open>merge\<close>: the smallest head of all lists, then every list that has it moves on.\<close>

fun merge_best :: "u64 list list \<Rightarrow> nat list \<Rightarrow> u64 option \<Rightarrow> u64 option" where
  "merge_best (l # ls) (k # ks) best =
     merge_best ls ks (if k < length l \<and> (case best of None \<Rightarrow> True | Some b \<Rightarrow> l ! k < b) then Some (l ! k) else best)"
| "merge_best _ _ best = best"

fun merge_advance :: "u64 \<Rightarrow> u64 list list \<Rightarrow> nat list \<Rightarrow> nat list" where
  "merge_advance best (l # ls) (k # ks) = (if k < length l \<and> l ! k = best then k + 1 else k) # merge_advance best ls ks"
| "merge_advance best _ ks = ks"

fun merge_left :: "u64 list list \<Rightarrow> nat list \<Rightarrow> nat" where
  "merge_left (l # ls) (k # ks) = (length l - k) + merge_left ls ks"
| "merge_left _ _ = 0"

lemma merge_left_advance_le: "merge_left ls (merge_advance b ls ks) \<le> merge_left ls ks"
  by (induction b ls ks rule: merge_advance.induct) auto

lemma merge_best_advance:
  "merge_best ls ks best = Some b \<Longrightarrow> best = Some b \<or> merge_left ls (merge_advance b ls ks) < merge_left ls ks"
proof (induction ls ks best rule: merge_best.induct)
  case (1 l ls k ks best)
  from 1(1) [OF 1(2) [unfolded merge_best.simps]] show ?case
    using merge_left_advance_le [of ls b ks] by (auto split: if_splits)
qed auto

function merge_loop :: "u64 list list \<Rightarrow> nat list \<Rightarrow> u64 list" where
  "merge_loop ls idx =
     (case merge_best ls idx None of
        None \<Rightarrow> []
      | Some best \<Rightarrow> best # merge_loop ls (merge_advance best ls idx))"
  by pat_completeness auto
termination
  by (relation "measure (\<lambda>(ls, idx). merge_left ls idx)") (auto dest: merge_best_advance)

declare merge_loop.simps [simp del]

fun merge :: "u64 list list \<Rightarrow> u64 list" where
  "merge [] = []"
| "merge [l] = l"
| "merge ls = merge_loop ls (replicate (length ls) 0)"

fun intersects :: "u64 list \<Rightarrow> u64 list \<Rightarrow> bool" where
  "intersects (x # a) (y # b) = (if x = y then True else if x < y then intersects a (y # b) else intersects (x # a) b)"
| "intersects _ _ = False"

section \<open>Search finds the boundary\<close>

abbreviation ascending :: "u64 list \<Rightarrow> bool" where
  "ascending \<equiv> sorted_wrt (<)"

lemma search_loop_spec:
  assumes "\<And>m n. m \<le> n \<Longrightarrow> f m \<Longrightarrow> n < j0 \<Longrightarrow> f n" and "i \<le> j" "j \<le> j0"
    and "\<And>k. k < i \<Longrightarrow> \<not> f k" "\<And>k. j \<le> k \<Longrightarrow> k < j0 \<Longrightarrow> f k"
  shows "search_loop f i j \<le> j \<and> (\<forall>k < search_loop f i j. \<not> f k) \<and> (\<forall>k. search_loop f i j \<le> k \<and> k < j0 \<longrightarrow> f k)"
  using assms
proof (induction f i j rule: search_loop.induct)
  case (1 f i j)
  let ?h = "(i + j) div 2"
  show ?case
  proof (cases "i < j")
    case less: True
    then have h: "i \<le> ?h" "?h < j" by auto
    show ?thesis
    proof (cases "f ?h")
      case True
      have "search_loop f i ?h \<le> ?h \<and> (\<forall>k < search_loop f i ?h. \<not> f k) \<and> (\<forall>k. search_loop f i ?h \<le> k \<and> k < j0 \<longrightarrow> f k)"
        by (rule 1(1) [OF less refl True]) (use 1(3-) h True in auto)
      with less True h show ?thesis by (simp add: search_loop.simps [of f i j] Let_def)
    next
      case False
      then have "\<not> f k" if "k < ?h + 1" for k
        using 1(3) [of k ?h] that h 1(5) by auto
      then have "search_loop f (?h + 1) j \<le> j \<and> (\<forall>k < search_loop f (?h + 1) j. \<not> f k) \<and>
          (\<forall>k. search_loop f (?h + 1) j \<le> k \<and> k < j0 \<longrightarrow> f k)"
        by (intro 1(2) [OF less refl False]) (use 1(3-) h False in auto)
      with less False show ?thesis by (simp add: search_loop.simps [of f i j] Let_def)
    qed
  next
    case False
    then have "search_loop f i j = i" by (subst search_loop.simps) simp
    with False 1(3-) show ?thesis by auto
  qed
qed

lemma sort_Search_spec:
  assumes "\<And>m k. m \<le> k \<Longrightarrow> f m \<Longrightarrow> k < n \<Longrightarrow> f k"
  shows "sort_Search n f \<le> n" "k < sort_Search n f \<Longrightarrow> \<not> f k" "sort_Search n f \<le> k \<Longrightarrow> k < n \<Longrightarrow> f k"
  using search_loop_spec [of f n 0 n] assms unfolding sort_Search_def by auto

text \<open>On a sorted list, the position of the first id not below the target.\<close>

lemma length_takeWhile_unique:
  assumes "n \<le> length xs" "\<And>k. k < n \<Longrightarrow> P (xs ! k)" "n < length xs \<Longrightarrow> \<not> P (xs ! n)"
  shows "length (takeWhile P xs) = n"
proof -
  have "takeWhile P xs = take n xs"
    by (rule takeWhile_eq_take_P_nth) (use assms in auto)
  with assms(1) show ?thesis by simp
qed

lemma sorted_nth_le: "ascending xs \<Longrightarrow> m \<le> k \<Longrightarrow> k < length xs \<Longrightarrow> xs ! m \<le> xs ! k"
  by (metis le_neq_implies_less order_less_imp_le order_refl sorted_wrt_nth_less)

lemma sort_Search_sorted:
  assumes "ascending xs"
  shows "sort_Search (length xs) (\<lambda>i. t \<le> xs ! i) = length (takeWhile (\<lambda>x. x < t) xs)"
proof -
  let ?s = "sort_Search (length xs) (\<lambda>i. t \<le> xs ! i)"
  have mono: "t \<le> xs ! k" if "m \<le> k" "t \<le> xs ! m" "k < length xs" for m k
    using sorted_nth_le [OF assms that(1,3)] that(2) by simp
  have s: "?s \<le> length xs" "k < ?s \<Longrightarrow> \<not> t \<le> xs ! k" "?s \<le> k \<Longrightarrow> k < length xs \<Longrightarrow> t \<le> xs ! k" for k
    by (rule sort_Search_spec [of "\<lambda>i. t \<le> xs ! i" "length xs"]; use mono in blast)+
  have "length (takeWhile (\<lambda>x. x < t) xs) = ?s"
  proof (rule length_takeWhile_unique)
    show "?s \<le> length xs" by (rule s(1))
    show "xs ! k < t" if "k < ?s" for k using s(2) [OF that] by simp
    show "\<not> xs ! ?s < t" if "?s < length xs" using s(3) [OF order_refl that] by simp
  qed
  then show ?thesis by simp
qed

lemma gallop_loop_stop:
  "0 < step \<Longrightarrow> gallop_loop list target i step = (i', step') \<Longrightarrow> \<not> (i' + step' < length list \<and> list ! (i' + step') < target)"
proof (induction list target i step rule: gallop_loop.induct)
  case (1 list target i step)
  then show ?case by (subst (asm) gallop_loop.simps) (auto split: if_splits)
qed

lemma gallop_sorted:
  assumes "ascending xs" "xs \<noteq> []" "hd xs < t"
  shows "gallop xs t = length (takeWhile (\<lambda>x. x < t) xs)"
proof -
  obtain i step where l: "gallop_loop xs t 0 1 = (i, step)" by force
  have i: "xs ! i < t" "i < length xs" "0 < step"
    using gallop_loop_less [OF _ _ _ l] assms by (auto simp: hd_conv_nth)
  have stop: "length xs \<le> i + step \<or> t \<le> xs ! (i + step)" using gallop_loop_stop [OF _ l] by auto
  let ?hi = "min (i + step + 1) (length xs)" and ?f = "\<lambda>k. t \<le> xs ! (i + k)"
  let ?s = "sort_Search (?hi - i) ?f"
  have mono: "?f k" if "m \<le> k" "?f m" "k < ?hi - i" for m k
  proof -
    have "i + k < length xs" using that(3) by (simp add: less_diff_conv add.commute)
    then have "xs ! (i + m) \<le> xs ! (i + k)" using sorted_nth_le [OF assms(1), of "i + m" "i + k"] that(1) by simp
    with that(2) show ?thesis by simp
  qed
  have s: "?s \<le> ?hi - i" "k < ?s \<Longrightarrow> \<not> ?f k" "?s \<le> k \<Longrightarrow> k < ?hi - i \<Longrightarrow> ?f k" for k
    by (rule sort_Search_spec [of ?f "?hi - i"]; use mono in blast)+
  have le: "i + ?s \<le> length xs" using s(1) i(2) by linarith
  have below: "xs ! k < t" if "k < i + ?s" for k
  proof (cases "k < i")
    case True
    then show ?thesis using sorted_nth_le [OF assms(1), of k i] i by auto
  next
    case False
    then show ?thesis using s(2) [of "k - i"] that by (simp add: not_le)
  qed
  have above: "\<not> xs ! (i + ?s) < t" if "i + ?s < length xs"
  proof (cases "?s < ?hi - i")
    case True
    then show ?thesis using s(3) [of ?s] by simp
  next
    case False
    then have "?s = ?hi - i" using s(1) by simp
    then have eq: "i + ?s = ?hi" using i(2) by simp
    with that have "?hi = i + step + 1" by auto
    with False stop s(2) [of step] eq i that show ?thesis by auto
  qed
  have "length (takeWhile (\<lambda>x. x < t) xs) = i + ?s"
    by (rule length_takeWhile_unique) (use le below above in auto)
  then show ?thesis unfolding gallop_def l Let_def by simp
qed

section \<open>Sorted lists as sets\<close>

lemma ascending_dropWhile:
  "ascending xs \<Longrightarrow> set (dropWhile (\<lambda>x. x < t) xs) = {x \<in> set xs. t \<le> x}"
  by (induction xs) auto

lemma ascending_takeWhile:
  "ascending xs \<Longrightarrow> set (takeWhile (\<lambda>x. x < t) xs) = {x \<in> set xs. x < t}"
  by (induction xs) auto

lemma sorted_wrt_dropWhile: "sorted_wrt R xs \<Longrightarrow> sorted_wrt R (dropWhile P xs)"
  by (induction xs) auto

lemma filter_dropWhile:
  "(\<And>x. x \<in> set xs \<Longrightarrow> Q x \<Longrightarrow> P x \<Longrightarrow> False) \<Longrightarrow> filter Q (dropWhile P xs) = filter Q xs"
  by (induction xs) auto

lemma ascending_eq: "ascending xs \<Longrightarrow> ascending ys \<Longrightarrow> set xs = set ys \<Longrightarrow> xs = ys"
  by (rule strict_sorted_equal)

lemma ascending_filter [simp]: "ascending xs \<Longrightarrow> ascending (filter P xs)"
  by (rule sorted_wrt_filter)

lemma drop_takeWhile: "drop (length (takeWhile P xs)) xs = dropWhile P xs"
  by (simp add: dropWhile_eq_drop)

lemma take_takeWhile: "take (length (takeWhile P xs)) xs = takeWhile P xs"
  by (simp flip: takeWhile_eq_take)

lemma appendSorted_set:
  assumes "ascending xs"
  shows "ascending (appendSorted xs x)" "set (appendSorted xs x) = insert x (set xs)"
proof -
  let ?i = "length (takeWhile (\<lambda>y. y < x) xs)" and ?lo = "takeWhile (\<lambda>y. y < x) xs" and ?hi = "dropWhile (\<lambda>y. y < x) xs"
  have split: "xs = ?lo @ ?hi" by simp
  consider "xs = [] \<or> last xs < x" | "\<not> (xs = [] \<or> last xs < x)" "?i < length xs \<and> xs ! ?i = x"
    | "\<not> (xs = [] \<or> last xs < x)" "\<not> (?i < length xs \<and> xs ! ?i = x)" by blast
  then have "ascending (appendSorted xs x) \<and> set (appendSorted xs x) = insert x (set xs)"
  proof cases
    case 1
    have "\<forall>y \<in> set xs. y < x"
    proof (cases xs rule: rev_cases)
      case (snoc ys y)
      with 1 assms show ?thesis by (force simp: sorted_wrt_append)
    qed simp
    with 1 assms show ?thesis by (simp add: appendSorted_def sorted_wrt_append)
  next
    case 2
    then show ?thesis using assms nth_mem [of ?i xs]
      by (auto simp: appendSorted_def Let_def sort_Search_sorted)
  next
    case 3
    have "x \<notin> set ?hi"
    proof
      assume "x \<in> set ?hi"
      then have ne: "?hi \<noteq> []" by (metis empty_iff list.set(1))
      have i: "?i < length xs" "hd ?hi = xs ! ?i" using ne by (auto simp: dropWhile_eq_drop hd_drop_conv_nth)
      have "\<not> hd ?hi < x" using hd_dropWhile ne by blast
      moreover have "hd ?hi \<le> x"
        using \<open>x \<in> set ?hi\<close> sorted_wrt_dropWhile [OF assms, of "\<lambda>y. y < x"] ne by (cases ?hi) auto
      ultimately show False using i 3 by simp
    qed
    then have hi: "\<forall>y \<in> set ?hi. x < y" using ascending_dropWhile [OF assms, of x] by force
    have "appendSorted xs x = ?lo @ x # ?hi"
      using 3 by (auto simp: appendSorted_def Let_def sort_Search_sorted [OF assms] drop_takeWhile take_takeWhile)
    moreover have "ascending (?lo @ x # ?hi)"
      using hi sorted_wrt_dropWhile [OF assms] assms ascending_takeWhile [OF assms, of x]
      by (auto simp: sorted_wrt_append sorted_wrt_takeWhile intro: order.strict_trans)
    moreover have "set (?lo @ x # ?hi) = insert x (set xs)" using split by (metis Un_insert_right list.simps(15) set_append)
    ultimately show ?thesis by simp
  qed
  then show "ascending (appendSorted xs x)" "set (appendSorted xs x) = insert x (set xs)" by auto
qed

lemma removeID_filter:
  assumes "ascending xs"
  shows "removeID xs x = filter (\<lambda>y. y \<noteq> x) xs"
proof -
  let ?i = "length (takeWhile (\<lambda>y. y < x) xs)" and ?lo = "takeWhile (\<lambda>y. y < x) xs" and ?hi = "dropWhile (\<lambda>y. y < x) xs"
  have split: "xs = ?lo @ ?hi" by simp
  have lo: "filter (\<lambda>y. y \<noteq> x) ?lo = ?lo" by (rule filter_True) (auto dest: set_takeWhileD)
  have hi: "ascending ?hi" by (rule sorted_wrt_dropWhile [OF assms])
  have i: "?i < length xs \<longleftrightarrow> ?hi \<noteq> []" "?i < length xs \<Longrightarrow> xs ! ?i = hd ?hi"
    by (auto simp: dropWhile_eq_drop hd_drop_conv_nth)
  have r: "removeID xs x = (if ?hi = [] \<or> hd ?hi \<noteq> x then xs else ?lo @ tl ?hi)"
  proof -
    have d: "drop (?i + 1) xs = tl ?hi" by (simp add: dropWhile_eq_drop tl_drop drop_Suc)
    show ?thesis unfolding removeID_def Let_def sort_Search_sorted [OF assms] d take_takeWhile
      using i by (auto simp: not_less simp del: dropWhile_eq_Nil_conv)
  qed
  show ?thesis
  proof (cases ?hi)
    case Nil
    then show ?thesis using r lo split by (metis append_Nil2)
  next
    case (Cons y ys)
    have ys: "\<forall>z \<in> set ys. y < z" "x \<le> y" using hi ascending_dropWhile [OF assms, of x] unfolding Cons by auto
    then have "filter (\<lambda>z. z \<noteq> x) ys = ys" by (intro filter_True) auto
    then have f: "filter (\<lambda>y. y \<noteq> x) (?lo @ ?hi) = (if y = x then ?lo @ ys else ?lo @ ?hi)" using lo Cons by simp
    have "removeID xs x = (if y = x then ?lo @ ys else xs)" unfolding r using Cons by simp
    then show ?thesis using f by simp
  qed
qed

lemma intersect_loop_filter:
  "ascending a \<Longrightarrow> ascending b \<Longrightarrow> intersect_loop a b = filter (\<lambda>x. x \<in> set b) a"
proof (induction a b rule: intersect_loop.induct)
  case (1 a b)
  show ?case
  proof (cases "a = [] \<or> b = []")
    case True
    then show ?thesis by (auto simp: intersect_loop.simps [of a b])
  next
    case False
    then obtain x a' y b' where ab: "a = x # a'" "b = y # b'" by (metis list.exhaust)
    have asc: "ascending a'" "ascending b'" "\<forall>z \<in> set a'. x < z" "\<forall>z \<in> set b'. y < z" using 1(4,5) ab by simp_all
    consider "x = y" | "x < y" | "y < x" by force
    then show ?thesis
    proof cases
      case 1
      then have "intersect_loop a' b' = filter (\<lambda>x. x \<in> set b') a'" using "1.IH"(1) [OF False] ab asc by simp
      moreover have "filter (\<lambda>z. z \<in> set b) a' = filter (\<lambda>z. z \<in> set b') a'"
        using asc(3) 1 ab by (intro filter_cong) auto
      moreover have "intersect_loop a b = x # intersect_loop a' b'" using ab 1 by (subst intersect_loop.simps) simp
      ultimately show ?thesis using ab 1 by simp
    next
      case 2
      have d: "drop (gallop a y) a = dropWhile (\<lambda>z. z < y) a"
        using gallop_sorted [OF "1.prems"(1), of y] ab 2 by (simp add: dropWhile_eq_drop)
      have "intersect_loop (drop (gallop a (hd b)) a) b = filter (\<lambda>x. x \<in> set b) (drop (gallop a (hd b)) a)"
        using "1.IH"(2) [OF False] ab 2 "1.prems" by simp
      moreover have "intersect_loop a b = intersect_loop (drop (gallop a (hd b)) a) b"
        using ab 2 by (subst intersect_loop.simps) auto
      moreover have "filter (\<lambda>x. x \<in> set b) (dropWhile (\<lambda>z. z < y) a) = filter (\<lambda>x. x \<in> set b) a"
        using asc(4) ab(2) by (intro filter_dropWhile) auto
      ultimately show ?thesis using d ab(2) by simp
    next
      case 3
      have d: "drop (gallop b x) b = dropWhile (\<lambda>z. z < x) b"
        using gallop_sorted [OF "1.prems"(2), of x] ab 3 by (simp add: dropWhile_eq_drop)
      have "intersect_loop a b = intersect_loop a (dropWhile (\<lambda>z. z < x) b)"
        using ab 3 d by (subst intersect_loop.simps) auto
      also have "\<dots> = filter (\<lambda>z. z \<in> set (dropWhile (\<lambda>z. z < x) b)) a"
        using "1.IH"(3) [OF False] ab 3 "1.prems" d sorted_wrt_dropWhile [OF "1.prems"(2)] by simp
      also have "\<dots> = filter (\<lambda>z. z \<in> set b) a"
        using asc(3) ab(1) by (intro filter_cong) (auto simp: ascending_dropWhile [OF "1.prems"(2)])
      finally show ?thesis .
    qed
  qed
qed

lemma intersect_filter: "ascending a \<Longrightarrow> ascending b \<Longrightarrow> intersect a b = filter (\<lambda>x. x \<in> set b) a"
  by (simp add: intersect_def intersect_loop_filter)

lemma subtract_loop_filter:
  "ascending a \<Longrightarrow> ascending b \<Longrightarrow> subtract_loop a b = filter (\<lambda>x. x \<notin> set b) a"
proof (induction a b rule: subtract_loop.induct)
  case (2 x a b)
  let ?b = "dropWhile (\<lambda>y. y < x) b"
  have asc: "ascending ?b" by (rule sorted_wrt_dropWhile [OF 2(4)])
  have "filter (\<lambda>z. z \<notin> set ?b) a = filter (\<lambda>z. z \<notin> set b) a"
    using 2(3) by (intro filter_cong) (auto simp: ascending_dropWhile [OF 2(4)])
  moreover have "?b \<noteq> [] \<and> hd ?b = x \<longleftrightarrow> x \<in> set b"
  proof (cases ?b)
    case Nil
    then show ?thesis using ascending_dropWhile [OF 2(4), of x] by auto
  next
    case (Cons y ys)
    then have s: "set (y # ys) = {z \<in> set b. x \<le> z}" using ascending_dropWhile [OF 2(4), of x] by simp
    then have "y \<in> set b" "x \<le> y" by (metis (lifting) list.set_intros(1) mem_Collect_eq)+
    moreover have "x \<in> set b \<Longrightarrow> x \<in> set (y # ys)" using s by simp
    moreover have "\<forall>z \<in> set ys. y < z" using asc unfolding Cons by simp
    ultimately show ?thesis unfolding Cons by fastforce
  qed
  ultimately show ?case using 2 asc by (cases "?b \<noteq> [] \<and> hd ?b = x") (simp_all add: Let_def)
qed simp

lemma subtract_filter: "ascending a \<Longrightarrow> ascending b \<Longrightarrow> subtract a b = filter (\<lambda>x. x \<notin> set b) a"
  by (simp add: subtract_def subtract_loop_filter)

lemma intersects_iff: "ascending a \<Longrightarrow> ascending b \<Longrightarrow> intersects a b \<longleftrightarrow> set a \<inter> set b \<noteq> {}"
  by (induction a b rule: intersects.induct) auto


text \<open>The ids a merge has still to return.\<close>

fun merge_elems :: "u64 list list \<Rightarrow> nat list \<Rightarrow> u64 set" where
  "merge_elems (l # ls) (k # ks) = set (drop k l) \<union> merge_elems ls ks"
| "merge_elems _ _ = {}"

lemma ascending_drop_hd: "ascending l \<Longrightarrow> k < length l \<Longrightarrow> x \<in> set (drop k l) \<Longrightarrow> l ! k \<le> x"
  by (metis Cons_nth_drop_Suc order_less_imp_le order_refl set_ConsD sorted_wrt.simps(2) sorted_wrt_drop)

lemma nth_in_drop: "k < length l \<Longrightarrow> l ! k \<in> set (drop k l)"
  by (metis Cons_nth_drop_Suc list.set_intros(1))

lemma merge_best_None: "merge_best ls ks best = None \<Longrightarrow> best = None \<and> merge_elems ls ks = {}"
  by (induction ls ks best rule: merge_best.induct) (auto split: if_splits option.splits)

lemma merge_best_least:
  "list_all ascending ls \<Longrightarrow> merge_best ls ks best = Some b \<Longrightarrow>
    b \<in> merge_elems ls ks \<union> set_option best \<and> (\<forall>x \<in> merge_elems ls ks \<union> set_option best. b \<le> x)"
proof (induction ls ks best rule: merge_best.induct)
  case (1 l ls k ks best)
  define best' where "best' = (if k < length l \<and> (case best of None \<Rightarrow> True | Some b \<Rightarrow> l ! k < b) then Some (l ! k) else best)"
  have "list_all ascending ls" "merge_best ls ks best' = Some b" using 1(2,3) by (simp_all add: best'_def)
  with 1(1) [folded best'_def] have IH: "b \<in> merge_elems ls ks \<union> set_option best'" "\<forall>x \<in> merge_elems ls ks \<union> set_option best'. b \<le> x"
    by blast+
  have sub: "set_option best' \<subseteq> set (drop k l) \<union> set_option best"
    by (auto simp: best'_def nth_in_drop split: if_splits option.splits)
  have "b \<le> x" if "x \<in> set (drop k l) \<union> set_option best" for x
  proof -
    have "k < length l" if "x \<in> set (drop k l)" using that by (cases "k < length l") auto
    then have "\<exists>y \<in> set_option best'. y \<le> x"
      using that ascending_drop_hd [of l k x] 1(2) by (auto simp: best'_def split: if_splits option.splits)
    then show ?thesis using IH(2) by force
  qed
  with IH sub show ?case by auto
qed auto

lemma drop_advance:
  assumes "ascending l" "\<forall>x \<in> set (drop k l). b \<le> x"
  shows "set (drop (if k < length l \<and> l ! k = b then k + 1 else k) l) = set (drop k l) - {b}"
proof (cases "k < length l")
  case True
  then have d: "drop k l = l ! k # drop (k + 1) l" by (simp add: Cons_nth_drop_Suc)
  with assms(1) have "\<forall>x \<in> set (drop (k + 1) l). l ! k < x" by (metis sorted_wrt.simps(2) sorted_wrt_drop)
  moreover have "b \<le> l ! k" using assms(2) d by simp
  ultimately show ?thesis using True by (cases "l ! k = b") (auto simp: d)
qed simp

lemma merge_elems_advance:
  "list_all ascending ls \<Longrightarrow> \<forall>x \<in> merge_elems ls ks. b \<le> x \<Longrightarrow>
    merge_elems ls (merge_advance b ls ks) = merge_elems ls ks - {b}"
proof (induction b ls ks rule: merge_advance.induct)
  case (1 b l ls k ks)
  have "set (drop (if k < length l \<and> l ! k = b then k + 1 else k) l) = set (drop k l) - {b}"
    by (rule drop_advance) (use 1(2,3) in auto)
  with 1 show ?case by (simp add: Un_Diff)
qed auto

lemma merge_loop_set:
  "list_all ascending ls \<Longrightarrow> ascending (merge_loop ls ks) \<and> set (merge_loop ls ks) = merge_elems ls ks"
proof (induction ls ks rule: merge_loop.induct)
  case (1 ls ks)
  show ?case
  proof (cases "merge_best ls ks None")
    case None
    then have "merge_loop ls ks = []" by (subst merge_loop.simps) simp
    then show ?thesis using merge_best_None [OF None] by simp
  next
    case (Some b)
    note least = merge_best_least [OF 1(2) Some]
    have eq: "merge_loop ls ks = b # merge_loop ls (merge_advance b ls ks)" using Some by (subst merge_loop.simps) simp
    have "merge_elems ls (merge_advance b ls ks) = merge_elems ls ks - {b}"
      by (rule merge_elems_advance [OF 1(2)]) (use least in simp)
    with 1(1) [OF Some 1(2)] least show ?thesis by (fastforce simp: eq)
  qed
qed

lemma merge_elems_start: "merge_elems ls (replicate (length ls) 0) = \<Union> (set ` set ls)"
  by (induction ls) auto

lemma merge_set:
  assumes "list_all ascending ls"
  shows "ascending (merge ls)" "set (merge ls) = \<Union> (set ` set ls)"
  using assms merge_loop_set [OF assms, of "replicate (length ls) 0"] merge_elems_start [of ls]
  by (cases ls rule: merge.cases; simp)+

section \<open>Properties\<close>

text \<open>C30: Postings lists compute sets. On sorted lists, the galloping intersection, the subtraction and
  the k-way merge return exactly the ids of the set operation, sorted and each once; inserting and
  removing an id keeps a list sorted.\<close>

theorem postings_set_ops:
  assumes "ascending a" and "ascending b" and "list_all ascending ls"
  shows "intersect a b = filter (\<lambda>x. x \<in> set b) a \<and> subtract a b = filter (\<lambda>x. x \<notin> set b) a \<and>
    merge ls = sorted_list_of_set (\<Union> (set ` set ls)) \<and>
    appendSorted a x = sorted_list_of_set (insert x (set a)) \<and> removeID a x = filter (\<lambda>y. y \<noteq> x) a"
proof -
  have eq: "ascending xs \<Longrightarrow> xs = sorted_list_of_set (set xs)" for xs :: "u64 list"
    by (simp add: strict_sorted_iff sorted_list_of_set.idem_if_sorted_distinct)
  show ?thesis
    using intersect_filter [OF assms(1,2)] subtract_filter [OF assms(1,2)] removeID_filter [OF assms(1)]
      eq [OF merge_set(1) [OF assms(3)]] merge_set(2) [OF assms(3)]
      eq [OF appendSorted_set(1) [OF assms(1)]] appendSorted_set(2) [OF assms(1)] by simp
qed

theorem postings_set_ops_witness:
  "intersect [1, 5, 9] [2, 5, 7, 9, 11] = [5, 9] \<and> subtract [1, 5, 9] [2, 5, 7, 9, 11] = [1]"
  using postings_set_ops [of "[1, 5, 9]" "[2, 5, 7, 9, 11]" "[]" 0] by simp

end
