(* ===== verification/Index_Lookup.thy ===== *)
theory Index_Lookup
  imports Tsdb_Types Postings
begin

text \<open>
  Queries over an inverted index (\<open>internal/tsdb/index/select.go\<close> and \<open>metadata.go\<close>). They are
  written over the interface \<open>Lookup\<close>; the locale \<open>lookup_index\<close> is the contract of an index, and
  under it selection by postings lists is selection of the series the selector matches.
\<close>

section \<open>The interface and the queries\<close>

definition MetricName :: string where "MetricName = ''__name__''"

text \<open>A Go interface value: its methods, bound to the index they read.\<close>

record Lookup =
  lk_Postings :: "string \<Rightarrow> string \<Rightarrow> u64 list"
  lk_TagValues :: "string \<Rightarrow> string list"
  lk_TagKeys :: "string list"
  lk_AllSeries :: "u64 list"

definition index_union :: "Lookup \<Rightarrow> string \<Rightarrow> string \<Rightarrow> u64 list" where
  "index_union l key pattern = merge (map (lk_Postings l key) (filter (GlobMatch pattern) (lk_TagValues l key)))"

definition positive_lists :: "Lookup \<Rightarrow> Selector \<Rightarrow> u64 list list" where
  "positive_lists l sel =
     (if sel_Metric sel \<noteq> [] then [lk_Postings l MetricName (sel_Metric sel)] else []) @
     List.map_filter (\<lambda>m. case m_Type m of
         Equal \<Rightarrow> Some (lk_Postings l (m_Key m) (m_Value m))
       | Wildcard \<Rightarrow> Some (index_union l (m_Key m) (m_Value m))
       | _ \<Rightarrow> None) (sel_Matchers sel)"

definition negative_matchers :: "Selector \<Rightarrow> Matcher list" where
  "negative_matchers sel = filter (\<lambda>m. m_Type m = NotEqual \<or> m_Type m = NotWildcard) (sel_Matchers sel)"

text \<open>\<open>None\<close> is the early \<open>return nil\<close>.\<close>

fun intersect_all :: "u64 list \<Rightarrow> u64 list list \<Rightarrow> u64 list option" where
  "intersect_all ids [] = Some ids"
| "intersect_all ids (nxt # ls) = (let ids' = intersect ids nxt in if ids' = [] then None else intersect_all ids' ls)"

definition subtract_matcher :: "Lookup \<Rightarrow> Matcher \<Rightarrow> u64 list \<Rightarrow> u64 list" where
  "subtract_matcher l m ids =
     (case m_Type m of
        NotEqual \<Rightarrow> subtract ids (lk_Postings l (m_Key m) (m_Value m))
      | NotWildcard \<Rightarrow> subtract ids (index_union l (m_Key m) (m_Value m))
      | _ \<Rightarrow> ids)"

text \<open>\<open>sort.Slice\<close> leaves the order of lists of one length open; the result does not depend on it.\<close>

definition index_Select :: "Lookup \<Rightarrow> Selector \<Rightarrow> u64 list" where
  "index_Select l sel =
     (case (case sort_key length (positive_lists l sel) of
              [] \<Rightarrow> Some (lk_AllSeries l)
            | p # ps \<Rightarrow> intersect_all p ps) of
        None \<Rightarrow> []
      | Some ids \<Rightarrow> fold (subtract_matcher l) (negative_matchers sel) ids)"

definition index_Metrics :: "Lookup \<Rightarrow> string \<Rightarrow> string list" where
  "index_Metrics l pre = sort (filter (\<lambda>name. pre = [] \<or> HasPrefix name pre) (lk_TagValues l MetricName))"

definition index_Keys :: "Lookup \<Rightarrow> string \<Rightarrow> string list" where
  "index_Keys l metric =
     (let ids = lk_Postings l MetricName metric
      in if metric \<noteq> [] \<and> ids = [] then []
         else sort (filter (\<lambda>key. key \<noteq> MetricName \<and>
                (metric = [] \<or> list_ex (\<lambda>v. intersects (lk_Postings l key v) ids) (lk_TagValues l key))) (lk_TagKeys l)))"

definition index_Values :: "Lookup \<Rightarrow> string \<Rightarrow> string \<Rightarrow> string list" where
  "index_Values l metric key =
     (let ids = lk_Postings l MetricName metric
      in if metric \<noteq> [] \<and> ids = [] then []
         else sort (filter (\<lambda>v. metric = [] \<or> intersects (lk_Postings l key v) ids) (lk_TagValues l key)))"

section \<open>What a matcher means\<close>

text \<open>The pairs a series is indexed under.\<close>

definition carries :: "SeriesRef \<Rightarrow> string \<Rightarrow> string \<Rightarrow> bool" where
  "carries ref k v \<longleftrightarrow> (k = MetricName \<and> v = ref_Metric ref) \<or>
     (\<exists>t \<in> set (ref_Tags ref). tag_Key t = k \<and> tag_Value t = v)"

text \<open>An empty metric does not restrict an index lookup.\<close>

definition selects :: "Selector \<Rightarrow> SeriesRef \<Rightarrow> bool" where
  "selects sel ref \<longleftrightarrow> (sel_Metric sel = [] \<or> ref_Metric ref = sel_Metric sel) \<and>
     list_all (\<lambda>m. matcher_Matches m (ref_Tags ref)) (sel_Matchers sel)"

text \<open>The name of the pseudo key is not a tag key the intake lets pass.\<close>

definition no_pseudo :: "SeriesRef \<Rightarrow> bool" where
  "no_pseudo ref \<longleftrightarrow> list_all (\<lambda>t. tag_Key t \<noteq> MetricName) (ref_Tags ref)"

definition plain_selector :: "Selector \<Rightarrow> bool" where
  "plain_selector sel \<longleftrightarrow> list_all (\<lambda>m. m_Key m \<noteq> MetricName) (sel_Matchers sel)"

definition value_test :: "Matcher \<Rightarrow> string \<Rightarrow> bool" where
  "value_test m v \<longleftrightarrow> (if m_Type m = Equal \<or> m_Type m = NotEqual then v = m_Value m else GlobMatch (m_Value m) v)"

lemma matcher_has_iff:
  "matcher_has m ts has \<longleftrightarrow> has \<or> (\<exists>t \<in> set ts. tag_Key t = m_Key m \<and> value_test m (tag_Value t))"
  by (induction m ts has rule: matcher_has.induct) (auto simp: value_test_def split: MatchType.splits)

lemma matcher_Matches_carries:
  assumes "m_Key m \<noteq> MetricName"
  shows "matcher_Matches m (ref_Tags ref) \<longleftrightarrow>
    (m_Type m = NotEqual \<or> m_Type m = NotWildcard) \<noteq> (\<exists>v. carries ref (m_Key m) v \<and> value_test m v)"
  using assms by (auto simp: matcher_Matches_def matcher_has_iff carries_def)

lemma selects_Matches: "sel_Metric sel \<noteq> [] \<Longrightarrow> selects sel ref = selector_Matches sel ref"
  by (auto simp: selects_def selector_Matches_def)

text \<open>The ids with a value the matcher tests for.\<close>

definition matcher_list :: "Lookup \<Rightarrow> Matcher \<Rightarrow> u64 list" where
  "matcher_list l m = (if m_Type m = Equal \<or> m_Type m = NotEqual then lk_Postings l (m_Key m) (m_Value m)
     else index_union l (m_Key m) (m_Value m))"

lemma intersect_all_set:
  "ascending ids \<Longrightarrow> list_all ascending ls \<Longrightarrow>
    ascending (case intersect_all ids ls of None \<Rightarrow> [] | Some r \<Rightarrow> r) \<and>
    set (case intersect_all ids ls of None \<Rightarrow> [] | Some r \<Rightarrow> r) = {x \<in> set ids. \<forall>l \<in> set ls. x \<in> set l}"
proof (induction ids ls rule: intersect_all.induct)
  case (2 ids l ls)
  let ?i = "intersect ids l"
  have i: "?i = filter (\<lambda>x. x \<in> set l) ids" using 2(2,3) by (simp add: intersect_filter)
  show ?case
  proof (cases "?i = []")
    case True
    then have "{x \<in> set ids. x \<in> set l} = {}" using i by (metis list.set(1) set_filter)
    with True show ?thesis by auto
  next
    case False
    have "ascending ?i" "list_all ascending ls" using 2(2,3) i by simp_all
    from 2(1) [OF refl False this] False i show ?thesis by auto
  qed
qed simp

section \<open>The contract of an index\<close>

locale lookup_index =
  fixes lk :: "'s \<Rightarrow> Lookup"
    and good :: "'s \<Rightarrow> bool"
    and series :: "'s \<Rightarrow> u64 \<Rightarrow> SeriesRef option"
  assumes Postings_law: "good s \<Longrightarrow> ascending (lk_Postings (lk s) k v) \<and>
      set (lk_Postings (lk s) k v) = {i. \<exists>ref. series s i = Some ref \<and> carries ref k v}"
    and TagValues_law: "good s \<Longrightarrow> distinct (lk_TagValues (lk s) k) \<and>
      set (lk_TagValues (lk s) k) = {v. \<exists>i ref. series s i = Some ref \<and> carries ref k v}"
    and TagKeys_law: "good s \<Longrightarrow> distinct (lk_TagKeys (lk s)) \<and>
      set (lk_TagKeys (lk s)) = {k. \<exists>v i ref. series s i = Some ref \<and> carries ref k v}"
    and AllSeries_law: "good s \<Longrightarrow> ascending (lk_AllSeries (lk s)) \<and> set (lk_AllSeries (lk s)) = dom (series s)"
begin

abbreviation those :: "'s \<Rightarrow> (SeriesRef \<Rightarrow> bool) \<Rightarrow> u64 set" where
  "those s P \<equiv> {i. \<exists>ref. series s i = Some ref \<and> P ref}"

lemma union_those:
  assumes "good s"
  shows "ascending (index_union (lk s) k p)"
    "set (index_union (lk s) k p) = those s (\<lambda>ref. \<exists>v. carries ref k v \<and> GlobMatch p v)"
proof -
  let ?ls = "map (lk_Postings (lk s) k) (filter (GlobMatch p) (lk_TagValues (lk s) k))"
  have "list_all ascending ?ls" using Postings_law [OF assms] by (simp add: list_all_iff)
  note m = merge_set [OF this]
  show "ascending (index_union (lk s) k p)" unfolding index_union_def by (rule m(1))
  have "set (index_union (lk s) k p) = (\<Union>v \<in> {v. (\<exists>i ref. series s i = Some ref \<and> carries ref k v) \<and> GlobMatch p v}.
      {i. \<exists>ref. series s i = Some ref \<and> carries ref k v})"
    unfolding index_union_def m(2) using Postings_law [OF assms] TagValues_law [OF assms] by simp
  then show "set (index_union (lk s) k p) = those s (\<lambda>ref. \<exists>v. carries ref k v \<and> GlobMatch p v)" by blast
qed

lemma matcher_those:
  assumes "good s"
  shows "ascending (matcher_list (lk s) m)"
    "set (matcher_list (lk s) m) = those s (\<lambda>ref. \<exists>v. carries ref (m_Key m) v \<and> value_test m v)"
  using Postings_law [OF assms(1)] union_those [OF assms(1)] by (auto simp: value_test_def matcher_list_def)

lemma positive_those:
  assumes "good s" "plain_selector sel" "\<forall>i ref. series s i = Some ref \<longrightarrow> no_pseudo ref"
  shows "list_all ascending (positive_lists (lk s) sel)"
    "series s i = Some ref \<Longrightarrow> (\<forall>l \<in> set (positive_lists (lk s) sel). i \<in> set l) \<longleftrightarrow>
       (sel_Metric sel = [] \<or> ref_Metric ref = sel_Metric sel) \<and>
       (\<forall>m \<in> set (sel_Matchers sel). m_Type m = Equal \<or> m_Type m = Wildcard \<longrightarrow> matcher_Matches m (ref_Tags ref))"
    "l \<in> set (positive_lists (lk s) sel) \<Longrightarrow> set l \<subseteq> dom (series s)"
proof -
  let ?L = "matcher_list (lk s)"
  let ?pos = "{m \<in> set (sel_Matchers sel). m_Type m = Equal \<or> m_Type m = Wildcard}"
  have lists: "set (positive_lists (lk s) sel) =
      (if sel_Metric sel \<noteq> [] then {lk_Postings (lk s) MetricName (sel_Metric sel)} else {}) \<union> ?L ` ?pos"
    by (force simp: positive_lists_def matcher_list_def List.map_filter_def image_iff split: MatchType.splits)
  show "list_all ascending (positive_lists (lk s) sel)"
    unfolding list_all_iff lists using Postings_law [OF assms(1)] matcher_those(1) [OF assms(1)] by auto
  show "l \<in> set (positive_lists (lk s) sel) \<Longrightarrow> set l \<subseteq> dom (series s)"
    unfolding lists using Postings_law [OF assms(1)] matcher_those(2) [OF assms(1)] by (auto split: if_splits)
  assume ref: "series s i = Some ref"
  have metric: "i \<in> set (lk_Postings (lk s) MetricName (sel_Metric sel)) \<longleftrightarrow> ref_Metric ref = sel_Metric sel"
    using Postings_law [OF assms(1)] ref assms(3) [rule_format, OF ref] by (auto simp: carries_def no_pseudo_def list_all_iff)
  have "i \<in> set (?L m) \<longleftrightarrow> matcher_Matches m (ref_Tags ref)" if "m \<in> ?pos" for m
  proof -
    have "m_Key m \<noteq> MetricName" using assms(2) that by (simp add: plain_selector_def list_all_iff)
    from matcher_Matches_carries [OF this] that show ?thesis
      unfolding matcher_those(2) [OF assms(1)] using ref by auto
  qed
  with metric show "(\<forall>l \<in> set (positive_lists (lk s) sel). i \<in> set l) \<longleftrightarrow>
       (sel_Metric sel = [] \<or> ref_Metric ref = sel_Metric sel) \<and>
       (\<forall>m \<in> set (sel_Matchers sel). m_Type m = Equal \<or> m_Type m = Wildcard \<longrightarrow> matcher_Matches m (ref_Tags ref))"
    unfolding lists by (auto split: if_splits)
qed

lemma subtract_those:
  assumes "good s" "ascending ids" "\<forall>m \<in> set ms. m_Type m = NotEqual \<or> m_Type m = NotWildcard"
  shows "ascending (fold (subtract_matcher (lk s)) ms ids) \<and> set (fold (subtract_matcher (lk s)) ms ids) =
    {i \<in> set ids. \<forall>m \<in> set ms. i \<notin> those s (\<lambda>ref. \<exists>v. carries ref (m_Key m) v \<and> value_test m v)}"
  using assms(2,3)
proof (induction ms arbitrary: ids)
  case (Cons m ms)
  let ?T = "those s (\<lambda>ref. \<exists>v. carries ref (m_Key m) v \<and> value_test m v)"
  have "subtract_matcher (lk s) m ids = filter (\<lambda>i. i \<notin> ?T) ids"
    using Cons.prems matcher_those [OF assms(1), of m]
    by (auto simp: subtract_matcher_def matcher_list_def subtract_filter)
  with Cons.IH [of "filter (\<lambda>i. i \<notin> ?T) ids"] Cons.prems show ?case by auto
qed simp

theorem Select_those:
  assumes "good s" "plain_selector sel" "\<forall>i ref. series s i = Some ref \<longrightarrow> no_pseudo ref"
  shows "ascending (index_Select (lk s) sel)" "set (index_Select (lk s) sel) = those s (selects sel)"
proof -
  note pos = positive_those [OF assms]
  let ?ps = "sort_key length (positive_lists (lk s) sel)" and ?neg = "negative_matchers sel"
  define ids where "ids = (case (case ?ps of [] \<Rightarrow> Some (lk_AllSeries (lk s)) | p # ps \<Rightarrow> intersect_all p ps) of
    None \<Rightarrow> [] | Some r \<Rightarrow> r)"
  have ids: "ascending ids" "set ids = {i \<in> dom (series s). \<forall>l \<in> set (positive_lists (lk s) sel). i \<in> set l}"
  proof -
    have "ascending ids \<and> set ids = {i \<in> dom (series s). \<forall>l \<in> set ?ps. i \<in> set l}"
    proof (cases ?ps)
      case Nil
      then show ?thesis using AllSeries_law [OF assms(1)] by (simp add: ids_def)
    next
      case (Cons p ps)
      have "list_all ascending ?ps" using pos(1) by (simp add: list_all_iff)
      moreover have "p \<in> set (positive_lists (lk s) sel)" using Cons by (metis list.set_intros(1) set_sort)
      then have "set p \<subseteq> dom (series s)" by (rule pos(3))
      ultimately show ?thesis using intersect_all_set [of p ps] Cons by (auto simp: ids_def)
    qed
    then show "ascending ids" "set ids = {i \<in> dom (series s). \<forall>l \<in> set (positive_lists (lk s) sel). i \<in> set l}" by auto
  qed
  have neg: "\<forall>m \<in> set ?neg. m_Type m = NotEqual \<or> m_Type m = NotWildcard" by (simp add: negative_matchers_def)
  note sub = subtract_those [OF assms(1) ids(1) neg]
  have empty: "fold (subtract_matcher (lk s)) ?neg [] = []"
    using subtract_those [OF assms(1) _ neg, of "[]"] by simp
  then have sel: "index_Select (lk s) sel = fold (subtract_matcher (lk s)) ?neg ids"
    by (auto simp: index_Select_def ids_def split: option.split list.split)
  then show "ascending (index_Select (lk s) sel)" using sub by simp
  have found: "i \<in> set ids \<and> (\<forall>m \<in> set ?neg. i \<notin> those s (\<lambda>ref. \<exists>v. carries ref (m_Key m) v \<and> value_test m v)) \<longleftrightarrow>
      selects sel ref" if ref: "series s i = Some ref" for i ref
  proof -
    have "i \<notin> those s (\<lambda>ref. \<exists>v. carries ref (m_Key m) v \<and> value_test m v) \<longleftrightarrow> matcher_Matches m (ref_Tags ref)"
      if "m \<in> set ?neg" for m
    proof -
      have "m_Key m \<noteq> MetricName" using assms(2) that by (simp add: plain_selector_def negative_matchers_def list_all_iff)
      from matcher_Matches_carries [OF this] neg that
      have "matcher_Matches m (ref_Tags ref) \<longleftrightarrow> \<not> (\<exists>v. carries ref (m_Key m) v \<and> value_test m v)" by simp
      then show ?thesis using ref by simp
    qed
    then have "(\<forall>m \<in> set ?neg. i \<notin> those s (\<lambda>ref. \<exists>v. carries ref (m_Key m) v \<and> value_test m v)) \<longleftrightarrow>
        (\<forall>m \<in> set (sel_Matchers sel). m_Type m = NotEqual \<or> m_Type m = NotWildcard \<longrightarrow> matcher_Matches m (ref_Tags ref))"
      by (auto simp: negative_matchers_def)
    moreover have "i \<in> set ids \<longleftrightarrow> (\<forall>l \<in> set (positive_lists (lk s) sel). i \<in> set l)"
      using ref unfolding ids(2) by auto
    moreover have "(\<forall>m \<in> set (sel_Matchers sel). matcher_Matches m (ref_Tags ref)) \<longleftrightarrow>
        (\<forall>m \<in> set (sel_Matchers sel). m_Type m = Equal \<or> m_Type m = Wildcard \<longrightarrow> matcher_Matches m (ref_Tags ref)) \<and>
        (\<forall>m \<in> set (sel_Matchers sel). m_Type m = NotEqual \<or> m_Type m = NotWildcard \<longrightarrow> matcher_Matches m (ref_Tags ref))"
      using MatchType.exhaust by blast
    ultimately show ?thesis unfolding selects_def list_all_iff pos(2) [OF ref] by argo
  qed
  have mem: "i \<in> set (index_Select (lk s) sel) \<longleftrightarrow> i \<in> set ids \<and>
      (\<forall>m \<in> set ?neg. i \<notin> those s (\<lambda>ref. \<exists>v. carries ref (m_Key m) v \<and> value_test m v))" for i
    unfolding sel sub [THEN conjunct2] by (rule mem_Collect_eq)
  show "set (index_Select (lk s) sel) = those s (selects sel)"
  proof (rule set_eqI)
    fix i
    show "i \<in> set (index_Select (lk s) sel) \<longleftrightarrow> i \<in> those s (selects sel)"
    proof (cases "series s i")
      case None
      then have "i \<notin> set ids" unfolding ids(2) by auto
      then show ?thesis using None unfolding mem by simp
    next
      case (Some ref)
      then show ?thesis unfolding mem found [OF Some] by simp
    qed
  qed
qed

lemma Metrics_spec:
  assumes "good s" "\<forall>i ref. series s i = Some ref \<longrightarrow> no_pseudo ref"
  shows "sorted (index_Metrics (lk s) pre)" "distinct (index_Metrics (lk s) pre)"
    "set (index_Metrics (lk s) pre) = {ref_Metric ref | i ref. series s i = Some ref \<and> HasPrefix (ref_Metric ref) pre}"
proof -
  have "set (lk_TagValues (lk s) MetricName) = {ref_Metric ref | i ref. series s i = Some ref}"
    using TagValues_law [OF assms(1)] assms(2) by (fastforce simp: carries_def no_pseudo_def list_all_iff)
  moreover have "set (index_Metrics (lk s) pre) = {n \<in> set (lk_TagValues (lk s) MetricName). HasPrefix n pre}"
    unfolding index_Metrics_def set_sort set_filter by (cases "pre = []") (simp_all add: HasPrefix_def)
  ultimately have eq: "set (index_Metrics (lk s) pre) = {n \<in> {ref_Metric ref | i ref. series s i = Some ref}. HasPrefix n pre}"
    by (simp only:)
  show "set (index_Metrics (lk s) pre) = {ref_Metric ref | i ref. series s i = Some ref \<and> HasPrefix (ref_Metric ref) pre}"
    unfolding eq by blast
  show "sorted (index_Metrics (lk s) pre)" "distinct (index_Metrics (lk s) pre)"
    using TagValues_law [OF assms(1)] by (simp_all add: index_Metrics_def)
qed

text \<open>The ids of one metric, or of all.\<close>

lemma metric_ids:
  assumes "good s" "\<forall>i ref. series s i = Some ref \<longrightarrow> no_pseudo ref"
  shows "set (lk_Postings (lk s) MetricName metric) = those s (\<lambda>ref. ref_Metric ref = metric)"
    "intersects (lk_Postings (lk s) k v) (lk_Postings (lk s) MetricName metric) \<longleftrightarrow>
      (\<exists>i ref. series s i = Some ref \<and> ref_Metric ref = metric \<and> carries ref k v)"
proof -
  show m: "set (lk_Postings (lk s) MetricName metric) = those s (\<lambda>ref. ref_Metric ref = metric)"
    using Postings_law [OF assms(1)] assms(2) by (fastforce simp: carries_def no_pseudo_def list_all_iff)
  show "intersects (lk_Postings (lk s) k v) (lk_Postings (lk s) MetricName metric) \<longleftrightarrow>
      (\<exists>i ref. series s i = Some ref \<and> ref_Metric ref = metric \<and> carries ref k v)"
    using intersects_iff Postings_law [OF assms(1)] m by fastforce
qed

lemma Keys_spec:
  assumes "good s" "\<forall>i ref. series s i = Some ref \<longrightarrow> no_pseudo ref"
  shows "sorted (index_Keys (lk s) metric)" "distinct (index_Keys (lk s) metric)"
    "set (index_Keys (lk s) metric) = {k. k \<noteq> MetricName \<and>
       (\<exists>v i ref. series s i = Some ref \<and> (metric = [] \<or> ref_Metric ref = metric) \<and> carries ref k v)}"
proof -
  show "sorted (index_Keys (lk s) metric)" "distinct (index_Keys (lk s) metric)"
    using TagKeys_law [OF assms(1)] by (simp_all add: index_Keys_def Let_def)
  have ex: "list_ex (\<lambda>v. intersects (lk_Postings (lk s) k v) (lk_Postings (lk s) MetricName metric)) (lk_TagValues (lk s) k) \<longleftrightarrow>
      (\<exists>v i ref. series s i = Some ref \<and> ref_Metric ref = metric \<and> carries ref k v)" for k
    unfolding list_ex_iff metric_ids(2) [OF assms] using TagValues_law [OF assms(1)] by auto
  have "lk_Postings (lk s) MetricName metric = [] \<longleftrightarrow> those s (\<lambda>ref. ref_Metric ref = metric) = {}"
    unfolding metric_ids(1) [OF assms, symmetric] by simp
  then show "set (index_Keys (lk s) metric) = {k. k \<noteq> MetricName \<and>
       (\<exists>v i ref. series s i = Some ref \<and> (metric = [] \<or> ref_Metric ref = metric) \<and> carries ref k v)}"
    using TagKeys_law [OF assms(1)] unfolding index_Keys_def Let_def ex by (cases "metric = []") auto
qed

lemma Values_spec:
  assumes "good s" "\<forall>i ref. series s i = Some ref \<longrightarrow> no_pseudo ref"
  shows "sorted (index_Values (lk s) metric key)" "distinct (index_Values (lk s) metric key)"
    "set (index_Values (lk s) metric key) =
       {v. \<exists>i ref. series s i = Some ref \<and> (metric = [] \<or> ref_Metric ref = metric) \<and> carries ref key v}"
proof -
  show "sorted (index_Values (lk s) metric key)" "distinct (index_Values (lk s) metric key)"
    using TagValues_law [OF assms(1)] by (simp_all add: index_Values_def Let_def)
  have "lk_Postings (lk s) MetricName metric = [] \<longleftrightarrow> those s (\<lambda>ref. ref_Metric ref = metric) = {}"
    unfolding metric_ids(1) [OF assms, symmetric] by simp
  then show "set (index_Values (lk s) metric key) =
       {v. \<exists>i ref. series s i = Some ref \<and> (metric = [] \<or> ref_Metric ref = metric) \<and> carries ref key v}"
    using TagValues_law [OF assms(1)] unfolding index_Values_def Let_def metric_ids(2) [OF assms]
    by (cases "metric = []") auto
qed

end

end
