(* ===== verification/Mem_Postings.thy ===== *)
theory Mem_Postings
  imports Index_Lookup "HOL-Library.AList"
begin

text \<open>
  The inverted index in memory (\<open>MemPostings\<close> in \<open>internal/tsdb/index/index.go\<close>): for every pair of
  key and value, the sorted ids of the series that carry it. Go maps are association lists; the
  order in which Go iterates over a map is left open by the parameter \<open>ord\<close>.
\<close>

section \<open>Operations\<close>

record MemPostings =
  p_m :: "(string \<times> (string \<times> u64 list) list) list"
  p_all :: "u64 list"

definition NewMemPostings :: MemPostings where
  "NewMemPostings = \<lparr>p_m = [], p_all = []\<rparr>"

text \<open>Indexing a missing key of a Go map gives the zero value, here the empty list.\<close>

definition at :: "('k \<times> 'v list) list \<Rightarrow> 'k \<Rightarrow> 'v list" where
  "at m k = (case map_of m k of None \<Rightarrow> [] | Some v \<Rightarrow> v)"

definition postings_add :: "string \<Rightarrow> string \<Rightarrow> u64 \<Rightarrow> MemPostings \<Rightarrow> MemPostings" where
  "postings_add key val i p =
     (let vals = at (p_m p) key
      in p\<lparr>p_m := AList.update key (AList.update val (appendSorted (at vals val) i) vals) (p_m p)\<rparr>)"

definition postings_Add :: "u64 \<Rightarrow> SeriesRef \<Rightarrow> MemPostings \<Rightarrow> MemPostings" where
  "postings_Add i s p =
     (let p1 = postings_add MetricName (ref_Metric s) i p;
          p2 = fold (\<lambda>t. postings_add (tag_Key t) (tag_Value t) i) (ref_Tags s) p1
      in p2\<lparr>p_all := appendSorted (p_all p2) i\<rparr>)"

definition postings_remove :: "string \<Rightarrow> string \<Rightarrow> u64 \<Rightarrow> MemPostings \<Rightarrow> MemPostings" where
  "postings_remove key val i p =
     (case map_of (p_m p) key of
        None \<Rightarrow> p
      | Some vals \<Rightarrow>
          let list = removeID (at vals val) i
          in if list = []
             then let vals' = AList.delete val vals
                  in if vals' = [] then p\<lparr>p_m := AList.delete key (p_m p)\<rparr>
                     else p\<lparr>p_m := AList.update key vals' (p_m p)\<rparr>
             else p\<lparr>p_m := AList.update key (AList.update val list vals) (p_m p)\<rparr>)"

definition postings_Delete :: "u64 \<Rightarrow> SeriesRef \<Rightarrow> MemPostings \<Rightarrow> MemPostings" where
  "postings_Delete i s p =
     (let p1 = postings_remove MetricName (ref_Metric s) i p;
          p2 = fold (\<lambda>t. postings_remove (tag_Key t) (tag_Value t) i) (ref_Tags s) p1
      in p2\<lparr>p_all := removeID (p_all p2) i\<rparr>)"

definition postings_Size :: "MemPostings \<Rightarrow> nat \<times> nat" where
  "postings_Size p = (length (p_all p), sum_list (map (\<lambda>(_, vals). length vals) (p_m p)))"

definition postings_Postings :: "MemPostings \<Rightarrow> string \<Rightarrow> string \<Rightarrow> u64 list" where
  "postings_Postings p key val = at (at (p_m p) key) val"

definition postings_TagValues :: "(string list \<Rightarrow> string list) \<Rightarrow> MemPostings \<Rightarrow> string \<Rightarrow> string list" where
  "postings_TagValues ord p key = (case map_of (p_m p) key of None \<Rightarrow> [] | Some vals \<Rightarrow> ord (map fst vals))"

definition postings_TagKeys :: "(string list \<Rightarrow> string list) \<Rightarrow> MemPostings \<Rightarrow> string list" where
  "postings_TagKeys ord p = ord (map fst (p_m p))"

definition mem_Lookup :: "(string list \<Rightarrow> string list) \<Rightarrow> MemPostings \<Rightarrow> Lookup" where
  "mem_Lookup ord p = \<lparr>lk_Postings = postings_Postings p, lk_TagValues = postings_TagValues ord p,
     lk_TagKeys = postings_TagKeys ord p, lk_AllSeries = p_all p\<rparr>"

section \<open>The invariant\<close>

text \<open>Lists are sorted and no container is empty.\<close>

definition tidy :: "MemPostings \<Rightarrow> bool" where
  "tidy p \<longleftrightarrow> distinct (map fst (p_m p)) \<and>
     (\<forall>k vals. map_of (p_m p) k = Some vals \<longrightarrow> vals \<noteq> [] \<and> distinct (map fst vals) \<and>
        (\<forall>v l. map_of vals v = Some l \<longrightarrow> l \<noteq> [] \<and> ascending l))"

text \<open>The index holds exactly the series of \<open>R\<close>.\<close>

definition indexes :: "MemPostings \<Rightarrow> (u64 \<Rightarrow> SeriesRef option) \<Rightarrow> bool" where
  "indexes p R \<longleftrightarrow> tidy p \<and> ascending (p_all p) \<and> set (p_all p) = dom R \<and>
     (\<forall>k v. set (postings_Postings p k v) = {i. \<exists>ref. R i = Some ref \<and> carries ref k v})"

lemma tidyD:
  assumes "tidy p" "map_of (p_m p) k = Some vals"
  shows "vals \<noteq> []" "distinct (map fst vals)" "map_of vals v = Some l \<Longrightarrow> l \<noteq> [] \<and> ascending l"
  using assms unfolding tidy_def by blast+

lemma at_update [simp]: "at (AList.update k x m) k' = (if k' = k then x else at m k')"
  by (simp add: at_def update_conv')

lemma at_delete [simp]: "at (AList.delete k m) k' = (if k' = k then [] else at m k')"
  by (simp add: at_def delete_conv')

lemma tidy_ascending: "tidy p \<Longrightarrow> ascending (postings_Postings p k v)"
  by (auto simp: postings_Postings_def at_def tidy_def split: option.splits)

lemma appendSorted_ne [simp]: "appendSorted l i \<noteq> []"
  by (auto simp: appendSorted_def Let_def)

lemma update_ne [simp]: "AList.update k v m \<noteq> []"
  by (cases m) auto

lemma postings_add_keeps:
  assumes "tidy p"
  shows "tidy (postings_add k v i p)" "p_all (postings_add k v i p) = p_all p"
    "set (postings_Postings (postings_add k v i p) k' v') =
      (if k' = k \<and> v' = v then insert i (set (postings_Postings p k' v')) else set (postings_Postings p k' v'))"
proof -
  let ?vals = "at (p_m p) k"
  have vals: "distinct (map fst ?vals)" "\<And>w l. map_of ?vals w = Some l \<Longrightarrow> l \<noteq> [] \<and> ascending l"
    using tidyD [OF assms, of k] by (cases "map_of (p_m p) k"; simp add: at_def)+
  have asc: "ascending (at ?vals v)" using tidy_ascending [OF assms, of k v] by (simp add: postings_Postings_def)
  let ?new = "AList.update v (appendSorted (at ?vals v) i) ?vals"
  have new: "distinct (map fst ?new)" "\<And>w l. map_of ?new w = Some l \<Longrightarrow> l \<noteq> [] \<and> ascending l"
    using vals appendSorted_set(1) [OF asc] by (auto simp: distinct_update update_conv' split: if_splits)
  show "tidy (postings_add k v i p)" unfolding tidy_def
  proof (intro conjI allI impI)
    show "distinct (map fst (p_m (postings_add k v i p)))"
      using assms by (simp add: tidy_def postings_add_def Let_def distinct_update)
    fix k' vals'
    assume "map_of (p_m (postings_add k v i p)) k' = Some vals'"
    then have *: "k' = k \<and> vals' = ?new \<or> map_of (p_m p) k' = Some vals'"
      by (auto simp: postings_add_def Let_def update_conv' split: if_splits)
    have "?new \<noteq> []" by simp
    then show "vals' \<noteq> []" "distinct (map fst vals')" using * new tidyD [OF assms] by metis+
    fix w l
    assume "map_of vals' w = Some l"
    then show "l \<noteq> []" "ascending l" using * new tidyD [OF assms] by blast+
  qed
  show "p_all (postings_add k v i p) = p_all p" by (simp add: postings_add_def Let_def)
  show "set (postings_Postings (postings_add k v i p) k' v') =
      (if k' = k \<and> v' = v then insert i (set (postings_Postings p k' v')) else set (postings_Postings p k' v'))"
    using appendSorted_set(2) [OF asc] by (auto simp: postings_Postings_def postings_add_def Let_def)
qed

lemma postings_remove_keeps:
  assumes "tidy p"
  shows "tidy (postings_remove k v i p)" "p_all (postings_remove k v i p) = p_all p"
    "set (postings_Postings (postings_remove k v i p) k' v') =
      (if k' = k \<and> v' = v then set (postings_Postings p k' v') - {i} else set (postings_Postings p k' v'))"
proof -
  have "tidy (postings_remove k v i p) \<and> p_all (postings_remove k v i p) = p_all p \<and>
    set (postings_Postings (postings_remove k v i p) k' v') =
      (if k' = k \<and> v' = v then set (postings_Postings p k' v') - {i} else set (postings_Postings p k' v'))"
  proof (cases "map_of (p_m p) k")
    case None
    then show ?thesis using assms by (simp add: postings_remove_def postings_Postings_def at_def)
  next
    case (Some vals)
    note vals = tidyD [OF assms Some]
    let ?l = "removeID (at vals v) i"
    have asc: "ascending (at vals v)" using vals(3) by (auto simp: at_def split: option.splits)
    have l: "?l = filter (\<lambda>j. j \<noteq> i) (at vals v)" by (rule removeID_filter [OF asc])
    then have set: "set ?l = set (at vals v) - {i}" and ascl: "ascending ?l" using asc by auto
    define vals' where "vals' = (if ?l = [] then AList.delete v vals else AList.update v ?l vals)"
    have "at vals' w = (if w = v then ?l else at vals w)" for w by (simp add: vals'_def)
    then have at': "set (at vals' w) = (if w = v then set (at vals v) - {i} else set (at vals w))" for w
      unfolding set [symmetric] by simp
    have vals': "distinct (map fst vals')" using vals(2) by (simp add: vals'_def distinct_update distinct_delete)
    have lists': "x \<noteq> [] \<and> ascending x" if "map_of vals' w = Some x" for w x
    proof -
      have "w = v \<and> x = ?l \<and> ?l \<noteq> [] \<or> map_of vals w = Some x"
        using that unfolding vals'_def by (simp add: update_conv' delete_conv' split: if_splits)
      then show ?thesis using ascl vals(3) by metis
    qed
    define m' where "m' = (if vals' = [] then AList.delete k (p_m p) else AList.update k vals' (p_m p))"
    have eq: "postings_remove k v i p = p\<lparr>p_m := m'\<rparr>"
      using Some by (auto simp: postings_remove_def m'_def vals'_def Let_def)
    have atm: "at m' k' = (if k' = k then vals' else at (p_m p) k')" for k' by (simp add: m'_def)
    have mem: "vals'' \<noteq> [] \<and> distinct (map fst vals'') \<and> (\<forall>w x. map_of vals'' w = Some x \<longrightarrow> x \<noteq> [] \<and> ascending x)"
      if "map_of m' k' = Some vals''" for k' vals''
    proof -
      have "k' = k \<and> vals'' = vals' \<and> vals' \<noteq> [] \<or> map_of (p_m p) k' = Some vals''"
        using that by (auto simp: m'_def update_conv' delete_conv' split: if_splits)
      then show ?thesis using vals' lists' tidyD [OF assms] by metis
    qed
    have "distinct (map fst m')" using assms by (simp add: m'_def tidy_def distinct_update distinct_delete)
    with mem have "tidy (p\<lparr>p_m := m'\<rparr>)" by (simp add: tidy_def)
    moreover have "at (p_m p) k = vals" using Some by (simp add: at_def)
    ultimately show ?thesis unfolding eq using at' by (simp add: postings_Postings_def atm)
  qed
  then show "tidy (postings_remove k v i p)" "p_all (postings_remove k v i p) = p_all p"
    "set (postings_Postings (postings_remove k v i p) k' v') =
      (if k' = k \<and> v' = v then set (postings_Postings p k' v') - {i} else set (postings_Postings p k' v'))" by blast+
qed

text \<open>The loops over the tags.\<close>

lemma fold_add_keeps:
  assumes "tidy p"
  shows "tidy (fold (\<lambda>t. postings_add (tag_Key t) (tag_Value t) i) ts p) \<and>
    p_all (fold (\<lambda>t. postings_add (tag_Key t) (tag_Value t) i) ts p) = p_all p \<and>
    set (postings_Postings (fold (\<lambda>t. postings_add (tag_Key t) (tag_Value t) i) ts p) k v) =
      set (postings_Postings p k v) \<union> (if \<exists>t \<in> set ts. tag_Key t = k \<and> tag_Value t = v then {i} else {})"
  using assms by (induction ts arbitrary: p) (auto simp: postings_add_keeps)

lemma fold_remove_keeps:
  assumes "tidy p"
  shows "tidy (fold (\<lambda>t. postings_remove (tag_Key t) (tag_Value t) i) ts p) \<and>
    p_all (fold (\<lambda>t. postings_remove (tag_Key t) (tag_Value t) i) ts p) = p_all p \<and>
    set (postings_Postings (fold (\<lambda>t. postings_remove (tag_Key t) (tag_Value t) i) ts p) k v) =
      set (postings_Postings p k v) - (if \<exists>t \<in> set ts. tag_Key t = k \<and> tag_Value t = v then {i} else {})"
  using assms by (induction ts arbitrary: p) (auto simp: postings_remove_keeps)

lemma indexes_New: "indexes NewMemPostings Map.empty"
  by (simp add: indexes_def tidy_def NewMemPostings_def postings_Postings_def at_def)

lemma indexes_Add:
  assumes "indexes p R" "R i = None \<or> R i = Some s"
  shows "indexes (postings_Add i s p) (R(i \<mapsto> s))"
proof -
  have t: "tidy p" "ascending (p_all p)" "set (p_all p) = dom R" using assms(1) by (simp_all add: indexes_def)
  define p1 where "p1 = postings_add MetricName (ref_Metric s) i p"
  define p2 where "p2 = fold (\<lambda>t. postings_add (tag_Key t) (tag_Value t) i) (ref_Tags s) p1"
  note a = postings_add_keeps [OF t(1), of MetricName "ref_Metric s" i, folded p1_def]
  note b = fold_add_keeps [OF a(1), of i "ref_Tags s", folded p2_def]
  have eq: "postings_Add i s p = p2\<lparr>p_all := appendSorted (p_all p2) i\<rparr>"
    by (simp add: postings_Add_def p1_def p2_def Let_def)
  have "set (postings_Postings p2 k v) = {j. \<exists>ref. (R(i \<mapsto> s)) j = Some ref \<and> carries ref k v}" for k v
  proof -
    have "set (postings_Postings p2 k v) = set (postings_Postings p k v) \<union> (if carries s k v then {i} else {})"
      using a(3) [of k v] b by (auto simp: carries_def)
    then show ?thesis using assms by (auto simp: indexes_def)
  qed
  then show ?thesis using t a(2) b appendSorted_set [OF t(2), of i]
    by (simp add: eq indexes_def tidy_def postings_Postings_def)
qed

lemma indexes_Delete:
  assumes "indexes p R" "R i = Some s"
  shows "indexes (postings_Delete i s p) (R(i := None))"
proof -
  have t: "tidy p" "ascending (p_all p)" "set (p_all p) = dom R" using assms(1) by (simp_all add: indexes_def)
  define p1 where "p1 = postings_remove MetricName (ref_Metric s) i p"
  define p2 where "p2 = fold (\<lambda>t. postings_remove (tag_Key t) (tag_Value t) i) (ref_Tags s) p1"
  note a = postings_remove_keeps [OF t(1), of MetricName "ref_Metric s" i, folded p1_def]
  note b = fold_remove_keeps [OF a(1), of i "ref_Tags s", folded p2_def]
  have eq: "postings_Delete i s p = p2\<lparr>p_all := removeID (p_all p2) i\<rparr>"
    by (simp add: postings_Delete_def p1_def p2_def Let_def)
  have "set (postings_Postings p2 k v) = {j. \<exists>ref. (R(i := None)) j = Some ref \<and> carries ref k v}" for k v
  proof -
    have "set (postings_Postings p2 k v) = set (postings_Postings p k v) - (if carries s k v then {i} else {})"
      using a(3) [of k v] b by (auto simp: carries_def)
    then show ?thesis using assms by (auto simp: indexes_def)
  qed
  then show ?thesis using t a(2) b
    by (auto simp: eq indexes_def tidy_def postings_Postings_def removeID_filter)
qed

section \<open>The contract\<close>

text \<open>An iteration order of Go maps: some permutation.\<close>

definition reorders :: "('a list \<Rightarrow> 'a list) \<Rightarrow> bool" where
  "reorders ord \<longleftrightarrow> (\<forall>xs. mset (ord xs) = mset xs)"

lemma reordersD: "reorders ord \<Longrightarrow> set (ord xs) = set xs \<and> (distinct (ord xs) \<longleftrightarrow> distinct xs)"
  unfolding reorders_def by (metis mset_eq_setD mset_eq_imp_distinct_iff)

lemma indexed_pair:
  assumes "indexes p R"
  shows "(\<exists>vals l. map_of (p_m p) k = Some vals \<and> map_of vals v = Some l) \<longleftrightarrow> (\<exists>i ref. R i = Some ref \<and> carries ref k v)"
proof -
  have t: "tidy p" and s: "set (postings_Postings p k v) = {i. \<exists>ref. R i = Some ref \<and> carries ref k v}"
    using assms by (simp_all add: indexes_def)
  have "(\<exists>vals l. map_of (p_m p) k = Some vals \<and> map_of vals v = Some l) \<longleftrightarrow> postings_Postings p k v \<noteq> []"
    using tidyD(3) [OF t, of k _ v] by (auto simp: postings_Postings_def at_def split: option.splits)
  also have "\<dots> \<longleftrightarrow> {i. \<exists>ref. R i = Some ref \<and> carries ref k v} \<noteq> {}" unfolding s [symmetric] by simp
  finally show ?thesis by blast
qed

lemma indexed_key:
  assumes "indexes p R"
  shows "(\<exists>vals. map_of (p_m p) k = Some vals) \<longleftrightarrow> (\<exists>v i ref. R i = Some ref \<and> carries ref k v)"
proof -
  have "\<exists>v l. map_of vals v = Some l" if "map_of (p_m p) k = Some vals" for vals
  proof -
    have "vals \<noteq> []" using tidyD(1) [OF _ that] assms by (simp add: indexes_def)
    then show ?thesis by (cases vals) auto
  qed
  then have "(\<exists>vals. map_of (p_m p) k = Some vals) \<longleftrightarrow> (\<exists>v vals l. map_of (p_m p) k = Some vals \<and> map_of vals v = Some l)"
    by blast
  then show ?thesis unfolding indexed_pair [OF assms] .
qed

lemma mem_laws:
  assumes r: "reorders ord" and i: "indexes p R"
  shows "ascending (lk_Postings (mem_Lookup ord p) k v) \<and>
      set (lk_Postings (mem_Lookup ord p) k v) = {i. \<exists>ref. R i = Some ref \<and> carries ref k v}"
    and "distinct (lk_TagValues (mem_Lookup ord p) k) \<and>
      set (lk_TagValues (mem_Lookup ord p) k) = {v. \<exists>i ref. R i = Some ref \<and> carries ref k v}"
    and "distinct (lk_TagKeys (mem_Lookup ord p)) \<and>
      set (lk_TagKeys (mem_Lookup ord p)) = {k. \<exists>v i ref. R i = Some ref \<and> carries ref k v}"
    and "ascending (lk_AllSeries (mem_Lookup ord p)) \<and> set (lk_AllSeries (mem_Lookup ord p)) = dom R"
proof -
  have t: "tidy p" using i by (simp add: indexes_def)
  show "ascending (lk_Postings (mem_Lookup ord p) k v) \<and>
      set (lk_Postings (mem_Lookup ord p) k v) = {i. \<exists>ref. R i = Some ref \<and> carries ref k v}"
    using i tidy_ascending [OF t] by (simp add: mem_Lookup_def indexes_def)
  have "set (postings_TagValues ord p k) = {v. \<exists>vals l. map_of (p_m p) k = Some vals \<and> map_of vals v = Some l}"
  proof (cases "map_of (p_m p) k")
    case (Some vals)
    have "set (postings_TagValues ord p k) = dom (map_of vals)"
      using reordersD [OF r] Some by (simp add: postings_TagValues_def dom_map_of_conv_image_fst)
    with Some show ?thesis by (simp add: dom_def)
  qed (simp add: postings_TagValues_def)
  moreover have "distinct (postings_TagValues ord p k)"
    using reordersD [OF r] tidyD(2) [OF t] by (auto simp: postings_TagValues_def split: option.splits)
  ultimately show "distinct (lk_TagValues (mem_Lookup ord p) k) \<and>
      set (lk_TagValues (mem_Lookup ord p) k) = {v. \<exists>i ref. R i = Some ref \<and> carries ref k v}"
    unfolding indexed_pair [OF i] by (simp add: mem_Lookup_def)
  have "set (postings_TagKeys ord p) = {k. \<exists>vals. map_of (p_m p) k = Some vals}"
    using reordersD [OF r] dom_map_of_conv_image_fst [of "p_m p"] by (simp add: postings_TagKeys_def dom_def)
  moreover have "distinct (postings_TagKeys ord p)" using reordersD [OF r] t by (simp add: postings_TagKeys_def tidy_def)
  ultimately show "distinct (lk_TagKeys (mem_Lookup ord p)) \<and>
      set (lk_TagKeys (mem_Lookup ord p)) = {k. \<exists>v i ref. R i = Some ref \<and> carries ref k v}"
    unfolding indexed_key [OF i] by (simp add: mem_Lookup_def)
  show "ascending (lk_AllSeries (mem_Lookup ord p)) \<and> set (lk_AllSeries (mem_Lookup ord p)) = dom R"
    using i by (simp add: mem_Lookup_def indexes_def)
qed

interpretation mp: lookup_index "\<lambda>(ord, p, R). mem_Lookup ord p" "\<lambda>(ord, p, R). reorders ord \<and> indexes p R" "\<lambda>(ord, p, R). R"
proof (unfold_locales, goal_cases)
  case (1 s k v)
  then show ?case using mem_laws(1) by (cases s) auto
next
  case (2 s k)
  then show ?case using mem_laws(2) by (cases s) auto
next
  case (3 s)
  then show ?case using mem_laws(3) by (cases s) auto
next
  case (4 s)
  then show ?case using mem_laws(4) by (cases s) auto
qed

section \<open>Properties\<close>

text \<open>An index together with the series it was given and not yet told to forget.\<close>

inductive builds :: "MemPostings \<Rightarrow> (u64 \<Rightarrow> SeriesRef option) \<Rightarrow> bool" where
  builds_new: "builds NewMemPostings Map.empty"
| builds_add: "builds p R \<Longrightarrow> R i = None \<or> R i = Some s \<Longrightarrow> builds (postings_Add i s p) (R(i \<mapsto> s))"
| builds_delete: "builds p R \<Longrightarrow> R i = Some s \<Longrightarrow> builds (postings_Delete i s p) (R(i := None))"

lemma builds_indexes: "builds p R \<Longrightarrow> indexes p R"
  by (induction rule: builds.induct) (blast intro: indexes_New indexes_Add indexes_Delete)+

lemma builds_example:
  "builds (postings_Add 2 (NewSeriesRef ''mem'' [''env:dev'']) (postings_Add 1 (NewSeriesRef ''cpu'' [''env:prod'']) NewMemPostings))
     [1 \<mapsto> NewSeriesRef ''cpu'' [''env:prod''], 2 \<mapsto> NewSeriesRef ''mem'' [''env:dev'']]"
proof -
  have "builds (postings_Add 1 (NewSeriesRef ''cpu'' [''env:prod'']) NewMemPostings) [1 \<mapsto> NewSeriesRef ''cpu'' [''env:prod'']]"
    by (rule builds_add [OF builds_new]) simp
  then show ?thesis by (rule builds_add) simp
qed

lemma example_no_pseudo:
  "\<forall>i ref. [1 :: u64 \<mapsto> NewSeriesRef ''cpu'' [''env:prod''], 2 \<mapsto> NewSeriesRef ''mem'' [''env:dev'']] i = Some ref \<longrightarrow> no_pseudo ref"
proof -
  have "no_pseudo (NewSeriesRef ''cpu'' [''env:prod''])" "no_pseudo (NewSeriesRef ''mem'' [''env:dev''])" by code_simp+
  then show ?thesis by (simp split: if_splits)
qed

text \<open>C13: Selection by postings lists is selection by matching. Whatever series were added and
  deleted and however Go orders its maps, \<open>Select\<close> returns, sorted, exactly the ids of the series
  in the index that the selector matches, an empty metric matching every one.\<close>

theorem Select_refines:
  assumes "builds p R" and "reorders ord" and "plain_selector sel" and "\<forall>i ref. R i = Some ref \<longrightarrow> no_pseudo ref"
  shows "index_Select (mem_Lookup ord p) sel = sorted_list_of_set {i. \<exists>ref. R i = Some ref \<and> selects sel ref}"
proof -
  note s = mp.Select_those [of "(ord, p, R)" sel, simplified, OF conjI [OF assms(2) builds_indexes [OF assms(1)]] assms(3,4)]
  have "sorted (index_Select (mem_Lookup ord p) sel)" "distinct (index_Select (mem_Lookup ord p) sel)"
    using s(1) by (simp_all add: strict_sorted_iff)
  then show ?thesis unfolding s(2) [symmetric] by (simp add: sorted_list_of_set.idem_if_sorted_distinct)
qed

theorem Select_refines_witness:
  "let p = postings_Add 2 (NewSeriesRef ''mem'' [''env:dev'']) (postings_Add 1 (NewSeriesRef ''cpu'' [''env:prod'']) NewMemPostings);
     sel = \<lparr>sel_Metric = [], sel_Matchers = [\<lparr>m_Key = ''env'', m_Value = ''p*'', m_Type = NotWildcard\<rparr>]\<rparr>
   in index_Select (mem_Lookup rev p) sel = [2]"
proof -
  let ?sel = "\<lparr>sel_Metric = [], sel_Matchers = [\<lparr>m_Key = ''env'', m_Value = ''p*'', m_Type = NotWildcard\<rparr>]\<rparr>"
  let ?c = "NewSeriesRef ''cpu'' [''env:prod'']" and ?m = "NewSeriesRef ''mem'' [''env:dev'']"
  have m: "\<not> selects ?sel ?c" "selects ?sel ?m" by code_simp+
  have eq: "{i. \<exists>ref. [1 :: u64 \<mapsto> ?c, 2 \<mapsto> ?m] i = Some ref \<and> selects ?sel ref} = {2}"
    using m by (auto split: if_splits)
  have "plain_selector ?sel" by code_simp
  moreover have "reorders rev" by (simp add: reorders_def)
  ultimately show ?thesis using Select_refines [OF builds_example _ _ example_no_pseudo, of rev ?sel]
    unfolding eq Let_def by simp
qed

lemma sum_at: "distinct (map fst m) \<Longrightarrow> (\<Sum>k \<in> fst ` set m. length (at m k)) = sum_list (map (\<lambda>(_, v). length v) m)"
proof (induction m)
  case (Cons kv m)
  obtain k v where kv: "kv = (k, v)" by force
  have "(\<Sum>j \<in> fst ` set m. length (at (kv # m) j)) = (\<Sum>j \<in> fst ` set m. length (at m j))"
    using Cons.prems kv by (intro sum.cong) (auto simp: at_def)
  with Cons kv show ?case by (simp add: at_def)
qed simp

text \<open>C29: The index forgets what it is told to forget. The series count is the number of series and
  the pair count the number of pairs they carry, and an index whose series are all gone is the
  new, empty one: no container is left behind.\<close>

theorem index_leaves_nothing:
  assumes "builds p R"
  shows "postings_Size p = (card (dom R), card {(k, v). \<exists>i ref. R i = Some ref \<and> carries ref k v}) \<and>
    (R = Map.empty \<longrightarrow> p = NewMemPostings)"
proof -
  note i = builds_indexes [OF assms]
  then have t: "tidy p" "ascending (p_all p)" "set (p_all p) = dom R" by (simp_all add: indexes_def)
  have d: "distinct (map fst (p_m p))" using t(1) by (simp add: tidy_def)
  let ?pairs = "{(k, v). \<exists>i ref. R i = Some ref \<and> carries ref k v}"
  have "?pairs = (SIGMA k:fst ` set (p_m p). dom (map_of (at (p_m p) k)))"
    unfolding indexed_pair [OF i, symmetric] by (force simp: at_def dom_map_of_conv_image_fst [symmetric] dest: map_of_SomeD)
  also have "card \<dots> = (\<Sum>k \<in> fst ` set (p_m p). length (at (p_m p) k))"
  proof (subst card_SigmaI)
    show "(\<Sum>k \<in> fst ` set (p_m p). card (dom (map_of (at (p_m p) k)))) = (\<Sum>k \<in> fst ` set (p_m p). length (at (p_m p) k))"
    proof (rule sum.cong [OF refl])
      fix k assume "k \<in> fst ` set (p_m p)"
      then obtain vals where "map_of (p_m p) k = Some vals" by (metis dom_map_of_conv_image_fst domD)
      with tidyD(2) [OF t(1) this] show "card (dom (map_of (at (p_m p) k))) = length (at (p_m p) k)"
        by (simp add: at_def dom_map_of_conv_image_fst distinct_card flip: set_map)
    qed
  qed (auto simp: finite_dom_map_of)
  also have "\<dots> = sum_list (map (\<lambda>(_, vals). length vals) (p_m p))"
    by (rule sum_at [OF d])
  finally have "card ?pairs = sum_list (map (\<lambda>(_, vals). length vals) (p_m p))" .
  moreover have "card (dom R) = length (p_all p)" using t by (metis distinct_card strict_sorted_iff)
  moreover have "p = NewMemPostings" if "R = Map.empty"
  proof -
    have "dom (map_of (p_m p)) = {}" using indexed_key [OF i] that by (auto simp: dom_def)
    then have "p_m p = []" by (simp add: dom_map_of_conv_image_fst)
    moreover have "p_all p = []" using t(3) that by simp
    ultimately show ?thesis by (simp add: NewMemPostings_def)
  qed
  ultimately show ?thesis by (simp add: postings_Size_def)
qed

theorem index_leaves_nothing_witness:
  "postings_Delete 7 (NewSeriesRef ''cpu'' [''a:b'']) (postings_Add 7 (NewSeriesRef ''cpu'' [''a:b'']) NewMemPostings) = NewMemPostings"
proof -
  let ?s = "NewSeriesRef ''cpu'' [''a:b'']"
  have "builds (postings_Add 7 ?s NewMemPostings) [7 \<mapsto> ?s]" by (rule builds_add [OF builds_new]) simp
  then have "builds (postings_Delete 7 ?s (postings_Add 7 ?s NewMemPostings)) ([7 \<mapsto> ?s](7 := None))"
    by (rule builds_delete) simp
  from index_leaves_nothing [OF this] show ?thesis by simp
qed

text \<open>C31: Metadata. The tag keys and values reported for a metric, or for all metrics when it is
  empty, are those its series carry, sorted and each once; metric names are found by prefix.\<close>

theorem index_metadata:
  assumes "builds p R" and "reorders ord" and "\<forall>i ref. R i = Some ref \<longrightarrow> no_pseudo ref"
  shows "index_Keys (mem_Lookup ord p) metric = sorted_list_of_set {k. k \<noteq> MetricName \<and>
       (\<exists>v i ref. R i = Some ref \<and> (metric = [] \<or> ref_Metric ref = metric) \<and> carries ref k v)} \<and>
    index_Values (mem_Lookup ord p) metric key = sorted_list_of_set
       {v. \<exists>i ref. R i = Some ref \<and> (metric = [] \<or> ref_Metric ref = metric) \<and> carries ref key v} \<and>
    index_Metrics (mem_Lookup ord p) pre = sorted_list_of_set
       {ref_Metric ref | i ref. R i = Some ref \<and> HasPrefix (ref_Metric ref) pre}"
proof -
  have g: "reorders ord \<and> indexes p R" using assms builds_indexes by blast
  note k = mp.Keys_spec [of "(ord, p, R)", simplified, OF g assms(3)]
  note v = mp.Values_spec [of "(ord, p, R)", simplified, OF g assms(3)]
  note m = mp.Metrics_spec [of "(ord, p, R)", simplified, OF g assms(3)]
  show ?thesis unfolding k(3) [symmetric] v(3) [symmetric] m(3) [symmetric]
    using k(1,2) v(1,2) m(1,2) by (simp add: sorted_list_of_set.idem_if_sorted_distinct)
qed

theorem index_metadata_witness:
  "let p = postings_Add 2 (NewSeriesRef ''mem'' [''env:dev'']) (postings_Add 1 (NewSeriesRef ''cpu'' [''env:prod'']) NewMemPostings)
   in index_Values (mem_Lookup rev p) ''cpu'' ''env'' = [''prod'']"
proof -
  let ?c = "NewSeriesRef ''cpu'' [''env:prod'']" and ?m = "NewSeriesRef ''mem'' [''env:dev'']"
  have m: "ref_Metric ?c = ''cpu''" "ref_Metric ?m = ''mem''" "ref_Tags ?c = [\<lparr>tag_Key = ''env'', tag_Value = ''prod''\<rparr>]"
    by code_simp+
  have eq: "{v. \<exists>i ref. [1 :: u64 \<mapsto> ?c, 2 \<mapsto> ?m] i = Some ref \<and> (''cpu'' = [] \<or> ref_Metric ref = ''cpu'') \<and> carries ref ''env'' v} = {''prod''}"
  proof -
    have "(\<exists>i ref. [1 :: u64 \<mapsto> ?c, 2 \<mapsto> ?m] i = Some ref \<and> (''cpu'' = [] \<or> ref_Metric ref = ''cpu'') \<and> carries ref ''env'' v) \<longleftrightarrow> carries ?c ''env'' v" for v
      using m(1,2) by (auto split: if_splits intro: exI [of _ 1])
    then show ?thesis using m(3) by (auto simp: carries_def MetricName_def)
  qed
  have "reorders rev" by (simp add: reorders_def)
  from index_metadata [OF builds_example this example_no_pseudo, of "''cpu''" "''env''" "[]"] show ?thesis
    unfolding eq Let_def by simp
qed

end
