(* ===== verification/Go_Float.thy ===== *)
theory Go_Float
  imports Ozy_Prelude
begin

text \<open>
  The order of Go's \<open>float64\<close> on bit patterns: a NaN is not comparable, the two zeros are equal,
  and other values compare as sign and magnitude.
\<close>

definition f64_key :: "f64 \<Rightarrow> int" where
  "f64_key x = (let mag = uint (x AND 0x7fffffffffffffff) in if bit x 63 then - mag else mag)"

definition f64_less :: "f64 \<Rightarrow> f64 \<Rightarrow> bool" where
  "f64_less x y \<longleftrightarrow> \<not> f64_is_nan x \<and> \<not> f64_is_nan y \<and> f64_key x < f64_key y"

definition f64_le :: "f64 \<Rightarrow> f64 \<Rightarrow> bool" where
  "f64_le x y \<longleftrightarrow> \<not> f64_is_nan x \<and> \<not> f64_is_nan y \<and> f64_key x \<le> f64_key y"

definition f64_is_inf :: "f64 \<Rightarrow> bool" where
  "f64_is_inf x \<longleftrightarrow> f64_exponent x = 0x7ff \<and> f64_mantissa x = 0"

definition f64_nan :: f64 where "f64_nan = 0x7ff8000000000001"

lemma magnitude_bits:
  "x = y \<longleftrightarrow> (x :: f64) AND 0x7fffffffffffffff = y AND 0x7fffffffffffffff \<and> bit x 63 = bit y 63"
proof
  assume a: "x AND 0x7fffffffffffffff = y AND 0x7fffffffffffffff \<and> bit x 63 = bit y 63"
  have m: "(0x7fffffffffffffff :: f64) = mask 63" by (simp add: mask_eq_exp_minus_1)
  have "take_bit 63 x = take_bit 63 y" using a unfolding m take_bit_eq_mask by simp
  then have low: "n < 63 \<Longrightarrow> bit x n = bit y n" for n by (metis bit_take_bit_iff)
  show "x = y"
  proof (rule bit_word_eqI)
    fix n assume "n < LENGTH(64)"
    then have "n < 63 \<or> n = 63" by auto
    with low a show "bit x n = bit y n" by auto
  qed
qed simp

lemma signed_eq:
  "0 \<le> a \<Longrightarrow> 0 \<le> b \<Longrightarrow> (if p then - a else a) = (if q then - b else b) \<longleftrightarrow> a = b \<and> p = q \<or> a = 0 \<and> b = (0 :: int)"
  by auto

lemma f64_eq_key: "f64_eq x y \<longleftrightarrow> \<not> f64_is_nan x \<and> \<not> f64_is_nan y \<and> f64_key x = f64_key y"
proof -
  let ?m = "\<lambda>x :: f64. x AND 0x7fffffffffffffff"
  have z: "uint (?m x) = 0 \<longleftrightarrow> f64_is_zero x" "uint (?m y) = 0 \<longleftrightarrow> f64_is_zero y"
    by (simp_all add: f64_is_zero_def uint_0_iff)
  have "f64_key x = f64_key y \<longleftrightarrow> uint (?m x) = uint (?m y) \<and> bit x 63 = bit y 63 \<or> uint (?m x) = 0 \<and> uint (?m y) = 0"
    unfolding f64_key_def Let_def by (rule signed_eq) simp_all
  also have "\<dots> \<longleftrightarrow> x = y \<or> f64_is_zero x \<and> f64_is_zero y"
    unfolding z magnitude_bits [of x y] word_uint_eq_iff [of "?m x"] ..
  finally have "f64_key x = f64_key y \<longleftrightarrow> x = y \<or> f64_is_zero x \<and> f64_is_zero y" .
  then show ?thesis by (simp add: f64_eq_def)
qed

lemma f64_le_less_eq: "f64_le x y \<longleftrightarrow> f64_less x y \<or> f64_eq x y"
  by (auto simp: f64_le_def f64_less_def f64_eq_key)

end
