(* ===== verification/Monitor_State.thy ===== *)
theory Monitor_State
  imports Go_Float Go_Strings
begin

text \<open>
  The alert state machine of monitors (\<open>internal/monitor/state/state.go\<close>), the levels it compares
  with (\<open>internal/monitor/spec\<close>) and the evaluation step over all groups of a monitor
  (\<open>internal/monitor/advance.go\<close>). A \<open>time.Time\<close> is the number of nanoseconds since the zero time
  and a \<open>time.Duration\<close> a number of nanoseconds; \<open>Sub\<close> saturates at the range of a duration.
\<close>

type_synonym gotime = int
type_synonym duration = int

definition time_Sub :: "gotime \<Rightarrow> gotime \<Rightarrow> duration" where
  "time_Sub a b = max (- (2 ^ 63)) (min (2 ^ 63 - 1) (a - b))"

section \<open>Levels\<close>

datatype Op = OpGT | OpGE | OpLT | OpLE | OpEQ | OpNE

definition op_Compare :: "Op \<Rightarrow> f64 \<Rightarrow> f64 \<Rightarrow> bool" where
  "op_Compare o1 v t =
     (case o1 of
        OpGT \<Rightarrow> f64_less t v
      | OpGE \<Rightarrow> f64_le t v
      | OpLT \<Rightarrow> f64_less v t
      | OpLE \<Rightarrow> f64_le v t
      | OpEQ \<Rightarrow> f64_eq v t
      | OpNE \<Rightarrow> \<not> f64_eq v t)"

definition Above :: "Op \<Rightarrow> bool" where
  "Above o1 \<longleftrightarrow> o1 = OpGT \<or> o1 = OpGE"

definition Below :: "Op \<Rightarrow> bool" where
  "Below o1 \<longleftrightarrow> o1 = OpLT \<or> o1 = OpLE"

record Thresholds =
  t_Critical :: "f64 option"
  t_Warning :: "f64 option"
  t_CriticalRecovery :: "f64 option"
  t_WarningRecovery :: "f64 option"

record Levels =
  lv_Op :: Op
  lv_Critical :: f64
  lv_CriticalRecovery :: f64
  lv_HasWarning :: bool
  lv_Warning :: f64
  lv_WarningRecovery :: f64

datatype level_error = NotFinite string | CriticalMismatch | RecoveryNeedsWarning | NoDirection
  | WarningPastCritical | CriticalRecoveryPast | WarningRecoveryPast

definition finite_check :: "string \<Rightarrow> f64 option \<Rightarrow> level_error list" where
  "finite_check name p =
     (case p of None \<Rightarrow> [] | Some x \<Rightarrow> if f64_is_nan x \<or> f64_is_inf x then [NotFinite name] else [])"

text \<open>The errors are collected and joined; a list of them, empty when the levels are accepted.\<close>

definition spec_levels :: "Op \<Rightarrow> f64 \<Rightarrow> Thresholds \<Rightarrow> Levels \<times> level_error list" where
  "spec_levels op threshold t =
     (let lv = \<lparr>lv_Op = op, lv_Critical = threshold,
                lv_CriticalRecovery = (case t_CriticalRecovery t of None \<Rightarrow> threshold | Some x \<Rightarrow> x),
                lv_HasWarning = (t_Warning t \<noteq> None),
                lv_Warning = (case t_Warning t of None \<Rightarrow> 0 | Some x \<Rightarrow> x),
                lv_WarningRecovery = (case t_WarningRecovery t of
                    None \<Rightarrow> (case t_Warning t of None \<Rightarrow> 0 | Some x \<Rightarrow> x) | Some x \<Rightarrow> x)\<rparr>;
          errs = finite_check ''critical'' (t_Critical t) @ finite_check ''warning'' (t_Warning t) @
            finite_check ''critical_recovery'' (t_CriticalRecovery t) @
            finite_check ''warning_recovery'' (t_WarningRecovery t) @
            (case t_Critical t of None \<Rightarrow> [] | Some c \<Rightarrow> if f64_eq c threshold then [] else [CriticalMismatch]) @
            (if t_WarningRecovery t \<noteq> None \<and> t_Warning t = None then [RecoveryNeedsWarning] else [])
      in if \<not> Above op \<and> \<not> Below op
         then (lv, errs @ (if t_Warning t \<noteq> None \<or> t_CriticalRecovery t \<noteq> None \<or> t_WarningRecovery t \<noteq> None
                           then [NoDirection] else []))
         else let before = (\<lambda>a b. if Below op then f64_le b a else f64_le a b)
              in (lv, errs @
                  (if lv_HasWarning lv \<and> (f64_eq (lv_Warning lv) (lv_Critical lv) \<or> \<not> before (lv_Warning lv) (lv_Critical lv))
                   then [WarningPastCritical] else []) @
                  (if \<not> before (lv_CriticalRecovery lv) (lv_Critical lv) then [CriticalRecoveryPast] else []) @
                  (if lv_HasWarning lv \<and> \<not> before (lv_WarningRecovery lv) (lv_Warning lv)
                   then [WarningRecoveryPast] else [])))"

definition Breach :: "Levels \<Rightarrow> f64 \<Rightarrow> f64 \<Rightarrow> bool" where
  "Breach l v level = op_Compare (lv_Op l) v level"

section \<open>The state machine\<close>

datatype Status = StOK | StWarn | StAlert | StNoData

record Group =
  g_Status :: Status
  g_Since :: gotime
  g_Breaches :: int
  g_LastValue :: f64
  g_LastEval :: gotime
  g_LastData :: gotime
  g_LastNotified :: gotime

definition state_New :: "gotime \<Rightarrow> Group" where
  "state_New now = \<lparr>g_Status = StOK, g_Since = now, g_Breaches = 0, g_LastValue = f64_nan, g_LastEval = 0,
     g_LastData = 0, g_LastNotified = 0\<rparr>"

record Observation =
  o_Now :: gotime
  o_WindowEnd :: gotime
  o_Present :: bool
  o_Value :: f64
  o_DataTs :: gotime

record Config =
  c_Levels :: Levels
  c_MinFailures :: int
  c_NoDataTimeframe :: duration
  c_Renotify :: duration
  c_Muted :: bool

datatype Notify = NotifyNone | NotifyTransition | NotifyRenotify

record Result =
  r_From :: Status
  r_To :: Status
  r_Notify :: Notify

definition noData :: "Group \<Rightarrow> Observation \<Rightarrow> Config \<Rightarrow> Status" where
  "noData prev obs cfg =
     (if c_NoDataTimeframe cfg \<le> 0 \<or> g_LastData prev = 0 then g_Status prev
      else if c_NoDataTimeframe cfg \<le> time_Sub (o_WindowEnd obs) (g_LastData prev) then StNoData
      else g_Status prev)"

definition evaluate :: "Group \<Rightarrow> f64 \<Rightarrow> Config \<Rightarrow> Status \<times> int" where
  "evaluate prev v cfg =
     (let lv = c_Levels cfg;
          from = (if g_Status prev = StNoData then StOK else g_Status prev);
          crit = Breach lv v (lv_Critical lv);
          breaches = (if crit then g_Breaches prev + 1 else 0);
          minFail = max (c_MinFailures cfg) 1
      in if crit \<and> minFail \<le> breaches then (StAlert, breaches)
         else if from = StAlert \<and> Breach lv v (lv_CriticalRecovery lv) then (StAlert, breaches)
         else if lv_HasWarning lv \<and> Breach lv v (lv_Warning lv) then (StWarn, breaches)
         else if lv_HasWarning lv \<and> (from = StWarn \<or> from = StAlert) \<and> Breach lv v (lv_WarningRecovery lv)
         then (StWarn, breaches)
         else (StOK, breaches))"

definition state_Step :: "Group \<Rightarrow> Observation \<Rightarrow> Config \<Rightarrow> Group \<times> Result" where
  "state_Step prev obs cfg =
     (let next1 = prev\<lparr>g_LastEval := o_Now obs\<rparr>;
          next2 = (if \<not> o_Present obs
                   then let st = noData prev obs cfg
                        in next1\<lparr>g_Status := st, g_Breaches := (if st = StNoData then 0 else g_Breaches next1)\<rparr>
                   else let (st, n) = evaluate prev (o_Value obs) cfg
                        in next1\<lparr>g_LastValue := o_Value obs,
                             g_LastData := (if g_LastData next1 < o_DataTs obs then o_DataTs obs else g_LastData next1),
                             g_Status := st, g_Breaches := n\<rparr>);
          changed = (g_Status prev \<noteq> g_Status next2);
          next3 = (if changed then next2\<lparr>g_Since := o_Now obs\<rparr> else next2);
          notify = (if c_Muted cfg then NotifyNone
                    else if changed then NotifyTransition
                    else if 0 < c_Renotify cfg \<and> (g_Status next3 = StAlert \<or> g_Status next3 = StNoData) \<and>
                            c_Renotify cfg \<le> time_Sub (o_Now obs) (g_LastNotified prev)
                    then NotifyRenotify else NotifyNone)
      in (if notify \<noteq> NotifyNone then next3\<lparr>g_LastNotified := o_Now obs\<rparr> else next3,
          \<lparr>r_From = g_Status prev, r_To = g_Status next2, r_Notify = notify\<rparr>))"

section \<open>One evaluation of all groups\<close>

text \<open>The tags of a group are opaque here.\<close>

record 'g Value =
  v_Key :: string
  v_Group :: 'g
  v_Present :: bool
  v_Skipped :: bool
  v_Value :: f64
  v_DataTs :: gotime

record 'g tracked =
  tr_State :: Group
  tr_Group :: 'g

record 'g groupStep =
  gs_Key :: string
  gs_Group :: 'g
  gs_Prev :: Group
  gs_Next :: Group
  gs_Res :: Result
  gs_Value :: f64
  gs_Deleted :: bool

definition GroupTTL :: duration where "GroupTTL = 24 * 3600 * 10 ^ 9"

definition absent :: "string \<Rightarrow> 'g \<Rightarrow> Group \<Rightarrow> Config \<Rightarrow> bool \<Rightarrow> gotime \<Rightarrow> gotime \<Rightarrow> 'g groupStep" where
  "absent key g prev cfg absentIsZero now windowEnd =
     (if g_LastData prev \<noteq> 0 \<and> GroupTTL \<le> time_Sub windowEnd (g_LastData prev)
      then \<lparr>gs_Key = key, gs_Group = g, gs_Prev = prev, gs_Next = prev,
             gs_Res = \<lparr>r_From = g_Status prev, r_To = g_Status prev, r_Notify = NotifyNone\<rparr>,
             gs_Value = f64_nan, gs_Deleted = True\<rparr>
      else let (nxt, res) = state_Step prev \<lparr>o_Now = now, o_WindowEnd = windowEnd, o_Present = absentIsZero,
                   o_Value = 0, o_DataTs = 0\<rparr> cfg
           in \<lparr>gs_Key = key, gs_Group = g, gs_Prev = prev, gs_Next = nxt, gs_Res = res,
               gs_Value = (if absentIsZero then 0 else f64_nan), gs_Deleted = False\<rparr>)"

text \<open>The loop over the values of this evaluation.\<close>

definition step_value :: "(string \<times> 'g tracked) list \<Rightarrow> Config \<Rightarrow> bool \<Rightarrow> gotime \<Rightarrow> gotime \<Rightarrow> 'g Value \<Rightarrow> 'g groupStep list" where
  "step_value states cfg absentIsZero now windowEnd v =
     (if v_Skipped v then []
      else case (v_Present v, map_of states (v_Key v)) of
        (False, None) \<Rightarrow> []
      | (False, Some t) \<Rightarrow> [absent (v_Key v) (v_Group v) (tr_State t) cfg absentIsZero now windowEnd]
      | (True, t) \<Rightarrow>
          let prev = (case t of None \<Rightarrow> state_New now | Some t \<Rightarrow> tr_State t);
              (nxt, res) = state_Step prev \<lparr>o_Now = now, o_WindowEnd = windowEnd, o_Present = True,
                o_Value = v_Value v, o_DataTs = v_DataTs v\<rparr> cfg
          in [\<lparr>gs_Key = v_Key v, gs_Group = v_Group v, gs_Prev = prev, gs_Next = nxt, gs_Res = res,
               gs_Value = v_Value v, gs_Deleted = False\<rparr>])"

definition advance :: "Config \<Rightarrow> (string \<times> 'g tracked) list \<Rightarrow> 'g Value list \<Rightarrow> bool \<Rightarrow> gotime \<Rightarrow> gotime \<Rightarrow> 'g groupStep list" where
  "advance cfg states vals absentIsZero now windowEnd =
     concat (map (step_value states cfg absentIsZero now windowEnd) vals) @
     concat (map (\<lambda>k. case map_of states k of
         None \<Rightarrow> []
       | Some t \<Rightarrow> [absent k (tr_Group t) (tr_State t) cfg absentIsZero now windowEnd])
       (sort (filter (\<lambda>k. k \<notin> v_Key ` set vals) (map fst states))))"

end
