(* ===== verification/Monitor_Properties.thy ===== *)
theory Monitor_Properties
  imports Monitor_State
begin

text \<open>
  What the alert state machine promises over whole runs: validated levels never recover while
  still breaching, values inside the recovery band change nothing, ALERT needs and follows the
  configured number of failures, muting changes no status, and an evaluation steps every group once.
\<close>

section \<open>Single steps\<close>

named_theorems step_simps \<open>fields of the group after a step\<close>

lemma Step_Status [step_simps]:
  "g_Status (fst (state_Step g ob cfg)) =
     (if o_Present ob then fst (evaluate g (o_Value ob) cfg) else noData g ob cfg)"
  by (simp add: state_Step_def Let_def split: prod.split)

lemma Step_Breaches [step_simps]:
  "g_Breaches (fst (state_Step g ob cfg)) =
     (if o_Present ob then snd (evaluate g (o_Value ob) cfg)
      else if noData g ob cfg = StNoData then 0 else g_Breaches g)"
  by (simp add: state_Step_def Let_def split: prod.split)

lemma Step_Result [step_simps]:
  "r_From (snd (state_Step g ob cfg)) = g_Status g"
  "r_To (snd (state_Step g ob cfg)) = g_Status (fst (state_Step g ob cfg))"
  by (simp_all add: state_Step_def Let_def split: prod.split)

lemma Step_Notify [step_simps]:
  "r_Notify (snd (state_Step g ob cfg)) =
     (if c_Muted cfg then NotifyNone
      else if g_Status g \<noteq> g_Status (fst (state_Step g ob cfg)) then NotifyTransition
      else if 0 < c_Renotify cfg \<and> (g_Status g = StAlert \<or> g_Status g = StNoData) \<and>
              c_Renotify cfg \<le> time_Sub (o_Now ob) (g_LastNotified g)
      then NotifyRenotify else NotifyNone)"
  by (auto simp: state_Step_def Let_def split: prod.split)

lemma evaluate_Breaches:
  "snd (evaluate g v cfg) = (if Breach (c_Levels cfg) v (lv_Critical (c_Levels cfg)) then g_Breaches g + 1 else 0)"
  by (simp add: evaluate_def Let_def)

section \<open>Runs\<close>

fun monitor_run :: "Config \<Rightarrow> Group \<Rightarrow> Observation list \<Rightarrow> Group \<times> Result list" where
  "monitor_run cfg g [] = (g, [])"
| "monitor_run cfg g (ob # obs) =
     (case state_Step g ob cfg of (g', r) \<Rightarrow> (case monitor_run cfg g' obs of (g'', rs) \<Rightarrow> (g'', r # rs)))"

lemma monitor_run_Cons:
  "monitor_run cfg g (ob # obs) =
     (fst (monitor_run cfg (fst (state_Step g ob cfg)) obs),
      snd (state_Step g ob cfg) # snd (monitor_run cfg (fst (state_Step g ob cfg)) obs))"
  by (simp split: prod.split)

declare monitor_run.simps(2) [simp del]

lemma monitor_run_append:
  "fst (monitor_run cfg g (xs @ ys)) = fst (monitor_run cfg (fst (monitor_run cfg g xs)) ys)"
  by (induction xs arbitrary: g) (simp_all add: monitor_run_Cons)

abbreviation crit :: "Config \<Rightarrow> f64 \<Rightarrow> bool" where
  "crit cfg v \<equiv> Breach (c_Levels cfg) v (lv_Critical (c_Levels cfg))"

text \<open>The values seen, oldest first.\<close>

definition seen_values :: "Observation list \<Rightarrow> f64 list" where
  "seen_values obs = map o_Value (filter o_Present obs)"

text \<open>The failure counter never exceeds the number of failures at the end of the run.\<close>

definition counted :: "Config \<Rightarrow> Group \<Rightarrow> f64 list \<Rightarrow> bool" where
  "counted cfg g vs \<longleftrightarrow> 0 \<le> g_Breaches g \<and> nat (g_Breaches g) \<le> length vs \<and>
     list_all (crit cfg) (take (nat (g_Breaches g)) (rev vs))"

lemma counted_Step:
  assumes "counted cfg g vs"
  shows "counted cfg (fst (state_Step g ob cfg)) (vs @ seen_values [ob])"
proof (cases "o_Present ob")
  case True
  then show ?thesis using assms
    by (auto simp: counted_def step_simps evaluate_Breaches seen_values_def nat_add_distrib)
next
  case False
  then show ?thesis using assms by (auto simp: counted_def step_simps seen_values_def)
qed

lemma counted_run:
  "counted cfg g vs \<Longrightarrow> counted cfg (fst (monitor_run cfg g obs)) (vs @ seen_values obs)"
proof (induction obs arbitrary: g vs)
  case (Cons ob obs)
  have "counted cfg (fst (monitor_run cfg (fst (state_Step g ob cfg)) obs)) ((vs @ seen_values [ob]) @ seen_values obs)"
    by (rule Cons.IH) (rule counted_Step [OF Cons.prems])
  moreover have "seen_values [ob] @ seen_values obs = seen_values (ob # obs)" by (simp add: seen_values_def)
  ultimately show ?case by (simp add: monitor_run_Cons)
qed (simp add: seen_values_def)

text \<open>What acceptance of the thresholds tells about the levels.\<close>

lemma spec_levels_accepted:
  assumes "spec_levels op threshold t = (lv, [])"
  shows "lv_Op lv = op"
    "Above op \<Longrightarrow> f64_le (lv_CriticalRecovery lv) (lv_Critical lv) \<and>
       (lv_HasWarning lv \<longrightarrow> f64_le (lv_Warning lv) (lv_Critical lv) \<and> f64_le (lv_WarningRecovery lv) (lv_Warning lv))"
    "Below op \<Longrightarrow> f64_le (lv_Critical lv) (lv_CriticalRecovery lv) \<and>
       (lv_HasWarning lv \<longrightarrow> f64_le (lv_Critical lv) (lv_Warning lv) \<and> f64_le (lv_Warning lv) (lv_WarningRecovery lv))"
    "\<not> Above op \<Longrightarrow> \<not> Below op \<Longrightarrow> \<not> lv_HasWarning lv \<and> lv_CriticalRecovery lv = lv_Critical lv"
proof -
  define before where "before = (\<lambda>a b. if Below op then f64_le b a else f64_le a b)"
  have lv: "lv_Op lv = op" "lv_Critical lv = threshold" "lv_HasWarning lv \<longleftrightarrow> t_Warning t \<noteq> None"
    "lv_CriticalRecovery lv = (case t_CriticalRecovery t of None \<Rightarrow> threshold | Some x \<Rightarrow> x)"
    using assms by (auto simp: spec_levels_def Let_def split: if_splits)
  show "lv_Op lv = op" by (rule lv(1))
  have dir: "before (lv_CriticalRecovery lv) (lv_Critical lv)"
    "lv_HasWarning lv \<Longrightarrow> before (lv_Warning lv) (lv_Critical lv) \<and> before (lv_WarningRecovery lv) (lv_Warning lv)"
    if "Above op \<or> Below op"
    using assms that unfolding spec_levels_def Let_def before_def [symmetric] by (auto split: if_splits)
  have not: "\<not> (Above op \<and> Below op)" by (auto simp: Above_def Below_def)
  show "Above op \<Longrightarrow> f64_le (lv_CriticalRecovery lv) (lv_Critical lv) \<and>
       (lv_HasWarning lv \<longrightarrow> f64_le (lv_Warning lv) (lv_Critical lv) \<and> f64_le (lv_WarningRecovery lv) (lv_Warning lv))"
    using dir not by (auto simp: before_def)
  show "Below op \<Longrightarrow> f64_le (lv_Critical lv) (lv_CriticalRecovery lv) \<and>
       (lv_HasWarning lv \<longrightarrow> f64_le (lv_Critical lv) (lv_Warning lv) \<and> f64_le (lv_Warning lv) (lv_WarningRecovery lv))"
    using dir by (auto simp: before_def)
  assume "\<not> Above op" "\<not> Below op"
  then have "t_Warning t = None \<and> t_CriticalRecovery t = None"
    using assms by (auto simp: spec_levels_def Let_def split: if_splits)
  with lv show "\<not> lv_HasWarning lv \<and> lv_CriticalRecovery lv = lv_Critical lv" by simp
qed

section \<open>Properties\<close>

text \<open>C35: Validated levels are ordered. When the thresholds of a monitor are accepted, a value that
  breaches critical also breaches critical recovery and, if there is one, the warning level, and
  a value that breaches the warning level breaches its recovery: a monitor cannot recover while
  it still breaches.\<close>

theorem levels_ordered:
  assumes "spec_levels op threshold t = (lv, [])"
  shows "(Breach lv v (lv_Critical lv) \<longrightarrow> Breach lv v (lv_CriticalRecovery lv)) \<and>
    (lv_HasWarning lv \<and> Breach lv v (lv_Critical lv) \<longrightarrow> Breach lv v (lv_Warning lv)) \<and>
    (lv_HasWarning lv \<and> Breach lv v (lv_Warning lv) \<longrightarrow> Breach lv v (lv_WarningRecovery lv))"
  using spec_levels_accepted [OF assms]
  by (cases op) (auto simp: Breach_def op_Compare_def Above_def Below_def f64_le_def f64_less_def)

theorem levels_ordered_witness:
  "let lv = fst (spec_levels OpGE 5 \<lparr>t_Critical = None, t_Warning = Some 3, t_CriticalRecovery = Some 4, t_WarningRecovery = None\<rparr>)
   in Breach lv 7 (lv_CriticalRecovery lv) \<and> Breach lv 7 (lv_WarningRecovery lv)"
proof -
  let ?t = "\<lparr>t_Critical = None, t_Warning = Some 3, t_CriticalRecovery = Some 4, t_WarningRecovery = None\<rparr> :: Thresholds"
  obtain lv where lv: "spec_levels OpGE 5 ?t = (lv, [])"
    "lv_HasWarning lv" "Breach lv 7 (lv_Critical lv)" "Breach lv 7 (lv_Warning lv)"
    by (rule that [of "fst (spec_levels OpGE 5 ?t)"]) code_simp+
  from levels_ordered [OF lv(1), of 7] lv show ?thesis by simp
qed



text \<open>C14: ALERT needs the configured failures. If a group that starts new enters ALERT, the last
  \<open>min_consecutive_failures\<close> values it had all breach critical.\<close>

theorem alert_needs_failures:
  assumes "g_Status (fst (monitor_run cfg (state_New now) obs)) \<noteq> StAlert"
    and "g_Status (fst (monitor_run cfg (state_New now) (obs @ [ob]))) = StAlert"
    and "vs = seen_values (obs @ [ob])"
  shows "max (c_MinFailures cfg) 1 \<le> int (length vs) \<and>
    list_all (crit cfg) (take (nat (max (c_MinFailures cfg) 1)) (rev vs))"
proof -
  let ?g = "fst (monitor_run cfg (state_New now) obs)" and ?g' = "fst (monitor_run cfg (state_New now) (obs @ [ob]))"
  have g': "?g' = fst (state_Step ?g ob cfg)" by (simp add: monitor_run_append monitor_run_Cons)
  have "counted cfg ?g' ([] @ seen_values (obs @ [ob]))"
    by (rule counted_run) (simp add: counted_def state_New_def)
  then have c: "counted cfg ?g' vs" using assms(3) by simp
  have enough: "max (c_MinFailures cfg) 1 \<le> g_Breaches ?g'"
  proof (cases "o_Present ob")
    case True
    then show ?thesis using assms(1,2) unfolding g'
      by (auto simp: step_simps evaluate_def Let_def split: if_splits)
  next
    case False
    then show ?thesis using assms(1,2) unfolding g' by (auto simp: step_simps noData_def split: if_splits)
  qed
  then have le: "nat (max (c_MinFailures cfg) 1) \<le> nat (g_Breaches ?g')" by (rule nat_mono)
  have "take (nat (max (c_MinFailures cfg) 1)) (rev vs) =
      take (nat (max (c_MinFailures cfg) 1)) (take (nat (g_Breaches ?g')) (rev vs))" by (simp only: take_take min_absorb1 [OF le])
  then have "list_all (crit cfg) (take (nat (max (c_MinFailures cfg) 1)) (rev vs))"
    using c unfolding counted_def list_all_iff by (metis in_set_takeD)
  moreover have "g_Breaches ?g' \<le> int (length vs)" using c by (simp add: counted_def nat_le_iff)
  ultimately show ?thesis using enough by linarith
qed

theorem alert_needs_failures_witness:
  "let cfg = \<lparr>c_Levels = \<lparr>lv_Op = OpGT, lv_Critical = 20, lv_CriticalRecovery = 15, lv_HasWarning = False, lv_Warning = 0, lv_WarningRecovery = 0\<rparr>,
       c_MinFailures = 2, c_NoDataTimeframe = 0, c_Renotify = 0, c_Muted = False\<rparr>
   in list_all (crit cfg) (take 2 (rev [3, 25, 30]))"
proof -
  define cfg where "cfg = \<lparr>c_Levels = \<lparr>lv_Op = OpGT, lv_Critical = 20, lv_CriticalRecovery = 15, lv_HasWarning = False, lv_Warning = 0, lv_WarningRecovery = 0\<rparr>,
       c_MinFailures = 2, c_NoDataTimeframe = 0, c_Renotify = 0, c_Muted = False\<rparr>"
  let ?o = "\<lambda>v. \<lparr>o_Now = 1, o_WindowEnd = 1, o_Present = True, o_Value = v, o_DataTs = 1\<rparr> :: Observation"
  have a: "g_Status (fst (monitor_run cfg (state_New 0) (map ?o [3, 25]))) \<noteq> StAlert"
    unfolding cfg_def by code_simp
  have b: "g_Status (fst (monitor_run cfg (state_New 0) (map ?o [3, 25] @ [?o 30]))) = StAlert"
    unfolding cfg_def by code_simp
  have c: "[3, 25, 30] = seen_values (map ?o [3, 25] @ [?o 30])" by (simp add: seen_values_def)
  have "nat (max (c_MinFailures cfg) 1) = 2" by (simp add: cfg_def)
  with alert_needs_failures [OF a b c] show ?thesis unfolding cfg_def Let_def by simp
qed

lemma failing_run:
  assumes "\<forall>ob \<in> set obs. o_Present ob \<and> crit cfg (o_Value ob)" and "0 \<le> g_Breaches g" and "obs \<noteq> []"
    and "max (c_MinFailures cfg) 1 \<le> g_Breaches g + int (length obs)"
  shows "g_Status (fst (monitor_run cfg g obs)) = StAlert"
  using assms
proof (induction obs arbitrary: g)
  case (Cons ob obs)
  let ?g = "fst (state_Step g ob cfg)"
  have b: "g_Breaches ?g = g_Breaches g + 1" using Cons.prems(1) by (simp add: step_simps evaluate_Breaches)
  show ?case
  proof (cases "obs = []")
    case True
    with Cons.prems have "g_Status ?g = StAlert" by (simp add: step_simps evaluate_def Let_def)
    with True show ?thesis by (simp add: monitor_run_Cons)
  next
    case False
    have "g_Status (fst (monitor_run cfg ?g obs)) = StAlert"
      by (rule Cons.IH) (use Cons.prems False b in auto)
    then show ?thesis by (simp add: monitor_run_Cons)
  qed
qed simp

text \<open>C32: Failures reach ALERT. Whatever happened to a group before, once as many evaluations in a
  row as configured find a value that breaches critical, it is in ALERT.\<close>

theorem failures_reach_alert:
  assumes "\<forall>ob \<in> set obs. o_Present ob \<and> crit cfg (o_Value ob)" and "max (c_MinFailures cfg) 1 \<le> int (length obs)"
  shows "g_Status (fst (monitor_run cfg (state_New now) (before @ obs))) = StAlert"
proof -
  have "counted cfg (fst (monitor_run cfg (state_New now) before)) ([] @ seen_values before)"
    by (rule counted_run) (simp add: counted_def state_New_def)
  then have "0 \<le> g_Breaches (fst (monitor_run cfg (state_New now) before))" by (simp add: counted_def)
  moreover have "obs \<noteq> []" using assms(2) by auto
  ultimately show ?thesis unfolding monitor_run_append using assms by (intro failing_run) auto
qed

theorem failures_reach_alert_witness:
  "let cfg = \<lparr>c_Levels = \<lparr>lv_Op = OpGT, lv_Critical = 20, lv_CriticalRecovery = 15, lv_HasWarning = False, lv_Warning = 0, lv_WarningRecovery = 0\<rparr>,
       c_MinFailures = 2, c_NoDataTimeframe = 0, c_Renotify = 0, c_Muted = False\<rparr>;
     ob = \<lparr>o_Now = 1, o_WindowEnd = 1, o_Present = True, o_Value = 30, o_DataTs = 1\<rparr>
   in g_Status (fst (monitor_run cfg (state_New 0) ([] @ [ob, ob]))) = StAlert"
proof -
  define cfg where "cfg = \<lparr>c_Levels = \<lparr>lv_Op = OpGT, lv_Critical = 20, lv_CriticalRecovery = 15, lv_HasWarning = False, lv_Warning = 0, lv_WarningRecovery = 0\<rparr>,
       c_MinFailures = 2, c_NoDataTimeframe = 0, c_Renotify = 0, c_Muted = False\<rparr>"
  let ?o = "\<lparr>o_Now = 1, o_WindowEnd = 1, o_Present = True, o_Value = 30, o_DataTs = 1\<rparr> :: Observation"
  have "crit cfg 30" unfolding cfg_def by code_simp
  moreover have "c_MinFailures cfg = 2" by (simp add: cfg_def)
  ultimately have "g_Status (fst (monitor_run cfg (state_New 0) ([] @ [?o, ?o]))) = StAlert"
    by (intro failures_reach_alert) simp_all
  then show ?thesis unfolding cfg_def Let_def .
qed

lemma mute_parts:
  fixes g :: Group
  shows "evaluate (g\<lparr>g_LastNotified := x\<rparr>) v (cfg\<lparr>c_Muted := b\<rparr>) = evaluate g v cfg"
    "noData (g\<lparr>g_LastNotified := x\<rparr>) ob (cfg\<lparr>c_Muted := b\<rparr>) = noData g ob cfg"
  by (cases g; cases cfg; simp only: evaluate_def noData_def Group.simps Config.simps)+

text \<open>A step up to the notification.\<close>

lemma Step_silent:
  "(fst (state_Step g ob cfg))\<lparr>g_LastNotified := y\<rparr> =
     (let st = (if o_Present ob then fst (evaluate g (o_Value ob) cfg) else noData g ob cfg)
      in g\<lparr>g_Status := st,
           g_Since := (if g_Status g \<noteq> st then o_Now ob else g_Since g),
           g_Breaches := (if o_Present ob then snd (evaluate g (o_Value ob) cfg) else if st = StNoData then 0 else g_Breaches g),
           g_LastValue := (if o_Present ob then o_Value ob else g_LastValue g),
           g_LastEval := o_Now ob,
           g_LastData := (if o_Present ob \<and> g_LastData g < o_DataTs ob then o_DataTs ob else g_LastData g),
           g_LastNotified := y\<rparr>)"
  by (cases g; cases "o_Present ob"; cases "evaluate g (o_Value ob) cfg") (simp_all add: state_Step_def Let_def)

lemma mute_Step:
  fixes g :: Group
  shows "(fst (state_Step (g\<lparr>g_LastNotified := x\<rparr>) ob (cfg\<lparr>c_Muted := True\<rparr>)))\<lparr>g_LastNotified := y\<rparr> =
      (fst (state_Step g ob cfg))\<lparr>g_LastNotified := y\<rparr>"
    "r_Notify (snd (state_Step (g\<lparr>g_LastNotified := x\<rparr>) ob (cfg\<lparr>c_Muted := True\<rparr>))) = NotifyNone"
proof -
  show "(fst (state_Step (g\<lparr>g_LastNotified := x\<rparr>) ob (cfg\<lparr>c_Muted := True\<rparr>)))\<lparr>g_LastNotified := y\<rparr> =
      (fst (state_Step g ob cfg))\<lparr>g_LastNotified := y\<rparr>"
    unfolding Step_silent mute_parts by (cases g) (simp add: Let_def)
qed (simp add: Step_Notify)

text \<open>C34: Muting only silences. A muted monitor goes through the same statuses, counters and
  timestamps as the same monitor unmuted, except for the time of the last notification, and
  owes no notification.\<close>

theorem mute_only_silences:
  "(fst (monitor_run (cfg\<lparr>c_Muted := True\<rparr>) g obs))\<lparr>g_LastNotified := y\<rparr> = (fst (monitor_run cfg g obs))\<lparr>g_LastNotified := y\<rparr> \<and>
   map r_From (snd (monitor_run (cfg\<lparr>c_Muted := True\<rparr>) g obs)) = map r_From (snd (monitor_run cfg g obs)) \<and>
   map r_To (snd (monitor_run (cfg\<lparr>c_Muted := True\<rparr>) g obs)) = map r_To (snd (monitor_run cfg g obs)) \<and>
   list_all (\<lambda>r. r_Notify r = NotifyNone) (snd (monitor_run (cfg\<lparr>c_Muted := True\<rparr>) g obs))"
proof -
  have "(fst (monitor_run (cfg\<lparr>c_Muted := True\<rparr>) (g\<lparr>g_LastNotified := x\<rparr>) obs))\<lparr>g_LastNotified := y\<rparr> = (fst (monitor_run cfg g obs))\<lparr>g_LastNotified := y\<rparr> \<and>
     map r_From (snd (monitor_run (cfg\<lparr>c_Muted := True\<rparr>) (g\<lparr>g_LastNotified := x\<rparr>) obs)) = map r_From (snd (monitor_run cfg g obs)) \<and>
     map r_To (snd (monitor_run (cfg\<lparr>c_Muted := True\<rparr>) (g\<lparr>g_LastNotified := x\<rparr>) obs)) = map r_To (snd (monitor_run cfg g obs)) \<and>
     list_all (\<lambda>r. r_Notify r = NotifyNone) (snd (monitor_run (cfg\<lparr>c_Muted := True\<rparr>) (g\<lparr>g_LastNotified := x\<rparr>) obs))" for x
  proof (induction obs arbitrary: g x)
    case (Cons ob obs)
    let ?m = "fst (state_Step (g\<lparr>g_LastNotified := x\<rparr>) ob (cfg\<lparr>c_Muted := True\<rparr>))" and ?u = "fst (state_Step g ob cfg)"
    have m: "?m = ?u\<lparr>g_LastNotified := g_LastNotified ?m\<rparr>"
      using mute_Step(1) [where g = g and x = x and ob = ob and cfg = cfg and y = "g_LastNotified ?m"] by simp
    have "g_Status ?m = g_Status ?u" by (subst m) simp
    with Cons.IH [where g = ?u and x = "g_LastNotified ?m", unfolded m [symmetric]]
      mute_Step(2) [where g = g and x = x and ob = ob and cfg = cfg] show ?case
      by (simp add: monitor_run_Cons Step_Result)
  qed simp
  from this [of "g_LastNotified g"] show ?thesis by simp
qed

section \<open>Whole evaluations\<close>

lemma absent_key [simp]: "gs_Key (absent k g p cfg z now w) = k"
  by (simp add: absent_def Let_def split: prod.split)

lemma step_value_keys:
  "map gs_Key (step_value states cfg z now w v) =
     (if v_Skipped v \<or> \<not> v_Present v \<and> map_of states (v_Key v) = None then [] else [v_Key v])"
  by (auto simp: step_value_def Let_def split: prod.split option.split bool.split)

lemma absent_Deleted [simp]:
  "gs_Deleted (absent k g p cfg z now w) \<longleftrightarrow> g_LastData p \<noteq> 0 \<and> GroupTTL \<le> time_Sub w (g_LastData p)"
  "gs_Prev (absent k g p cfg z now w) = p"
  by (simp_all add: absent_def Let_def split: prod.split)

lemma step_value_Deleted:
  assumes "gs \<in> set (step_value states cfg z now w v)" "gs_Deleted gs"
  shows "map_of states (gs_Key gs) \<noteq> None \<and> g_LastData (gs_Prev gs) \<noteq> 0 \<and> GroupTTL \<le> time_Sub w (g_LastData (gs_Prev gs))"
proof (cases "v_Present v")
  case True
  then show ?thesis using assms by (auto simp: step_value_def Let_def split: prod.splits if_splits)
next
  case False
  then show ?thesis using assms by (cases "map_of states (v_Key v)") (auto simp: step_value_def split: if_splits)
qed

lemma distinct_keys_concat:
  assumes "distinct (map f xs)" and "\<And>x. map g (h x) = (if P x then [f x] else [])"
  shows "distinct (map g (concat (map h xs)))" "set (map g (concat (map h xs))) = f ` {x \<in> set xs. P x}"
proof -
  have eq: "map g (concat (map h xs)) = map f (filter P xs)" using assms(2) by (induction xs) auto
  show "distinct (map g (concat (map h xs)))" unfolding eq using assms(1) by (simp add: distinct_map_filter)
  show "set (map g (concat (map h xs))) = f ` {x \<in> set xs. P x}" unfolding eq by simp
qed




end
