(* ===== verification/Mem_Series.thy ===== *)
theory Mem_Series
  imports Chunk_Roundtrip Tsdb_Types
begin

text \<open>
  One series in memory (\<open>memSeries\<close> in \<open>internal/tsdb/head/head.go\<close>): a list of compressed chunks, cut
  when full and at block boundaries, and the appender of the newest one. A series refines the plain
  list of its samples.
\<close>

section \<open>Operations\<close>

text \<open>\<open>NilAppender\<close> and \<open>NilSeries\<close> stand for the panic of a call on a nil pointer.\<close>

datatype head_error =
    ErrOutOfOrder
  | ErrOutOfBounds
  | ErrSeriesLimit
  | ErrChunk chunk_error
  | ErrDecode i64 i64 chunkenc_error
  | NilAppender
  | NilSeries

record memChunk =
  mc_minT :: i64
  mc_maxT :: i64
  mc_chunk :: Chunk

record memSeries =
  ms_id :: u64
  ms_ref :: SeriesRef
  ms_chunks :: "memChunk list"
  ms_app :: "Appender option"
  ms_lastT :: i64
  ms_lastV :: f64
  ms_logged :: bool

definition newSeries :: "u64 \<Rightarrow> SeriesRef \<Rightarrow> bool \<Rightarrow> memSeries" where
  "newSeries i ref logged = \<lparr>ms_id = i, ms_ref = ref, ms_chunks = [], ms_app = None, ms_lastT = 0, ms_lastV = 0, ms_logged = logged\<rparr>"

definition series_head :: "memSeries \<Rightarrow> memChunk option" where
  "series_head ms = (if ms_chunks ms = [] then None else Some (last (ms_chunks ms)))"

text \<open>The scan of one chunk stops at the first sample that is not before \<open>t\<close>.\<close>

fun holds_scan :: "Sample list \<Rightarrow> i64 \<Rightarrow> f64 \<Rightarrow> bool" where
  "holds_scan [] t v = False"
| "holds_scan ((ct, cv) # xs) t v = (if sint t < sint ct then False else if ct = t then f64_eq cv v else holds_scan xs t v)"

fun holds_in :: "memChunk list \<Rightarrow> i64 \<Rightarrow> f64 \<Rightarrow> bool" where
  "holds_in [] t v = False"
| "holds_in (c # cs) t v =
     (if sint t < sint (mc_minT c) \<or> sint (mc_maxT c) < sint t then holds_in cs t v
      else holds_scan (fst (iterate (newIterator (mc_chunk c)))) t v)"

definition ms_holds :: "memSeries \<Rightarrow> i64 \<Rightarrow> f64 \<Rightarrow> bool" where
  "ms_holds ms t v = holds_in (ms_chunks ms) t v"

text \<open>A new chunk when the newest is full or belongs to another block.\<close>

definition cut_chunk :: "i64 \<Rightarrow> memSeries \<Rightarrow> i64 \<Rightarrow> head_error + memSeries" where
  "cut_chunk blockRange ms t =
     (if (case series_head ms of
            None \<Rightarrow> True
          | Some cur \<Rightarrow> Full (mc_chunk cur) \<or> BlockOf t blockRange \<noteq> BlockOf (mc_minT cur) blockRange)
      then (case appender NewChunk of
              Inl e \<Rightarrow> Inl (ErrChunk e)
            | Inr (a, c) \<Rightarrow> Inr (ms\<lparr>ms_chunks := ms_chunks ms @ [\<lparr>mc_minT = t, mc_maxT = t, mc_chunk = c\<rparr>], ms_app := Some a\<rparr>))
      else Inr ms)"

definition appendTo :: "i64 \<Rightarrow> memSeries \<Rightarrow> i64 \<Rightarrow> f64 \<Rightarrow> i64 \<Rightarrow> (head_error + bool) \<times> memSeries" where
  "appendTo blockRange ms t v minValid =
     (if sint t < sint minValid then (Inl ErrOutOfBounds, ms)
      else if ms_chunks ms \<noteq> [] \<and> sint t \<le> sint (ms_lastT ms)
      then (if ms_holds ms t v then (Inr False, ms) else (Inl ErrOutOfOrder, ms))
      else case cut_chunk blockRange ms t of
        Inl e \<Rightarrow> (Inl e, ms)
      | Inr ms1 \<Rightarrow>
          (case ms_app ms1 of
             None \<Rightarrow> (Inl NilAppender, ms1)
           | Some a \<Rightarrow>
               let cur = last (ms_chunks ms1)
               in case Append a (mc_chunk cur) t v of
                    Inl e \<Rightarrow> (Inl (ErrChunk e), ms1)
                  | Inr (a', c') \<Rightarrow>
                      (Inr True, ms1\<lparr>ms_chunks := butlast (ms_chunks ms1) @ [cur\<lparr>mc_chunk := c', mc_maxT := t\<rparr>],
                         ms_app := Some a', ms_lastT := t, ms_lastV := v\<rparr>)))"

fun samples_in :: "memChunk list \<Rightarrow> i64 \<Rightarrow> i64 \<Rightarrow> head_error + Sample list" where
  "samples_in [] from to = Inr []"
| "samples_in (c # cs) from to =
     (if sint (mc_maxT c) < sint from \<or> sint to < sint (mc_minT c) then samples_in cs from to
      else let (xs, it) = iterate (newIterator (mc_chunk c))
           in case it_err it of
                Some e \<Rightarrow> Inl (ErrDecode (mc_minT c) (mc_maxT c) e)
              | None \<Rightarrow> (case samples_in cs from to of
                    Inl e \<Rightarrow> Inl e
                  | Inr ys \<Rightarrow> Inr (filter (\<lambda>(t, v). \<not> (sint t < sint from \<or> sint to < sint t)) xs @ ys)))"

definition samplesIn :: "memSeries \<Rightarrow> i64 \<Rightarrow> i64 \<Rightarrow> head_error + Sample list" where
  "samplesIn ms from to = samples_in (ms_chunks ms) from to"

text \<open>The part of \<open>Truncate\<close> that concerns one series: chunks that end before \<open>mint\<close> go.\<close>

definition drop_chunks :: "i64 \<Rightarrow> memSeries \<Rightarrow> memSeries" where
  "drop_chunks mint ms =
     (let kept = filter (\<lambda>c. sint mint \<le> sint (mc_maxT c)) (ms_chunks ms)
      in ms\<lparr>ms_app := (if length kept \<noteq> length (ms_chunks ms) \<and> kept = [] then None else ms_app ms), ms_chunks := kept\<rparr>)"

section \<open>The samples of a series\<close>

text \<open>A chunk that holds \<open>ys\<close>, all of one block.\<close>

definition chunk_ok :: "i64 \<Rightarrow> memChunk \<Rightarrow> Sample list \<Rightarrow> bool" where
  "chunk_ok r c ys \<longleftrightarrow> ys \<noteq> [] \<and> length ys \<le> MaxSamplesPerChunk \<and> (\<exists>a. chunk_holds a (mc_chunk c) ys) \<and>
     mc_minT c = fst (hd ys) \<and> mc_maxT c = fst (last ys) \<and>
     list_all (\<lambda>y. BlockOf (fst y) r = BlockOf (mc_minT c) r) ys"

definition series_inv :: "i64 \<Rightarrow> memSeries \<Rightarrow> Sample list list \<Rightarrow> bool" where
  "series_inv r ms yss \<longleftrightarrow> list_all2 (chunk_ok r) (ms_chunks ms) yss \<and> increasing (concat yss) \<and>
     (yss \<noteq> [] \<longrightarrow> ms_lastT ms = fst (last (concat yss)) \<and> ms_lastV ms = snd (last (concat yss)) \<and>
        (\<exists>a. ms_app ms = Some a \<and> chunk_holds a (mc_chunk (last (ms_chunks ms))) (last yss)))"

lemma series_inv_new: "series_inv r (newSeries i ref l) []"
  by (simp add: series_inv_def newSeries_def increasing_def)

lemma chunk_ok_iterate:
  assumes "chunk_ok r c ys"
  shows "\<exists>it. iterate (newIterator (mc_chunk c)) = (ys, it) \<and> it_err it = None"
  using assms iterate_holds by (force simp: chunk_ok_def)

lemma chunk_ok_num: "chunk_ok r c ys \<Longrightarrow> NumSamples (mc_chunk c) = length ys"
  by (auto simp: chunk_ok_def chunk_holds_def)

lemma increasing_append:
  "increasing (xs @ ys) \<longleftrightarrow> increasing xs \<and> increasing ys \<and> (\<forall>x \<in> set xs. \<forall>y \<in> set ys. sint (fst x) < sint (fst y))"
  by (auto simp: increasing_def sorted_wrt_append)

lemma increasing_bounds:
  assumes "increasing ys" "y \<in> set ys"
  shows "sint (fst (hd ys)) \<le> sint (fst y)" "sint (fst y) \<le> sint (fst (last ys))"
proof -
  show "sint (fst (hd ys)) \<le> sint (fst y)" using assms by (cases ys) (auto simp: increasing_def)
  show "sint (fst y) \<le> sint (fst (last ys))"
    using assms by (cases ys rule: rev_cases) (auto simp: increasing_def sorted_wrt_append)
qed

lemma sint_eq: "sint (a :: i64) = sint b \<longleftrightarrow> a = b"
  by (auto intro: signed_word_eqI)

section \<open>Looking up and reading\<close>

lemma holds_scan_iff:
  "increasing ys \<Longrightarrow> holds_scan ys t v \<longleftrightarrow> (\<exists>cv. (t, cv) \<in> set ys \<and> f64_eq cv v)"
proof (induction ys t v rule: holds_scan.induct)
  case (2 ct cv xs t v)
  have xs: "\<forall>y \<in> set xs. sint ct < sint (fst y)" "increasing xs" using 2(2) by (auto simp: increasing_def)
  show ?case
  proof (cases "sint t < sint ct")
    case True
    then show ?thesis using xs by auto
  next
    case False
    then show ?thesis using 2(1) [OF False] xs by (cases "ct = t") auto
  qed
qed simp

lemma holds_in_iff:
  "list_all2 (chunk_ok r) cs yss \<Longrightarrow> increasing (concat yss) \<Longrightarrow>
    holds_in cs t v \<longleftrightarrow> (\<exists>cv. (t, cv) \<in> set (concat yss) \<and> f64_eq cv v)"
proof (induction cs yss rule: list_all2_induct)
  case (Cons c cs ys yss)
  have inc: "increasing ys" "increasing (concat yss)" "\<forall>x \<in> set ys. \<forall>y \<in> set (concat yss). sint (fst x) < sint (fst y)"
    using Cons.prems unfolding concat.simps increasing_append by blast+
  have c: "ys \<noteq> []" "mc_minT c = fst (hd ys)" "mc_maxT c = fst (last ys)" using Cons.hyps(1) by (simp_all add: chunk_ok_def)
  show ?case
  proof (cases "sint t < sint (mc_minT c) \<or> sint (mc_maxT c) < sint t")
    case True
    then have "(t, cv) \<notin> set ys" for cv using increasing_bounds [OF inc(1), of "(t, cv)"] c by auto
    with True Cons.IH [OF inc(2)] show ?thesis by auto
  next
    case False
    have "(t, cv) \<notin> set (concat yss)" for cv
    proof
      assume "(t, cv) \<in> set (concat yss)"
      then have "sint (fst (last ys)) < sint t" using inc(3) c(1) last_in_set by fastforce
      with False c show False by simp
    qed
    moreover have "fst (iterate (newIterator (mc_chunk c))) = ys" using chunk_ok_iterate [OF Cons.hyps(1)] by force
    ultimately show ?thesis using False holds_scan_iff [OF inc(1)] by auto
  qed
qed simp

lemma samples_in_filter:
  "list_all2 (chunk_ok r) cs yss \<Longrightarrow> increasing (concat yss) \<Longrightarrow>
    samples_in cs from to = Inr (filter (\<lambda>(t, v). sint from \<le> sint t \<and> sint t \<le> sint to) (concat yss))"
proof (induction cs yss rule: list_all2_induct)
  case (Cons c cs ys yss)
  have inc: "increasing ys" "increasing (concat yss)" using Cons.prems unfolding concat.simps increasing_append by blast+
  have c: "mc_minT c = fst (hd ys)" "mc_maxT c = fst (last ys)" using Cons.hyps(1) by (simp_all add: chunk_ok_def)
  obtain it where it: "iterate (newIterator (mc_chunk c)) = (ys, it)" "it_err it = None"
    using chunk_ok_iterate [OF Cons.hyps(1)] by blast
  show ?case
  proof (cases "sint (mc_maxT c) < sint from \<or> sint to < sint (mc_minT c)")
    case True
    then have "filter (\<lambda>(t, v). sint from \<le> sint t \<and> sint t \<le> sint to) ys = []"
      using increasing_bounds [OF inc(1)] c by (fastforce simp: filter_empty_conv)
    with True Cons.IH [OF inc(2)] show ?thesis by simp
  next
    case False
    with it Cons.IH [OF inc(2)] show ?thesis by (simp add: not_less)
  qed
qed simp

section \<open>Appending\<close>

lemma appender_New: "appender NewChunk = Inr (freshAppender, NewChunk)"
proof -
  have n: "NumSamples NewChunk = 0" using chunk_holds_New unfolding chunk_holds_def by (metis list.size(3))
  have b: "c_borrowed NewChunk = False" by (simp add: NewChunk_def)
  show ?thesis unfolding appender_def own_def n b by (simp only: simp_thms if_True)
qed

lemma increasing_snoc:
  "increasing (xs @ [(t, v)]) \<longleftrightarrow> increasing xs \<and> (xs \<noteq> [] \<longrightarrow> sint (fst (last xs)) < sint t)"
  by (cases xs rule: rev_cases) (auto simp: increasing_def sorted_wrt_append)

text \<open>After \<open>cut_chunk\<close> the newest chunk has room for the sample and is of its block.\<close>

lemma last_list_all2: "list_all2 P xs ys \<Longrightarrow> xs \<noteq> [] \<Longrightarrow> ys \<noteq> [] \<and> P (last xs) (last ys) \<and> list_all2 P (butlast xs) (butlast ys)"
  by (cases xs rule: rev_cases) (auto simp: list_all2_append1 list_all2_Cons1)

lemma concat_snoc_last: "yss \<noteq> [] \<Longrightarrow> concat (butlast yss @ [last yss @ zs]) = concat yss @ zs"
  by (induction yss) auto

lemma last_concat: "yss \<noteq> [] \<Longrightarrow> last yss \<noteq> [] \<Longrightarrow> concat yss \<noteq> [] \<and> last (concat yss) = last (last yss)"
  by (cases yss rule: rev_cases) auto

lemma chunk_ok_snoc:
  assumes "chunk_ok r c ys" "chunk_holds a' c' (ys @ [(t, v)])" "length ys < MaxSamplesPerChunk"
    and "BlockOf t r = BlockOf (mc_minT c) r"
  shows "chunk_ok r (c\<lparr>mc_chunk := c', mc_maxT := t\<rparr>) (ys @ [(t, v)])"
  using assms by (auto simp: chunk_ok_def)

lemma append_stores:
  assumes inv: "series_inv r ms yss" and after: "yss \<noteq> [] \<Longrightarrow> sint (ms_lastT ms) < sint t"
    and valid: "\<not> sint t < sint minValid"
  shows "\<exists>ms' yss'. appendTo r ms t v minValid = (Inr True, ms') \<and> series_inv r ms' yss' \<and>
    concat yss' = concat yss @ [(t, v)] \<and> ms_id ms' = ms_id ms \<and> ms_ref ms' = ms_ref ms \<and> ms_logged ms' = ms_logged ms"
proof -
  have l2: "list_all2 (chunk_ok r) (ms_chunks ms) yss" and inc: "increasing (concat yss)" using inv by (simp_all add: series_inv_def)
  have empty: "ms_chunks ms = [] \<longleftrightarrow> yss = []" using l2 by auto
  have ne: "yss \<noteq> [] \<Longrightarrow> concat yss \<noteq> [] \<and> last (concat yss) = last (last yss)"
    using last_list_all2 [OF l2] empty last_concat by (auto simp: chunk_ok_def)
  have lt: "sint (fst (last (concat yss))) < sint t" if "yss \<noteq> []"
    using after [OF that] inv that unfolding series_inv_def by metis
  then have inc': "increasing (concat yss @ [(t, v)])" unfolding increasing_snoc using inc by (cases yss) auto
  have later: "\<not> (ms_chunks ms \<noteq> [] \<and> sint t \<le> sint (ms_lastT ms))" using after empty by force
  let ?cut = "case series_head ms of None \<Rightarrow> True
    | Some cur \<Rightarrow> Full (mc_chunk cur) \<or> BlockOf t r \<noteq> BlockOf (mc_minT cur) r"
  show ?thesis
  proof (cases ?cut)
    case True
    let ?new = "\<lparr>mc_minT = t, mc_maxT = t, mc_chunk = NewChunk\<rparr>"
    obtain a' c' where ac: "Append freshAppender NewChunk t v = Inr (a', c')" "chunk_holds a' c' [(t, v)]"
      using Append_holds [OF chunk_holds_New, of t v] by (auto simp: MaxSamplesPerChunk_def)
    define ms' where "ms' = ms\<lparr>ms_chunks := ms_chunks ms @ [?new\<lparr>mc_chunk := c'\<rparr>], ms_app := Some a', ms_lastT := t, ms_lastV := v\<rparr>"
    have "appendTo r ms t v minValid = (Inr True, ms')"
      using valid later True ac(1) by (simp add: appendTo_def cut_chunk_def appender_New ms'_def)
    moreover have "chunk_ok r (?new\<lparr>mc_chunk := c'\<rparr>) [(t, v)]" using ac(2) by (auto simp: chunk_ok_def MaxSamplesPerChunk_def)
    then have "series_inv r ms' (yss @ [[(t, v)]])"
      using l2 inc' ac(2) by (simp add: series_inv_def ms'_def list_all2_appendI)
    ultimately show ?thesis by (intro exI [of _ ms'] exI [of _ "yss @ [[(t, v)]]"]) (simp add: ms'_def)
  next
    case False
    then have some: "ms_chunks ms \<noteq> []" by (auto simp: series_head_def)
    let ?cur = "last (ms_chunks ms)" and ?ys = "last yss"
    have cur: "yss \<noteq> []" "chunk_ok r ?cur ?ys" "list_all2 (chunk_ok r) (butlast (ms_chunks ms)) (butlast yss)"
      using last_list_all2 [OF l2 some] by auto
    have room: "length ?ys < MaxSamplesPerChunk" "BlockOf t r = BlockOf (mc_minT ?cur) r"
      using False some chunk_ok_num [OF cur(2)] by (auto simp: series_head_def Full_def)
    obtain a where a: "ms_app ms = Some a" "chunk_holds a (mc_chunk ?cur) ?ys" using inv cur(1) by (auto simp: series_inv_def)
    have "sint (fst (last ?ys)) < sint t" using lt [OF cur(1)] ne [OF cur(1)] by simp
    then obtain a' c' where ac: "Append a (mc_chunk ?cur) t v = Inr (a', c')" "chunk_holds a' c' (?ys @ [(t, v)])"
      using Append_holds [OF a(2) room(1), of t v] by auto
    define ms' where "ms' = ms\<lparr>ms_chunks := butlast (ms_chunks ms) @ [?cur\<lparr>mc_chunk := c', mc_maxT := t\<rparr>],
      ms_app := Some a', ms_lastT := t, ms_lastV := v\<rparr>"
    let ?yss = "butlast yss @ [?ys @ [(t, v)]]"
    have "appendTo r ms t v minValid = (Inr True, ms')"
      using valid later False a(1) ac(1) by (simp add: appendTo_def cut_chunk_def ms'_def)
    moreover have eq: "concat ?yss = concat yss @ [(t, v)]" by (rule concat_snoc_last [OF cur(1)])
    moreover have "list_all2 (chunk_ok r) (ms_chunks ms') ?yss"
      using cur(3) chunk_ok_snoc [OF cur(2) ac(2) room] by (simp add: ms'_def list_all2_appendI)
    then have "series_inv r ms' ?yss" unfolding series_inv_def eq using inc' ac(2) by (simp add: ms'_def)
    ultimately show ?thesis by (intro exI [of _ ms'] exI [of _ ?yss]) (simp add: ms'_def)
  qed
qed

section \<open>Refinement\<close>

text \<open>The series stores the samples \<open>xs\<close>.\<close>

definition stores :: "i64 \<Rightarrow> memSeries \<Rightarrow> Sample list \<Rightarrow> bool" where
  "stores r ms xs \<longleftrightarrow> (\<exists>yss. series_inv r ms yss \<and> concat yss = xs)"

text \<open>What appending promises, over the plain list of samples.\<close>

definition abs_append :: "i64 \<Rightarrow> i64 \<Rightarrow> f64 \<Rightarrow> Sample list \<Rightarrow> (head_error + bool) \<times> Sample list" where
  "abs_append minValid t v xs =
     (if sint t < sint minValid then (Inl ErrOutOfBounds, xs)
      else if xs \<noteq> [] \<and> sint t \<le> sint (fst (last xs))
      then (if list_ex (\<lambda>(ct, cv). ct = t \<and> f64_eq cv v) xs then (Inr False, xs) else (Inl ErrOutOfOrder, xs))
      else (Inr True, xs @ [(t, v)]))"

lemma stores_new: "stores r (newSeries i ref l) []"
  unfolding stores_def using series_inv_new by force

lemma stores_empty: "stores r ms xs \<Longrightarrow> ms_chunks ms = [] \<longleftrightarrow> xs = []"
proof -
  assume "stores r ms xs"
  then obtain yss where y: "series_inv r ms yss" "concat yss = xs" unfolding stores_def by blast
  then have l2: "list_all2 (chunk_ok r) (ms_chunks ms) yss" by (simp add: series_inv_def)
  show ?thesis
  proof (cases "ms_chunks ms")
    case (Cons c cs)
    then have "yss \<noteq> []" "last yss \<noteq> []" using last_list_all2 [OF l2] by (auto simp: chunk_ok_def)
    with last_concat y(2) Cons show ?thesis by auto
  qed (use l2 y(2) in auto)
qed

lemma stores_increasing: "stores r ms xs \<Longrightarrow> increasing xs"
  by (auto simp: stores_def series_inv_def)

lemma stores_last: "stores r ms xs \<Longrightarrow> xs \<noteq> [] \<Longrightarrow> ms_lastT ms = fst (last xs)"
  unfolding stores_def series_inv_def by (metis concat.simps(1))

lemma appendTo_refines:
  assumes "stores r ms xs"
  shows "fst (appendTo r ms t v minValid) = fst (abs_append minValid t v xs)"
    "stores r (snd (appendTo r ms t v minValid)) (snd (abs_append minValid t v xs))"
    "ms_id (snd (appendTo r ms t v minValid)) = ms_id ms" "ms_ref (snd (appendTo r ms t v minValid)) = ms_ref ms"
    "ms_logged (snd (appendTo r ms t v minValid)) = ms_logged ms"
proof -
  obtain yss where y: "series_inv r ms yss" "concat yss = xs" using assms unfolding stores_def by blast
  have l2: "list_all2 (chunk_ok r) (ms_chunks ms) yss" "increasing (concat yss)" using y(1) by (simp_all add: series_inv_def)
  note empty = stores_empty [OF assms] and lastT = stores_last [OF assms]
  have holds: "ms_holds ms t v \<longleftrightarrow> list_ex (\<lambda>(ct, cv). ct = t \<and> f64_eq cv v) xs"
    unfolding ms_holds_def holds_in_iff [OF l2] y(2) by (auto simp: list_ex_iff)
  have "fst (appendTo r ms t v minValid) = fst (abs_append minValid t v xs) \<and>
    stores r (snd (appendTo r ms t v minValid)) (snd (abs_append minValid t v xs)) \<and>
    ms_id (snd (appendTo r ms t v minValid)) = ms_id ms \<and> ms_ref (snd (appendTo r ms t v minValid)) = ms_ref ms \<and>
    ms_logged (snd (appendTo r ms t v minValid)) = ms_logged ms"
  proof (cases "sint t < sint minValid \<or> xs \<noteq> [] \<and> sint t \<le> sint (fst (last xs))")
    case True
    then show ?thesis using assms holds empty lastT by (auto simp: appendTo_def abs_append_def)
  next
    case False
    have "yss \<noteq> [] \<Longrightarrow> xs \<noteq> []" using l2(1) empty by auto
    then have "yss \<noteq> [] \<Longrightarrow> sint (ms_lastT ms) < sint t" using False lastT by auto
    from append_stores [OF y(1) this] False obtain ms' yss' where "appendTo r ms t v minValid = (Inr True, ms')"
      "series_inv r ms' yss'" "concat yss' = concat yss @ [(t, v)]" "ms_id ms' = ms_id ms" "ms_ref ms' = ms_ref ms"
      "ms_logged ms' = ms_logged ms" by blast
    moreover have "abs_append minValid t v xs = (Inr True, xs @ [(t, v)])" using False by (auto simp: abs_append_def)
    ultimately show ?thesis using y(2) unfolding stores_def by auto
  qed
  then show "fst (appendTo r ms t v minValid) = fst (abs_append minValid t v xs)"
    "stores r (snd (appendTo r ms t v minValid)) (snd (abs_append minValid t v xs))"
    "ms_id (snd (appendTo r ms t v minValid)) = ms_id ms" "ms_ref (snd (appendTo r ms t v minValid)) = ms_ref ms"
    "ms_logged (snd (appendTo r ms t v minValid)) = ms_logged ms" by blast+
qed

lemma samplesIn_stores:
  assumes "stores r ms xs"
  shows "samplesIn ms from to = Inr (filter (\<lambda>(t, v). sint from \<le> sint t \<and> sint t \<le> sint to) xs)"
  using assms samples_in_filter unfolding stores_def series_inv_def samplesIn_def by blast

section \<open>Dropping chunks\<close>

lemma filter_list_all2:
  "list_all2 R xs ys \<Longrightarrow> (\<And>x y. R x y \<Longrightarrow> P x = Q y) \<Longrightarrow> list_all2 R (filter P xs) (filter Q ys)"
  by (induction xs ys rule: list_all2_induct) auto

lemma increasing_concat_sub: "increasing (concat yss) \<Longrightarrow> increasing (concat (filter P yss))"
  by (induction yss) (auto simp: increasing_append)

lemma last_filter: "xs \<noteq> [] \<Longrightarrow> P (last xs) \<Longrightarrow> last (filter P xs) = last xs"
  by (cases xs rule: rev_cases) auto

lemma drop_chunks_last:
  assumes "list_all2 (chunk_ok r) cs yss" "increasing (concat yss)"
    and "filter (\<lambda>c. sint mint \<le> sint (mc_maxT c)) cs \<noteq> []"
  shows "sint mint \<le> sint (mc_maxT (last cs)) \<and> cs \<noteq> []"
  using assms
proof (induction cs yss rule: list_all2_induct)
  case (Cons c cs ys yss)
  have inc: "increasing (concat yss)" "\<forall>x \<in> set ys. \<forall>y \<in> set (concat yss). sint (fst x) < sint (fst y)"
    using Cons.prems(1) unfolding concat.simps increasing_append by blast+
  show ?case
  proof (cases "cs = []")
    case False
    then have last: "yss \<noteq> []" "chunk_ok r (last cs) (last yss)" using last_list_all2 [OF Cons.hyps(2)] by auto
    then have "last (last yss) \<in> set (concat yss)" by (auto simp: chunk_ok_def intro!: bexI [of _ "last yss"])
    moreover have "last ys \<in> set ys" using Cons.hyps(1) by (simp add: chunk_ok_def)
    ultimately have "sint (fst (last ys)) < sint (fst (last (last yss)))" using inc(2) by blast
    then have "sint (mc_maxT c) < sint (mc_maxT (last cs))" using Cons.hyps(1) last(2) by (simp add: chunk_ok_def)
    with False Cons.IH [OF inc(1)] Cons.prems(2) show ?thesis by (auto split: if_splits)
  qed (use Cons.prems in \<open>auto split: if_splits\<close>)
qed simp

text \<open>Whole chunks go. When \<open>mint\<close> is the start of a block, no sample at or after it goes and no
  sample before it stays.\<close>

lemma chunk_side:
  assumes "chunk_ok r c ys" "increasing ys" "0 < sint r" "sint mint = b * sint r"
  shows "if sint mint \<le> sint (mc_maxT c) then \<forall>y \<in> set ys. sint mint \<le> sint (fst y) else \<forall>y \<in> set ys. sint (fst y) < sint mint"
proof (cases "sint mint \<le> sint (mc_maxT c)")
  case True
  have c: "ys \<noteq> []" "mc_maxT c = fst (last ys)" "list_all (\<lambda>y. BlockOf (fst y) r = BlockOf (mc_minT c) r) ys"
    using assms(1) unfolding chunk_ok_def by blast+
  have "sint mint \<le> sint (fst y)" if "y \<in> set ys" for y
  proof -
    have "BlockOf (fst y) r = BlockOf (mc_minT c) r" "BlockOf (fst (last ys)) r = BlockOf (mc_minT c) r"
      using c(1,3) that unfolding list_all_iff by (metis last_in_set)+
    then have "sint (BlockOf (fst y) r) = sint (fst (last ys)) div sint r"
      using BlockOf_div [OF assms(3)] by metis
    moreover have "b \<le> sint (fst (last ys)) div sint r"
      using True c(2) assms(3,4) zdiv_mono1 [of "b * sint r" "sint (fst (last ys))" "sint r"] by simp
    ultimately have "b * sint r \<le> sint (BlockOf (fst y) r) * sint r" using assms(3) by simp
    also have "\<dots> \<le> sint (fst y)" using floor_bounds(1) [OF assms(3)] BlockOf_div [OF assms(3)] by simp
    finally show ?thesis using assms(4) by simp
  qed
  with True show ?thesis by simp
next
  case False
  have "mc_maxT c = fst (last ys)" using assms(1) by (simp add: chunk_ok_def)
  then have "sint (fst y) < sint mint" if "y \<in> set ys" for y using increasing_bounds(2) [OF assms(2) that] False by simp
  with False show ?thesis by simp
qed

lemma drop_side:
  assumes "list_all2 (chunk_ok r) cs yss" "increasing (concat yss)" "0 < sint r" "sint mint = b * sint r"
  shows "concat (filter (\<lambda>ys. sint mint \<le> sint (fst (last ys))) yss) = filter (\<lambda>(t, v). sint mint \<le> sint t) (concat yss)"
  using assms(1,2)
proof (induction cs yss rule: list_all2_induct)
  case (Cons c cs ys yss)
  have i: "increasing ys" "increasing (concat yss)" using Cons.prems unfolding concat.simps increasing_append by blast+
  note side = chunk_side [OF Cons.hyps(1) i(1) assms(3,4)]
  have "mc_maxT c = fst (last ys)" using Cons.hyps(1) by (simp add: chunk_ok_def)
  then have "filter (\<lambda>(t, v). sint mint \<le> sint t) ys = (if sint mint \<le> sint (fst (last ys)) then ys else [])"
    using side by (force simp: filter_id_conv filter_empty_conv split: if_splits)
  then show ?case using Cons.IH [OF i(2)] by simp
qed simp

lemma drop_chunks_stores:
  assumes "stores r ms xs" "0 < sint r" "sint mint = b * sint r"
  shows "stores r (drop_chunks mint ms) (filter (\<lambda>(t, v). sint mint \<le> sint t) xs)"
    "ms_id (drop_chunks mint ms) = ms_id ms" "ms_ref (drop_chunks mint ms) = ms_ref ms" "ms_logged (drop_chunks mint ms) = ms_logged ms"
proof -
  obtain yss where y: "series_inv r ms yss" "concat yss = xs" using assms(1) unfolding stores_def by blast
  have l2: "list_all2 (chunk_ok r) (ms_chunks ms) yss" and inc: "increasing (concat yss)" using y(1) by (simp_all add: series_inv_def)
  let ?P = "\<lambda>c. sint mint \<le> sint (mc_maxT c)" and ?Q = "\<lambda>ys :: Sample list. sint mint \<le> sint (fst (last ys))"
  have PQ: "chunk_ok r c ys \<Longrightarrow> ?P c = ?Q ys" for c ys by (simp add: chunk_ok_def)
  have l2': "list_all2 (chunk_ok r) (filter ?P (ms_chunks ms)) (filter ?Q yss)" by (rule filter_list_all2 [OF l2 PQ])
  have concat: "concat (filter ?Q yss) = filter (\<lambda>(t, v). sint mint \<le> sint t) xs"
    using drop_side [OF l2 inc assms(2,3)] y(2) by simp
  have "series_inv r (drop_chunks mint ms) (filter ?Q yss)"
  proof (cases "filter ?P (ms_chunks ms) = []")
    case True
    then have "filter ?Q yss = []" using l2' by auto
    with True show ?thesis by (simp add: series_inv_def drop_chunks_def increasing_def)
  next
    case False
    have keep: "?P (last (ms_chunks ms))" "ms_chunks ms \<noteq> []" using drop_chunks_last [OF l2 inc False] by auto
    then have yne: "yss \<noteq> []" "?Q (last yss)" "last yss \<noteq> []" using last_list_all2 [OF l2] PQ by (auto simp: chunk_ok_def)
    have lasts: "last (filter ?P (ms_chunks ms)) = last (ms_chunks ms)" "last (filter ?Q yss) = last yss"
      using last_filter [where P = ?P, OF keep(2,1)] last_filter [where P = ?Q, OF yne(1,2)] by auto
    have "filter ?Q yss \<noteq> []" using False l2' by auto
    then have lc: "last (concat (filter ?Q yss)) = last (concat yss)"
      using last_concat [of "filter ?Q yss"] last_concat [of yss] lasts yne by simp
    have d: "ms_chunks (drop_chunks mint ms) = filter ?P (ms_chunks ms)" "ms_app (drop_chunks mint ms) = ms_app ms"
      "ms_lastT (drop_chunks mint ms) = ms_lastT ms" "ms_lastV (drop_chunks mint ms) = ms_lastV ms"
      using False by (simp_all add: drop_chunks_def Let_def)
    show ?thesis using y(1) yne(1) l2' increasing_concat_sub [OF inc, of ?Q]
      unfolding series_inv_def d lasts lc by blast
  qed
  then show "stores r (drop_chunks mint ms) (filter (\<lambda>(t, v). sint mint \<le> sint t) xs)"
    unfolding stores_def using concat by blast
qed (simp_all add: drop_chunks_def Let_def)

section \<open>A life of a series\<close>

text \<open>What happens to a series, in order: samples arrive, under the bound then in force, and blocks
  are cut up to some time.\<close>

datatype series_op = Put i64 f64 i64 | Drop i64

fun series_run :: "i64 \<Rightarrow> memSeries \<Rightarrow> series_op list \<Rightarrow> (head_error + bool) list \<times> memSeries" where
  "series_run r ms [] = ([], ms)"
| "series_run r ms (Put t v minValid # ops) =
     (let (x, ms1) = appendTo r ms t v minValid; (xs, ms2) = series_run r ms1 ops in (x # xs, ms2))"
| "series_run r ms (Drop mint # ops) = series_run r (drop_chunks mint ms) ops"

fun abs_run :: "Sample list \<Rightarrow> series_op list \<Rightarrow> (head_error + bool) list \<times> Sample list" where
  "abs_run ys [] = ([], ys)"
| "abs_run ys (Put t v minValid # ops) =
     (let (x, ys1) = abs_append minValid t v ys; (xs, ys2) = abs_run ys1 ops in (x # xs, ys2))"
| "abs_run ys (Drop mint # ops) = abs_run (filter (\<lambda>(t, v). sint mint \<le> sint t) ys) ops"

fun on_boundary :: "i64 \<Rightarrow> series_op \<Rightarrow> bool" where
  "on_boundary r (Put t v minValid) = True"
| "on_boundary r (Drop mint) = (sint mint mod sint r = 0)"

lemma series_run_stores:
  assumes "0 < sint r"
  shows "list_all (on_boundary r) ops \<Longrightarrow> stores r ms ys \<Longrightarrow>
    fst (series_run r ms ops) = fst (abs_run ys ops) \<and> stores r (snd (series_run r ms ops)) (snd (abs_run ys ops))"
proof (induction ops arbitrary: ms ys)
  case (Cons op ops)
  have rest: "list_all (on_boundary r) ops" using Cons.prems(1) by simp
  show ?case
  proof (cases op)
    case (Put t v minValid)
    show ?thesis unfolding Put using appendTo_refines(1,2) [OF Cons.prems(2), of t v minValid] Cons.IH [OF rest]
      by (auto simp: split_beta)
  next
    case (Drop mint)
    have "sint mint = sint mint div sint r * sint r"
      using Cons.prems(1) unfolding Drop by (simp add: mod_0_imp_dvd)
    from Cons.IH [OF rest drop_chunks_stores(1) [OF Cons.prems(2) assms this]] show ?thesis unfolding Drop by simp
  qed
qed simp

text \<open>C10: A series of compressed chunks refines the plain list of its samples. Over any sequence of
  appends and block cuts, every append is answered as the ordering rules say (too old, duplicate
  accepted as a no-op, out of order, stored) and a read of a time range returns exactly the samples
  stored and not cut off, decoded bit for bit and in order, whatever chunks and blocks they fell into.\<close>

theorem series_refines:
  assumes "0 < sint r" "list_all (on_boundary r) ops"
  shows "fst (series_run r (newSeries i ref l) ops) = fst (abs_run [] ops) \<and>
    samplesIn (snd (series_run r (newSeries i ref l) ops)) from to =
      Inr (filter (\<lambda>(t, v). sint from \<le> sint t \<and> sint t \<le> sint to) (snd (abs_run [] ops)))"
  using series_run_stores [OF assms stores_new] samplesIn_stores by blast

theorem series_refines_witness:
  "fst (series_run 10 (newSeries 1 \<lparr>ref_Metric = ''m'', ref_Tags = []\<rparr> False)
      [Put 5 1 0, Put 12 2 0, Put 12 2 0, Put 11 3 0, Drop 10, Put 9 4 10, Put 14 5 10]) =
    [Inr True, Inr True, Inr False, Inl ErrOutOfOrder, Inl ErrOutOfBounds, Inr True] \<and>
   samplesIn (snd (series_run 10 (newSeries 1 \<lparr>ref_Metric = ''m'', ref_Tags = []\<rparr> False)
      [Put 5 1 0, Put 12 2 0, Put 12 2 0, Put 11 3 0, Drop 10, Put 9 4 10, Put 14 5 10])) 0 100 = Inr [(12, 2), (14, 5)]"
  using series_refines [of 10 "[Put 5 1 0, Put 12 2 0, Put 12 2 0, Put 11 3 0, Drop 10, Put 9 4 10, Put 14 5 10]"]
  by (simp add: abs_append_def f64_eq_def f64_is_nan_def f64_exponent_def f64_mantissa_def)

end
