(* ===== verification/Head_Record.thy ===== *)
theory Head_Record
  imports Tsdb_Types Wal_Log Go_Binary
begin

text \<open>
  The log records of the head (\<open>internal/tsdb/head/record.go\<close>): series definitions and batches of
  samples, read back by a decoder that remembers its first error.
\<close>

section \<open>Records\<close>

definition RecordSeries :: byte where "RecordSeries = 1"
definition RecordSamples :: byte where "RecordSamples = 2"

text \<open>A sample of the head, under the id of its series (\<open>head.Sample\<close>).\<close>

record hSample =
  hs_ID :: u64
  hs_T :: i64
  hs_V :: f64

text \<open>Go strings are byte sequences.\<close>

definition string_bytes :: "string \<Rightarrow> byte list" where
  "string_bytes s = map (\<lambda>c. of_nat (of_char c)) s"

definition bytes_string :: "byte list \<Rightarrow> string" where
  "bytes_string b = map (\<lambda>w. char_of (unat w)) b"

definition appendString :: "byte list \<Rightarrow> string \<Rightarrow> byte list" where
  "appendString buf s = buf @ putUvarint (of_nat (length s)) @ string_bytes s"

definition encodeSeries :: "u64 \<Rightarrow> SeriesRef \<Rightarrow> byte list" where
  "encodeSeries i ref =
     fold (\<lambda>t buf. appendString (appendString buf (tag_Key t)) (tag_Value t)) (ref_Tags ref)
       (appendString (putUvarint i) (ref_Metric ref) @ putUvarint (of_nat (length (ref_Tags ref))))"

definition encodeSamples :: "hSample list \<Rightarrow> byte list" where
  "encodeSamples samples =
     putUvarint (of_nat (length samples)) @
     concat (map (\<lambda>s. putUvarint (hs_ID s) @ putVarint (hs_T s) @ putUint64LE (hs_V s)) samples)"

section \<open>The decoder\<close>

datatype record_error = TruncatedUvarint | TruncatedVarint | TruncatedFloat | StringTooLong | TooManyTags | TooManySamples

record decoder =
  d_b :: "byte list"
  d_err :: "record_error option"

definition d_uvarint :: "decoder \<Rightarrow> u64 \<times> decoder" where
  "d_uvarint d =
     (if d_err d \<noteq> None then (0, d)
      else let (v, n) = getUvarint (d_b d)
           in if n \<le> 0 then (0, d\<lparr>d_err := Some TruncatedUvarint\<rparr>)
              else (v, d\<lparr>d_b := drop (nat n) (d_b d)\<rparr>))"

definition d_varint :: "decoder \<Rightarrow> i64 \<times> decoder" where
  "d_varint d =
     (if d_err d \<noteq> None then (0, d)
      else let (v, n) = getVarint (d_b d)
           in if n \<le> 0 then (0, d\<lparr>d_err := Some TruncatedVarint\<rparr>)
              else (v, d\<lparr>d_b := drop (nat n) (d_b d)\<rparr>))"

definition d_uint64 :: "decoder \<Rightarrow> u64 \<times> decoder" where
  "d_uint64 d =
     (if d_err d \<noteq> None then (0, d)
      else if length (d_b d) < 8 then (0, d\<lparr>d_err := Some TruncatedFloat\<rparr>)
      else (getUint64LE (d_b d), d\<lparr>d_b := drop 8 (d_b d)\<rparr>))"

definition d_str :: "decoder \<Rightarrow> string \<times> decoder" where
  "d_str d =
     (let (n, d1) = d_uvarint d
      in if d_err d1 \<noteq> None then ([], d1)
         else if length (d_b d1) < unat n then ([], d1\<lparr>d_err := Some StringTooLong\<rparr>)
         else (bytes_string (take (unat n) (d_b d1)), d1\<lparr>d_b := drop (unat n) (d_b d1)\<rparr>))"

fun read_tags :: "nat \<Rightarrow> decoder \<Rightarrow> Tag list \<times> decoder" where
  "read_tags 0 d = ([], d)"
| "read_tags (Suc n) d =
     (let (k, d1) = d_str d; (v, d2) = d_str d1; (ts, d3) = read_tags n d2
      in (\<lparr>tag_Key = k, tag_Value = v\<rparr> # ts, d3))"

definition decodeSeries :: "byte list \<Rightarrow> record_error + (u64 \<times> SeriesRef)" where
  "decodeSeries b =
     (let (i, d1) = d_uvarint \<lparr>d_b = b, d_err = None\<rparr>;
          (metric, d2) = d_str d1;
          (n, d3) = d_uvarint d2
      in case d_err d3 of
           Some e \<Rightarrow> Inl e
         | None \<Rightarrow>
             if length b div 2 < unat n then Inl TooManyTags
             else let (tags, d4) = read_tags (unat n) d3
                  in case d_err d4 of
                       Some e \<Rightarrow> Inl e
                     | None \<Rightarrow> Inr (i, \<lparr>ref_Metric = metric, ref_Tags = tags\<rparr>))"

fun read_samples :: "nat \<Rightarrow> decoder \<Rightarrow> record_error + hSample list" where
  "read_samples 0 d = Inr []"
| "read_samples (Suc n) d =
     (let (i, d1) = d_uvarint d; (t, d2) = d_varint d1; (v, d3) = d_uint64 d2
      in case d_err d3 of
           Some e \<Rightarrow> Inl e
         | None \<Rightarrow> (case read_samples n d3 of
               Inl e \<Rightarrow> Inl e
             | Inr ss \<Rightarrow> Inr (\<lparr>hs_ID = i, hs_T = t, hs_V = v\<rparr> # ss)))"

definition decodeSamples :: "byte list \<Rightarrow> record_error + hSample list" where
  "decodeSamples b =
     (let (n, d) = d_uvarint \<lparr>d_b = b, d_err = None\<rparr>
      in case d_err d of
           Some e \<Rightarrow> Inl e
         | None \<Rightarrow> if length b div 3 + 1 < unat n then Inl TooManySamples else read_samples (unat n) d)"

definition keepForCheckpoint :: "i64 \<Rightarrow> Record \<Rightarrow> bool" where
  "keepForCheckpoint minValid r =
     (if rec_Type r = RecordSeries then True
      else if rec_Type r = RecordSamples
      then (case decodeSamples (rec_Data r) of
              Inl _ \<Rightarrow> True
            | Inr ss \<Rightarrow> list_ex (\<lambda>s. sint minValid \<le> sint (hs_T s)) ss)
      else False)"

section \<open>Round trips\<close>

lemma bytes_string_bytes [simp]: "bytes_string (string_bytes s) = s"
proof -
  have "char_of (unat (of_nat (of_char c) :: byte)) = c" for c
  proof -
    have "of_char c < (256 :: nat)" by (rule nat_of_char_less_256)
    then have "unat (of_nat (of_char c) :: byte) = of_char c" by (simp add: unat_of_nat)
    then show ?thesis by simp
  qed
  then show ?thesis by (simp add: bytes_string_def string_bytes_def comp_def)
qed

lemma length_string_bytes [simp]: "length (string_bytes s) = length s"
  by (simp add: string_bytes_def)

text \<open>Reading back one field and leaving the rest.\<close>

lemma d_uvarint_put [simp]:
  "d_uvarint \<lparr>d_b = putUvarint u @ rest, d_err = None\<rparr> = (u, \<lparr>d_b = rest, d_err = None\<rparr>)"
  using length_putUvarint(1) [of u] by (simp add: d_uvarint_def getUvarint_put)

lemma d_varint_put [simp]:
  "d_varint \<lparr>d_b = putVarint v @ rest, d_err = None\<rparr> = (v, \<lparr>d_b = rest, d_err = None\<rparr>)"
  using length_putUvarint(1) [of "zigzag v"] by (simp add: d_varint_def getVarint_put) (simp add: putVarint_def)

lemma d_uint64_put [simp]:
  "d_uint64 \<lparr>d_b = putUint64LE u @ rest, d_err = None\<rparr> = (u, \<lparr>d_b = rest, d_err = None\<rparr>)"
  by (simp add: d_uint64_def)

definition str_ok :: "string \<Rightarrow> bool" where
  "str_ok s \<longleftrightarrow> length s < 2 ^ 63"

lemma unat_of_nat_63: "n < 2 ^ 63 \<Longrightarrow> unat (of_nat n :: u64) = n"
  by (simp add: unat_of_nat)

lemma d_str_put [simp]:
  "str_ok s \<Longrightarrow> d_str \<lparr>d_b = putUvarint (of_nat (length s)) @ string_bytes s @ rest, d_err = None\<rparr> = (s, \<lparr>d_b = rest, d_err = None\<rparr>)"
  by (simp add: d_str_def str_ok_def unat_of_nat_63)

definition tag_bytes :: "Tag \<Rightarrow> byte list" where
  "tag_bytes t = putUvarint (of_nat (length (tag_Key t))) @ string_bytes (tag_Key t) @
     putUvarint (of_nat (length (tag_Value t))) @ string_bytes (tag_Value t)"

lemma encodeSeries_bytes:
  "encodeSeries i ref = putUvarint i @ putUvarint (of_nat (length (ref_Metric ref))) @ string_bytes (ref_Metric ref) @
     putUvarint (of_nat (length (ref_Tags ref))) @ concat (map tag_bytes (ref_Tags ref))"
proof -
  have "fold (\<lambda>t buf. appendString (appendString buf (tag_Key t)) (tag_Value t)) ts buf = buf @ concat (map tag_bytes ts)" for ts buf
    by (induction ts arbitrary: buf) (simp_all add: appendString_def tag_bytes_def)
  then show ?thesis by (simp add: encodeSeries_def appendString_def)
qed

text \<open>A series whose strings and tags are countable in Go.\<close>

definition ref_ok :: "SeriesRef \<Rightarrow> bool" where
  "ref_ok ref \<longleftrightarrow> str_ok (ref_Metric ref) \<and> length (ref_Tags ref) < 2 ^ 63 \<and>
     list_all (\<lambda>t. str_ok (tag_Key t) \<and> str_ok (tag_Value t)) (ref_Tags ref)"

lemma read_tags_put:
  "list_all (\<lambda>t. str_ok (tag_Key t) \<and> str_ok (tag_Value t)) ts \<Longrightarrow>
    read_tags (length ts) \<lparr>d_b = concat (map tag_bytes ts) @ rest, d_err = None\<rparr> = (ts, \<lparr>d_b = rest, d_err = None\<rparr>)"
  by (induction ts) (simp_all add: tag_bytes_def)

lemma length_tag_bytes: "2 \<le> length (tag_bytes t)"
  using length_putUvarint(1) [of "of_nat (length (tag_Key t))"] length_putUvarint(1) [of "of_nat (length (tag_Value t))"]
  unfolding tag_bytes_def length_append by linarith

lemma length_concat_ge: "(\<And>x. x \<in> set xs \<Longrightarrow> k \<le> length (f x)) \<Longrightarrow> k * length xs \<le> length (concat (map f xs))"
proof (induction xs)
  case (Cons x xs)
  have "k \<le> length (f x)" "k * length xs \<le> length (concat (map f xs))" using Cons by simp_all
  then show ?case by simp
qed simp

lemma decode_encodeSeries:
  assumes "ref_ok ref"
  shows "decodeSeries (encodeSeries i ref) = Inr (i, ref)"
proof -
  let ?ts = "ref_Tags ref"
  have ok: "str_ok (ref_Metric ref)" "list_all (\<lambda>t. str_ok (tag_Key t) \<and> str_ok (tag_Value t)) ?ts"
    and n: "unat (of_nat (length ?ts) :: u64) = length ?ts" using assms by (simp_all add: ref_ok_def unat_of_nat_63)
  have "2 * length ?ts \<le> length (encodeSeries i ref)"
    using length_concat_ge [of ?ts 2 tag_bytes] length_tag_bytes by (simp add: encodeSeries_bytes)
  then have "\<not> length (encodeSeries i ref) div 2 < length ?ts" by linarith
  moreover have "d_uvarint \<lparr>d_b = encodeSeries i ref, d_err = None\<rparr> = (i, \<lparr>d_b = putUvarint (of_nat (length (ref_Metric ref))) @
      string_bytes (ref_Metric ref) @ putUvarint (of_nat (length ?ts)) @ concat (map tag_bytes ?ts), d_err = None\<rparr>)"
    by (simp add: encodeSeries_bytes)
  ultimately show ?thesis
    using ok n read_tags_put [OF ok(2), of "[]"] by (simp add: decodeSeries_def)
qed

abbreviation sample_bytes :: "hSample \<Rightarrow> byte list" where
  "sample_bytes s \<equiv> putUvarint (hs_ID s) @ putVarint (hs_T s) @ putUint64LE (hs_V s)"

lemma read_samples_put:
  "read_samples (length ss) \<lparr>d_b = concat (map sample_bytes ss) @ rest, d_err = None\<rparr> = Inr ss"
  by (induction ss) simp_all

lemma length_sample_bytes: "3 \<le> length (sample_bytes s)" "length (sample_bytes s) \<le> 28"
  using length_putUvarint [of "hs_ID s"] length_putUvarint [of "zigzag (hs_T s)"]
  unfolding putVarint_def length_append length_putUint64LE by linarith+

lemma decode_encodeSamples:
  assumes "length ss < 2 ^ 63"
  shows "decodeSamples (encodeSamples ss) = Inr ss"
proof -
  have n: "unat (of_nat (length ss) :: u64) = length ss" using assms by (rule unat_of_nat_63)
  have "3 * length ss \<le> length (encodeSamples ss)"
    using length_concat_ge [of ss 3 sample_bytes] length_sample_bytes(1) by (simp add: encodeSamples_def)
  then have "\<not> length (encodeSamples ss) div 3 + 1 < length ss" by linarith
  moreover have "d_uvarint \<lparr>d_b = encodeSamples ss, d_err = None\<rparr> = (of_nat (length ss), \<lparr>d_b = concat (map sample_bytes ss), d_err = None\<rparr>)"
    by (simp add: encodeSamples_def)
  ultimately show ?thesis using n read_samples_put [of ss "[]"] by (simp add: decodeSamples_def)
qed

section \<open>Properties\<close>

text \<open>C37: Log records round trip. Decoding an encoded series definition gives its id and the series,
  and decoding an encoded batch gives the batch, every id, timestamp and bit pattern of a value
  included.\<close>

theorem records_roundtrip:
  assumes "ref_ok ref" and "length ss < 2 ^ 63"
  shows "decodeSeries (encodeSeries i ref) = Inr (i, ref) \<and> decodeSamples (encodeSamples ss) = Inr ss"
  using decode_encodeSeries [OF assms(1)] decode_encodeSamples [OF assms(2)] by simp

theorem records_roundtrip_witness:
  "decodeSeries (encodeSeries 300 (NewSeriesRef ''cpu'' [''env:prod''])) = Inr (300, NewSeriesRef ''cpu'' [''env:prod'']) \<and>
   decodeSamples (encodeSamples [\<lparr>hs_ID = 300, hs_T = - 1, hs_V = 7\<rparr>]) = Inr [\<lparr>hs_ID = 300, hs_T = - 1, hs_V = 7\<rparr>]"
proof -
  have "ref_ok (NewSeriesRef ''cpu'' [''env:prod''])"
  proof -
    have "NewSeriesRef ''cpu'' [''env:prod''] = \<lparr>ref_Metric = ''cpu'', ref_Tags = [\<lparr>tag_Key = ''env'', tag_Value = ''prod''\<rparr>]\<rparr>" by code_simp
    then show ?thesis by (simp add: ref_ok_def str_ok_def)
  qed
  from records_roundtrip [OF this, of "[\<lparr>hs_ID = 300, hs_T = - 1, hs_V = 7\<rparr>]" 300] show ?thesis by simp
qed

end
