(* ===== verification/Tsdb_Head.thy ===== *)
theory Tsdb_Head
  imports Mem_Series Mem_Postings Head_Record
begin

text \<open>
  The head (\<open>internal/tsdb/head/head.go\<close>): the series of the recent window with their identity, the
  index over them, and the commit of a batch: resolve, log, apply. Every operation that changes the
  head runs under the commit lock, so each is one step.
\<close>

section \<open>State\<close>

definition stripes :: nat where "stripes = 256"
definition DefaultMaxSeriesPerMetric :: int where "DefaultMaxSeriesPerMetric = 10000"
definition DefaultBlockRange :: i64 where "DefaultBlockRange = 7200000"

text \<open>The log is a value of the interface \<open>Logger\<close>, over a state of its own. A head without one is
  given \<open>None\<close> where it would log.\<close>

record ('w, 'e) Logger =
  lg_Log :: "Record list \<Rightarrow> ('w, 'e, unit) fallible"
  lg_Sync :: "('w, 'e, unit) fallible"

record Options =
  opt_BlockRange :: i64
  opt_MaxSeriesPerMetric :: int
  opt_SyncOnAppend :: bool

text \<open>A pointer to a series is the id it is held under in \<open>h_byID\<close>. \<open>h_hash\<close> is the hash the random
  seed selects.\<close>

record Head =
  h_opts :: Options
  h_hash :: "string \<Rightarrow> u64"
  h_shards :: "nat \<Rightarrow> (string \<times> u64) list"
  h_postings :: MemPostings
  h_byID :: "(u64 \<times> memSeries) list"
  h_perMetric :: "(string \<times> int) list"
  h_nextID :: u64
  h_minValid :: i64
  h_oooDropped :: int
  h_limitHits :: int

definition head_New :: "(string \<Rightarrow> u64) \<Rightarrow> Options \<Rightarrow> Head" where
  "head_New hash opts =
     \<lparr>h_opts = opts\<lparr>opt_BlockRange := (if sint (opt_BlockRange opts) \<le> 0 then DefaultBlockRange else opt_BlockRange opts),
        opt_MaxSeriesPerMetric := (if opt_MaxSeriesPerMetric opts = 0 then DefaultMaxSeriesPerMetric else opt_MaxSeriesPerMetric opts)\<rparr>,
      h_hash = hash, h_shards = (\<lambda>_. []), h_postings = NewMemPostings, h_byID = [], h_perMetric = [], h_nextID = 0,
      h_minValid = - (2 ^ 63), h_oooDropped = 0, h_limitHits = 0\<rparr>"

section \<open>Series\<close>

definition shardFor :: "Head \<Rightarrow> string \<Rightarrow> nat" where
  "shardFor h key = unat (h_hash h key) mod stripes"

definition shard_get :: "Head \<Rightarrow> string \<Rightarrow> u64 option" where
  "shard_get h key = map_of (h_shards h (shardFor h key)) key"

definition shard_put :: "string \<Rightarrow> u64 \<Rightarrow> Head \<Rightarrow> Head" where
  "shard_put key i h = (let n = shardFor h key in h\<lparr>h_shards := (h_shards h)(n := AList.update key i (h_shards h n))\<rparr>)"

definition shard_delete :: "string \<Rightarrow> Head \<Rightarrow> Head" where
  "shard_delete key h = (let n = shardFor h key in h\<lparr>h_shards := (h_shards h)(n := AList.delete key (h_shards h n))\<rparr>)"

definition perMetric :: "Head \<Rightarrow> string \<Rightarrow> int" where
  "perMetric h metric = (case map_of (h_perMetric h) metric of None \<Rightarrow> 0 | Some n \<Rightarrow> n)"

definition head_series :: "Head \<Rightarrow> u64 \<Rightarrow> memSeries option" where
  "head_series h i = map_of (h_byID h) i"

text \<open>Entering a series in every index.\<close>

definition enter_series :: "memSeries \<Rightarrow> Head \<Rightarrow> Head" where
  "enter_series ms h =
     (let ref = ms_ref ms; i = ms_id ms
      in shard_put (series_Key ref) i
           (h\<lparr>h_byID := AList.update i ms (h_byID h),
              h_perMetric := AList.update (ref_Metric ref) (perMetric h (ref_Metric ref) + 1) (h_perMetric h),
              h_postings := postings_Add i ref (h_postings h)\<rparr>))"

definition getOrCreate :: "SeriesRef \<Rightarrow> Head \<Rightarrow> (head_error + (u64 \<times> bool)) \<times> Head" where
  "getOrCreate ref h =
     (case shard_get h (series_Key ref) of
        Some i \<Rightarrow> (Inr (i, False), h)
      | None \<Rightarrow>
          if 0 < opt_MaxSeriesPerMetric (h_opts h) \<and> opt_MaxSeriesPerMetric (h_opts h) \<le> perMetric h (ref_Metric ref)
          then (Inl ErrSeriesLimit, h\<lparr>h_limitHits := h_limitHits h + 1\<rparr>)
          else let i = h_nextID h + 1
               in (Inr (i, True), enter_series (newSeries i ref False) (h\<lparr>h_nextID := i\<rparr>)))"

definition forget :: "u64 \<Rightarrow> SeriesRef \<Rightarrow> Head \<Rightarrow> Head" where
  "forget i ref h =
     (case head_series h i of
        None \<Rightarrow> h
      | Some _ \<Rightarrow>
          let h1 = shard_delete (series_Key ref) h; n = perMetric h (ref_Metric ref) - 1
          in h1\<lparr>h_byID := AList.delete i (h_byID h), h_postings := postings_Delete i ref (h_postings h),
                h_perMetric := (if n \<le> 0 then AList.delete (ref_Metric ref) (h_perMetric h)
                                else AList.update (ref_Metric ref) n (h_perMetric h))\<rparr>)"

text \<open>A series that is no longer held has been forgotten already.\<close>

fun forgetEmpty :: "u64 list \<Rightarrow> Head \<Rightarrow> nat \<times> Head" where
  "forgetEmpty [] h = (0, h)"
| "forgetEmpty (i # is) h =
     (case head_series h i of
        None \<Rightarrow> forgetEmpty is h
      | Some ms \<Rightarrow>
          if ms_chunks ms = [] then (let (n, h') = forgetEmpty is (forget i (ms_ref ms) h) in (n + 1, h'))
          else forgetEmpty is h)"

definition set_series :: "u64 \<Rightarrow> memSeries \<Rightarrow> Head \<Rightarrow> Head" where
  "set_series i ms h = h\<lparr>h_byID := AList.update i ms (h_byID h)\<rparr>"

section \<open>Logging a batch\<close>

definition maxSampleBytes :: nat where "maxSampleBytes = 10 + 10 + 8"
definition maxSamplesPerRecord :: nat where "maxSamplesPerRecord = (MaxRecordSize - 10) div maxSampleBytes"

lemma maxSamplesPerRecord_pos: "0 < maxSamplesPerRecord"
  by (simp add: maxSamplesPerRecord_def MaxRecordSize_def maxSampleBytes_def)

function sample_records :: "hSample list \<Rightarrow> Record list" where
  "sample_records rest =
     (let chunk = (if maxSamplesPerRecord < length rest then take maxSamplesPerRecord rest else rest);
          r = \<lparr>rec_Type = RecordSamples, rec_Data = encodeSamples chunk\<rparr>
      in if length rest \<le> maxSamplesPerRecord then [r] else r # sample_records (drop maxSamplesPerRecord rest))"

  by pat_completeness auto
termination
  by (relation "measure length") (use maxSamplesPerRecord_pos in auto)

declare sample_records.simps [simp del]

datatype 'e commit_error = Refused head_error | BadBatch nat nat | Logging 'e | Syncing 'e

definition batch_records :: "(u64 \<times> SeriesRef) list \<Rightarrow> hSample list \<Rightarrow> Record list" where
  "batch_records series samples =
     map (\<lambda>(i, ref). \<lparr>rec_Type = RecordSeries, rec_Data = encodeSeries i ref\<rparr>) series @ sample_records samples"

definition logLocked :: "('w, 'e) Logger \<Rightarrow> bool \<Rightarrow> (u64 \<times> SeriesRef) list \<Rightarrow> hSample list \<Rightarrow> ('w, 'e commit_error, unit) fallible" where
  "logLocked lg sync series samples w =
     (case lg_Log lg (batch_records series samples) w of
        (Inl e, w1) \<Rightarrow> (Inl (Logging e), w1)
      | (Inr _, w1) \<Rightarrow>
          if sync then (case lg_Sync lg w1 of (Inl e, w2) \<Rightarrow> (Inl (Syncing e), w2) | (Inr _, w2) \<Rightarrow> (Inr (), w2))
          else (Inr (), w1))"

section \<open>The commit\<close>

type_synonym 'e Rejection = "int \<times> 'e commit_error"

definition rejection_key :: "'e Rejection \<Rightarrow> int" where
  "rejection_key r = (if fst r < 0 then 2 ^ 63 - 1 else fst r)"

definition byRejectionIndex :: "'e Rejection list \<Rightarrow> 'e Rejection list" where
  "byRejectionIndex rs = (if sorted (map rejection_key rs) then rs else sort_key rejection_key rs)"

text \<open>The loops over the batch walk it with the index \<open>i\<close>. A sample is paired with the series it was
  resolved to, if it was.\<close>

type_synonym resolved = "u64 option \<times> hSample"

fun resolve :: "int \<Rightarrow> i64 \<Rightarrow> (SeriesRef \<times> hSample) list \<Rightarrow> Head \<Rightarrow> (resolved list \<times> 'e Rejection list \<times> u64 list \<times> int) \<times> Head" where
  "resolve i minValid [] h = (([], [], [], 0), h)"
| "resolve i minValid ((ref, s) # rest) h =
     (if sint (hs_T s) < sint minValid
      then (let ((rs, rej, created, dropped), h') = resolve (i + 1) minValid rest h
            in (((None, s) # rs, (i, Refused ErrOutOfBounds) # rej, created, dropped + 1), h'))
      else case getOrCreate ref h of
        (Inl e, h1) \<Rightarrow>
          (let ((rs, rej, created, dropped), h') = resolve (i + 1) minValid rest h1
           in (((None, s) # rs, (i, Refused e) # rej, created, dropped), h'))
      | (Inr (n, isNew), h1) \<Rightarrow>
          (let ((rs, rej, created, dropped), h') = resolve (i + 1) minValid rest h1
           in (((Some n, s\<lparr>hs_ID := n\<rparr>) # rs, rej, if isNew then n # created else created, dropped), h')))"

definition valid_samples :: "resolved list \<Rightarrow> hSample list" where
  "valid_samples rs = map snd (filter (\<lambda>r. fst r \<noteq> None) rs)"

text \<open>The series that still need a definition in the log are marked as they are collected.\<close>

fun mark_pending :: "resolved list \<Rightarrow> Head \<Rightarrow> u64 list \<times> Head" where
  "mark_pending [] h = ([], h)"
| "mark_pending ((None, s) # rs) h = mark_pending rs h"
| "mark_pending ((Some n, s) # rs) h =
     (case head_series h n of
        None \<Rightarrow> mark_pending rs h
      | Some ms \<Rightarrow>
          if ms_logged ms then mark_pending rs h
          else (let (ns, h') = mark_pending rs (set_series n (ms\<lparr>ms_logged := True\<rparr>) h) in (n # ns, h')))"

fun unmark :: "u64 list \<Rightarrow> Head \<Rightarrow> Head" where
  "unmark [] h = h"
| "unmark (n # ns) h =
     unmark ns (case head_series h n of None \<Rightarrow> h | Some ms \<Rightarrow> set_series n (ms\<lparr>ms_logged := False\<rparr>) h)"

definition series_records :: "Head \<Rightarrow> u64 list \<Rightarrow> (u64 \<times> SeriesRef) list" where
  "series_records h ns = List.map_filter (\<lambda>n. map_option (\<lambda>ms. (ms_id ms, ms_ref ms)) (head_series h n)) ns"

text \<open>Applying one sample to a series of the head.\<close>

definition apply_sample :: "u64 \<Rightarrow> i64 \<Rightarrow> f64 \<Rightarrow> i64 \<Rightarrow> Head \<Rightarrow> (head_error + bool) \<times> Head" where
  "apply_sample n t v minValid h =
     (case head_series h n of
        None \<Rightarrow> (Inl NilSeries, h)
      | Some ms \<Rightarrow> (let (res, ms') = appendTo (opt_BlockRange (h_opts h)) ms t v minValid in (res, set_series n ms' h)))"

fun apply_all :: "int \<Rightarrow> i64 \<Rightarrow> resolved list \<Rightarrow> Head \<Rightarrow> (bool list \<times> 'e Rejection list \<times> int) \<times> Head" where
  "apply_all i minValid [] h = (([], [], 0), h)"
| "apply_all i minValid ((None, s) # rs) h =
     (let ((stored, rej, dropped), h') = apply_all (i + 1) minValid rs h in ((False # stored, rej, dropped), h'))"
| "apply_all i minValid ((Some n, s) # rs) h =
     (case apply_sample n (hs_T s) (hs_V s) minValid h of
        (Inl e, h1) \<Rightarrow>
          (let ((stored, rej, dropped), h') = apply_all (i + 1) minValid rs h1
           in ((False # stored, (i, Refused e) # rej, if e = ErrOutOfOrder then dropped + 1 else dropped), h'))
      | (Inr wrote, h1) \<Rightarrow>
          (let ((stored, rej, dropped), h') = apply_all (i + 1) minValid rs h1 in ((wrote # stored, rej, dropped), h')))"

text \<open>What \<open>Append\<close> returns: \<open>stored\<close>, which is nil when the whole batch failed, the rejections, and
  the batch, whose samples carry the ids they were given.\<close>

record 'e appended =
  ap_stored :: "bool list option"
  ap_rejected :: "'e Rejection list"
  ap_samples :: "hSample list"

text \<open>The deferred part of a commit.\<close>

definition finish_commit :: "bool list option \<Rightarrow> 'e Rejection list \<Rightarrow> resolved list \<Rightarrow> u64 list \<Rightarrow> int \<Rightarrow> Head \<Rightarrow> 'e appended \<times> Head" where
  "finish_commit stored rejected rs created dropped h =
     (\<lparr>ap_stored = stored, ap_rejected = byRejectionIndex rejected, ap_samples = map snd rs\<rparr>,
      snd (forgetEmpty created (if 0 < dropped then h\<lparr>h_oooDropped := h_oooDropped h + dropped\<rparr> else h)))"

definition head_Append ::
    "('w, 'e) Logger option \<Rightarrow> SeriesRef list \<Rightarrow> hSample list \<Rightarrow> Head \<times> 'w \<Rightarrow> 'e appended \<times> Head \<times> 'w" where
  "head_Append wal refs samples hw =
     (let (h, w) = hw
      in if length refs \<noteq> length samples
         then (\<lparr>ap_stored = None, ap_rejected = [(- 1, BadBatch (length refs) (length samples))], ap_samples = samples\<rparr>, (h, w))
         else
           let minValid = h_minValid h;
               ((rs, rej, created, dropped), h1) = resolve 0 minValid (zip refs samples) h;
               valid = valid_samples rs
           in if valid = []
              then (let (a, h2) = finish_commit (Some (map (\<lambda>_. False) samples)) rej rs created dropped h1 in (a, (h2, w)))
              else
                let (pending, h2) = (case wal of None \<Rightarrow> ([], h1) | Some _ \<Rightarrow> mark_pending rs h1);
                    (logged, w1) = (case wal of
                        None \<Rightarrow> (Inr (), w)
                      | Some lg \<Rightarrow> logLocked lg (opt_SyncOnAppend (h_opts h)) (series_records h2 pending) valid w)
                in case logged of
                     Inl e \<Rightarrow>
                       (let (a, h3) = finish_commit None (rej @ [(- 1, e)]) rs created dropped (unmark pending h2)
                        in (a, (h3, w1)))
                   | Inr _ \<Rightarrow>
                       (let ((stored, rej', dropped'), h3) = apply_all 0 minValid rs h2;
                            (a, h4) = finish_commit (Some stored) (rej @ rej') rs created (dropped + dropped') h3
                        in (a, (h4, w1))))"

section \<open>Reading\<close>

record Stats =
  st_Series :: int
  st_Chunks :: int
  st_Samples :: int
  st_TagPairs :: int
  st_OOORejected :: int
  st_LimitRejects :: int
  st_MinT :: i64
  st_MaxT :: i64

definition stats_chunk :: "memChunk \<Rightarrow> bool \<times> Stats \<Rightarrow> bool \<times> Stats" where
  "stats_chunk c fs =
     (let (first, st) = fs
      in (False, st\<lparr>st_Samples := st_Samples st + int (NumSamples (mc_chunk c)),
            st_MinT := (if first \<or> sint (mc_minT c) < sint (st_MinT st) then mc_minT c else st_MinT st),
            st_MaxT := (if first \<or> sint (st_MaxT st) < sint (mc_maxT c) then mc_maxT c else st_MaxT st)\<rparr>))"

definition stats_series :: "Head \<Rightarrow> u64 \<Rightarrow> bool \<times> Stats \<Rightarrow> bool \<times> Stats" where
  "stats_series h i fs =
     (case head_series h i of
        None \<Rightarrow> fs
      | Some ms \<Rightarrow>
          let (first, st) = fs
          in fold stats_chunk (ms_chunks ms) (first, st\<lparr>st_Chunks := st_Chunks st + int (length (ms_chunks ms))\<rparr>))"

text \<open>Go ranges over a map in any order: \<open>ord\<close>.\<close>

definition head_Stats :: "(u64 list \<Rightarrow> u64 list) \<Rightarrow> Head \<Rightarrow> Stats" where
  "head_Stats ord h =
     (let (series, pairs) = postings_Size (h_postings h)
      in snd (fold (stats_series h) (ord (map fst (h_byID h)))
           (True, \<lparr>st_Series = int series, st_Chunks = 0, st_Samples = 0, st_TagPairs = int pairs,
              st_OOORejected = h_oooDropped h, st_LimitRejects = h_limitHits h, st_MinT = - (2 ^ 63), st_MaxT = - (2 ^ 63)\<rparr>)))"

definition head_Series :: "Head \<Rightarrow> u64 \<Rightarrow> SeriesRef option" where
  "head_Series h i = map_option ms_ref (head_series h i)"

definition SeriesOf :: "Head \<Rightarrow> string \<Rightarrow> SeriesRef list" where
  "SeriesOf h metric =
     List.map_filter (\<lambda>i. case head_series h i of
         None \<Rightarrow> None
       | Some ms \<Rightarrow> if ms_chunks ms = [] then None else Some (ms_ref ms)) (postings_Postings (h_postings h) MetricName metric)"

definition head_Lookup :: "(string list \<Rightarrow> string list) \<Rightarrow> Head \<Rightarrow> Lookup" where
  "head_Lookup ord h =
     \<lparr>lk_Postings = postings_Postings (h_postings h), lk_TagValues = postings_TagValues ord (h_postings h),
      lk_TagKeys = postings_TagKeys ord (h_postings h), lk_AllSeries = p_all (h_postings h)\<rparr>"

fun select_series :: "Head \<Rightarrow> i64 \<Rightarrow> i64 \<Rightarrow> u64 list \<Rightarrow> (string \<times> head_error) + SeriesSamples list" where
  "select_series h from to [] = Inr []"
| "select_series h from to (i # is) =
     (case head_series h i of
        None \<Rightarrow> select_series h from to is
      | Some ms \<Rightarrow>
          (case samplesIn ms from to of
             Inl e \<Rightarrow> Inl (series_Key (ms_ref ms), e)
           | Inr xs \<Rightarrow>
               if xs = [] then select_series h from to is
               else (case select_series h from to is of
                   Inl e \<Rightarrow> Inl e
                 | Inr out \<Rightarrow> Inr (\<lparr>ss_Series = ms_ref ms, ss_Samples = xs\<rparr> # out))))"

definition head_Select :: "(string list \<Rightarrow> string list) \<Rightarrow> Head \<Rightarrow> Selector \<Rightarrow> i64 \<Rightarrow> i64 \<Rightarrow> (string \<times> head_error) + SeriesSamples list" where
  "head_Select ord h sel from to =
     (case select_series h from to (index_Select (mem_Lookup ord (h_postings h)) sel) of
        Inl e \<Rightarrow> Inl e
      | Inr out \<Rightarrow> Inr (sort_key (\<lambda>s. series_Key (ss_Series s)) out))"

section \<open>Cutting\<close>

definition Freeze :: "i64 \<Rightarrow> Head \<Rightarrow> Head" where
  "Freeze mint h = (if sint (h_minValid h) < sint mint then h\<lparr>h_minValid := mint\<rparr> else h)"

fun truncate_all :: "i64 \<Rightarrow> u64 list \<Rightarrow> Head \<Rightarrow> (nat \<times> nat) \<times> Head" where
  "truncate_all mint [] h = ((0, 0), h)"
| "truncate_all mint (i # is) h =
     (case head_series h i of
        None \<Rightarrow> truncate_all mint is h
      | Some ms \<Rightarrow>
          let ms' = drop_chunks mint ms;
              chunks = length (ms_chunks ms) - length (ms_chunks ms');
              h1 = set_series i ms' h
          in if ms_chunks ms' \<noteq> []
             then (let ((ds, dc), h') = truncate_all mint is h1 in ((ds, dc + chunks), h'))
             else (let ((ds, dc), h') = truncate_all mint is (forget i (ms_ref ms) h1) in ((ds + 1, dc + chunks), h')))"

definition head_Truncate :: "(u64 list \<Rightarrow> u64 list) \<Rightarrow> i64 \<Rightarrow> Head \<Rightarrow> (nat \<times> nat) \<times> Head" where
  "head_Truncate ord mint h = truncate_all mint (ord (map fst (h_byID h))) (h\<lparr>h_minValid := mint\<rparr>)"

end
