(* ===== verification/Head_Window.thy ===== *)
theory Head_Window
  imports Tsdb_Head
begin

text \<open>
  The head as a window: what it holds is a map from series keys to a series and its samples. The
  invariant ties the shard maps, the id map, the inverted index and the per-metric counts together,
  and every primitive of the head keeps it and acts on the window.
\<close>

section \<open>The window of a head\<close>

type_synonym window = "string \<Rightarrow> (SeriesRef \<times> Sample list) option"

definition all_samples :: "memSeries \<Rightarrow> Sample list" where
  "all_samples ms = (case samplesIn ms (- (2 ^ 63)) (2 ^ 63 - 1) of Inl _ \<Rightarrow> [] | Inr xs \<Rightarrow> xs)"

definition held :: "Head \<Rightarrow> string \<Rightarrow> memSeries option" where
  "held h k = (case shard_get h k of None \<Rightarrow> None | Some i \<Rightarrow> head_series h i)"

definition contents :: "Head \<Rightarrow> window" where
  "contents h k = map_option (\<lambda>ms. (ms_ref ms, all_samples ms)) (held h k)"

abbreviation h_range :: "Head \<Rightarrow> i64" where
  "h_range h \<equiv> opt_BlockRange (h_opts h)"

definition metric_keys :: "window \<Rightarrow> string \<Rightarrow> string set" where
  "metric_keys A metric = {k. \<exists>ref xs. A k = Some (ref, xs) \<and> ref_Metric ref = metric}"

text \<open>The series under an id has that id, an entry in its shard and samples in its chunks.\<close>

definition series_entry :: "Head \<Rightarrow> u64 \<Rightarrow> memSeries \<Rightarrow> bool" where
  "series_entry h i ms \<longleftrightarrow> ms_id ms = i \<and> unat i \<le> unat (h_nextID h) \<and>
     shard_get h (series_Key (ms_ref ms)) = Some i \<and> stores (h_range h) ms (all_samples ms)"

definition head_inv :: "Head \<Rightarrow> bool" where
  "head_inv h \<longleftrightarrow> 0 < sint (h_range h) \<and>
     (\<forall>i ms. head_series h i = Some ms \<longrightarrow> series_entry h i ms) \<and>
     (\<forall>k i. shard_get h k = Some i \<longrightarrow> (\<exists>ms. head_series h i = Some ms \<and> series_Key (ms_ref ms) = k)) \<and>
     indexes (h_postings h) (head_Series h) \<and>
     (\<forall>m. map_of (h_perMetric h) m =
        (let n = card (metric_keys (contents h) m) in if n = 0 then None else Some (int n)))"

lemma head_invD:
  assumes "head_inv h"
  shows "0 < sint (h_range h)"
    "head_series h i = Some ms \<Longrightarrow> series_entry h i ms"
    "shard_get h k = Some i \<Longrightarrow> \<exists>ms. head_series h i = Some ms \<and> series_Key (ms_ref ms) = k"
    "indexes (h_postings h) (head_Series h)"
    "map_of (h_perMetric h) m = (let n = card (metric_keys (contents h) m) in if n = 0 then None else Some (int n))"
  using assms unfolding head_inv_def by blast+

lemma sint_64_bounds: "- (2 ^ 63) \<le> sint (x :: i64)" "sint x \<le> 2 ^ 63 - 1"
  using sint_ge [of x] sint_less [of x] by simp_all

lemma sint_limits: "sint (- (2 ^ 63) :: i64) = - (2 ^ 63)" "sint (2 ^ 63 - 1 :: i64) = 2 ^ 63 - 1"
  by simp_all

lemma all_samples_stores: "stores r ms xs \<Longrightarrow> all_samples ms = xs"
proof -
  assume "stores r ms xs"
  moreover have "filter (\<lambda>(t, v). sint (- (2 ^ 63) :: i64) \<le> sint t \<and> sint t \<le> sint (2 ^ 63 - 1 :: i64)) xs = xs"
    unfolding sint_limits by (rule filter_True) (use sint_64_bounds in \<open>simp add: split_beta\<close>)
  ultimately show ?thesis unfolding all_samples_def using samplesIn_stores by simp
qed

lemma series_entryD:
  assumes "series_entry h i ms"
  shows "ms_id ms = i" "unat i \<le> unat (h_nextID h)" "shard_get h (series_Key (ms_ref ms)) = Some i"
    "stores (h_range h) ms (all_samples ms)"
  using assms unfolding series_entry_def by blast+

section \<open>Shards\<close>

lemma shard_get_put [simp]: "shard_get (shard_put k i h) k' = (if k' = k then Some i else shard_get h k')"
  by (simp add: shard_get_def shard_put_def shardFor_def Let_def update_conv')

lemma shard_get_delete [simp]: "shard_get (shard_delete k h) k' = (if k' = k then None else shard_get h k')"
  by (simp add: shard_get_def shard_delete_def shardFor_def Let_def delete_conv')

lemma shard_get_upd [simp]:
  "shard_get (h\<lparr>h_byID := a\<rparr>) k = shard_get h k" "shard_get (h\<lparr>h_perMetric := b\<rparr>) k = shard_get h k"
  "shard_get (h\<lparr>h_postings := c\<rparr>) k = shard_get h k" "shard_get (h\<lparr>h_nextID := d\<rparr>) k = shard_get h k"
  "shard_get (h\<lparr>h_minValid := e\<rparr>) k = shard_get h k" "shard_get (h\<lparr>h_oooDropped := f\<rparr>) k = shard_get h k"
  "shard_get (h\<lparr>h_limitHits := g\<rparr>) k = shard_get h k"
  by (simp_all add: shard_get_def shardFor_def)

lemma shard_fields [simp]:
  "h_opts (shard_put k i h) = h_opts h" "h_byID (shard_put k i h) = h_byID h" "h_postings (shard_put k i h) = h_postings h"
  "h_perMetric (shard_put k i h) = h_perMetric h" "h_nextID (shard_put k i h) = h_nextID h" "h_minValid (shard_put k i h) = h_minValid h"
  "h_opts (shard_delete k h) = h_opts h" "h_byID (shard_delete k h) = h_byID h" "h_postings (shard_delete k h) = h_postings h"
  "h_perMetric (shard_delete k h) = h_perMetric h" "h_nextID (shard_delete k h) = h_nextID h" "h_minValid (shard_delete k h) = h_minValid h"
  by (simp_all add: shard_put_def shard_delete_def Let_def)

section \<open>Entering, replacing and forgetting a series\<close>

lemma enter_fields [simp]:
  "h_opts (enter_series ms h) = h_opts h" "h_nextID (enter_series ms h) = h_nextID h" "h_minValid (enter_series ms h) = h_minValid h"
  "h_postings (enter_series ms h) = postings_Add (ms_id ms) (ms_ref ms) (h_postings h)"
  "head_series (enter_series ms h) i = (if i = ms_id ms then Some ms else head_series h i)"
  "shard_get (enter_series ms h) k = (if k = series_Key (ms_ref ms) then Some (ms_id ms) else shard_get h k)"
  by (simp_all add: enter_series_def Let_def head_series_def update_conv')

lemma set_fields [simp]:
  "h_opts (set_series i ms h) = h_opts h" "h_nextID (set_series i ms h) = h_nextID h" "h_minValid (set_series i ms h) = h_minValid h"
  "h_postings (set_series i ms h) = h_postings h" "h_perMetric (set_series i ms h) = h_perMetric h"
  "head_series (set_series i ms h) j = (if j = i then Some ms else head_series h j)"
  "shard_get (set_series i ms h) k = shard_get h k"
  by (simp_all add: set_series_def head_series_def update_conv')

lemma forget_fields:
  assumes "head_series h i = Some ms"
  shows "h_opts (forget i ref h) = h_opts h" "h_nextID (forget i ref h) = h_nextID h" "h_minValid (forget i ref h) = h_minValid h"
    "h_postings (forget i ref h) = postings_Delete i ref (h_postings h)"
    "head_series (forget i ref h) j = (if j = i then None else head_series h j)"
    "shard_get (forget i ref h) k = (if k = series_Key ref then None else shard_get h k)"
  using assms by (simp_all add: forget_def Let_def head_series_def delete_conv')

lemma key_inj:
  assumes "head_inv h" "head_series h i = Some ms" "head_series h j = Some ms'" "series_Key (ms_ref ms) = series_Key (ms_ref ms')"
  shows "i = j"
  using head_invD(2) [OF assms(1)] assms(2-4) series_entryD(3) by (metis option.inject)

lemma held_by_key: "head_inv h \<Longrightarrow> head_series h i = Some ms \<Longrightarrow> held h (series_Key (ms_ref ms)) = Some ms"
  using head_invD(2) series_entryD(3) unfolding held_def by fastforce

lemma held_iff:
  "head_inv h \<Longrightarrow> held h k = Some ms \<longleftrightarrow> (\<exists>i. head_series h i = Some ms \<and> series_Key (ms_ref ms) = k)"
proof
  assume "head_inv h" "held h k = Some ms"
  then show "\<exists>i. head_series h i = Some ms \<and> series_Key (ms_ref ms) = k"
    using head_invD(3) [of h k] unfolding held_def by (cases "shard_get h k") fastforce+
qed (use held_by_key in blast)

lemma finite_held:
  assumes "head_inv h"
  shows "finite (dom (held h))"
proof -
  have "dom (held h) \<subseteq> (\<lambda>ms. series_Key (ms_ref ms)) ` snd ` set (h_byID h)"
    using held_iff [OF assms] unfolding head_series_def by (force dest: map_of_SomeD)
  then show ?thesis by (rule finite_subset) simp
qed

lemma finite_metric_keys:
  assumes "head_inv h"
  shows "finite (metric_keys (contents h) m)"
  by (rule finite_subset [OF _ finite_held [OF assms]]) (auto simp: metric_keys_def contents_def)

lemma contents_Some:
  "head_inv h \<Longrightarrow> contents h k = Some (ref, xs) \<longleftrightarrow>
    (\<exists>i ms. head_series h i = Some ms \<and> ms_ref ms = ref \<and> series_Key ref = k \<and> all_samples ms = xs)"
  using held_iff [of h k] by (auto simp: contents_def)

lemma perMetric_count: "head_inv h \<Longrightarrow> perMetric h m = int (card (metric_keys (contents h) m))"
  using head_invD(5) [of h m] by (simp add: perMetric_def Let_def)

lemma metric_keys_add:
  "A k = None \<Longrightarrow> metric_keys (A(k \<mapsto> (ref, xs))) m = (if m = ref_Metric ref then insert k (metric_keys A m) else metric_keys A m)"
  by (auto simp: metric_keys_def)

lemma metric_keys_del:
  "A k = Some (ref, xs) \<Longrightarrow> metric_keys (A(k := None)) m = metric_keys A m - {k}"
  by (auto simp: metric_keys_def)

lemma metric_keys_same:
  "A k = Some (ref, xs) \<Longrightarrow> metric_keys (A(k \<mapsto> (ref, ys))) m = metric_keys A m"
  by (auto simp: metric_keys_def)

lemma contents_free: "shard_get h k = None \<Longrightarrow> contents h k = None"
  by (simp add: contents_def held_def)

lemma contents_enter:
  assumes "head_inv h" "head_series h (ms_id ms) = None"
  shows "contents (enter_series ms h) = (contents h)(series_Key (ms_ref ms) \<mapsto> (ms_ref ms, all_samples ms))"
proof
  fix k
  show "contents (enter_series ms h) k = ((contents h)(series_Key (ms_ref ms) \<mapsto> (ms_ref ms, all_samples ms))) k"
    using head_invD(3) [OF assms(1), of k] assms(2) by (auto simp: contents_def held_def split: option.splits)
qed

lemma contents_set:
  assumes "head_inv h" "head_series h i = Some ms" "ms_ref ms' = ms_ref ms"
  shows "contents (set_series i ms' h) = (contents h)(series_Key (ms_ref ms) \<mapsto> (ms_ref ms, all_samples ms'))"
proof
  fix k
  have "shard_get h k = Some i \<longleftrightarrow> k = series_Key (ms_ref ms)"
    using head_invD(3) [OF assms(1), of k i] head_invD(2) [OF assms(1,2)] series_entryD(3) assms(2) by auto
  then show "contents (set_series i ms' h) k = ((contents h)(series_Key (ms_ref ms) \<mapsto> (ms_ref ms, all_samples ms'))) k"
    using assms(2,3) by (auto simp: contents_def held_def split: option.splits)
qed

lemma contents_forget:
  assumes "head_inv h" "head_series h i = Some ms"
  shows "contents (forget i (ms_ref ms) h) = (contents h)(series_Key (ms_ref ms) := None)"
proof
  fix k
  have "shard_get h k = Some i \<Longrightarrow> k = series_Key (ms_ref ms)"
    using head_invD(3) [OF assms(1), of k i] assms(2) by auto
  then show "contents (forget i (ms_ref ms) h) k = ((contents h)(series_Key (ms_ref ms) := None)) k"
    by (auto simp: contents_def held_def forget_fields [OF assms(2)] split: option.splits)
qed

lemma head_Series_upd:
  "head_Series (enter_series ms h) = (head_Series h)(ms_id ms \<mapsto> ms_ref ms)"
  "head_series h i = Some ms \<Longrightarrow> ms_ref ms' = ms_ref ms \<Longrightarrow> head_Series (set_series i ms' h) = head_Series h"
  "head_series h i = Some ms \<Longrightarrow> head_Series (forget i ref h) = (head_Series h)(i := None)"
  by (auto simp: head_Series_def forget_fields)

lemma enter_perMetric: "h_perMetric (enter_series ms h) =
  AList.update (ref_Metric (ms_ref ms)) (perMetric h (ref_Metric (ms_ref ms)) + 1) (h_perMetric h)"
  by (simp add: enter_series_def Let_def)

lemma enter_inv:
  assumes inv: "head_inv h" and free: "shard_get h (series_Key (ms_ref ms)) = None" "head_series h (ms_id ms) = None"
    and i: "unat (ms_id ms) \<le> unat (h_nextID h)" and st: "stores (h_range h) ms (all_samples ms)"
  shows "head_inv (enter_series ms h)"
  unfolding head_inv_def
proof (intro conjI allI impI)
  show "0 < sint (h_range (enter_series ms h))" using head_invD(1) [OF inv] by simp
next
  fix j ms' assume "head_series (enter_series ms h) j = Some ms'"
  then show "series_entry (enter_series ms h) j ms'"
    using head_invD(2) [OF inv, of j ms'] free i st by (auto simp: series_entry_def split: if_splits)
next
  fix k j assume "shard_get (enter_series ms h) k = Some j"
  then show "\<exists>ms'. head_series (enter_series ms h) j = Some ms' \<and> series_Key (ms_ref ms') = k"
    using head_invD(3) [OF inv, of k j] free(2) by (auto split: if_splits)
next
  have "head_Series h (ms_id ms) = None" using free(2) by (simp add: head_Series_def)
  then show "indexes (h_postings (enter_series ms h)) (head_Series (enter_series ms h))"
    using indexes_Add [OF head_invD(4) [OF inv]] by (simp add: head_Series_upd)
next
  fix m
  have "contents h (series_Key (ms_ref ms)) = None" by (rule contents_free) (rule free(1))
  then have keys: "metric_keys (contents (enter_series ms h)) m =
      (if m = ref_Metric (ms_ref ms) then insert (series_Key (ms_ref ms)) (metric_keys (contents h) m) else metric_keys (contents h) m)"
    "series_Key (ms_ref ms) \<notin> metric_keys (contents h) m"
    unfolding contents_enter [OF inv free(2)] by (simp_all add: metric_keys_add) (simp add: metric_keys_def)
  show "map_of (h_perMetric (enter_series ms h)) m =
      (let n = card (metric_keys (contents (enter_series ms h)) m) in if n = 0 then None else Some (int n))"
    unfolding keys(1) enter_perMetric using head_invD(5) [OF inv, of m] keys(2) finite_metric_keys [OF inv, of m]
    by (auto simp: update_conv' perMetric_count [OF inv] Let_def)
qed

lemma set_inv:
  assumes inv: "head_inv h" and ms: "head_series h i = Some ms" "ms_id ms' = ms_id ms" "ms_ref ms' = ms_ref ms"
    and st: "stores (h_range h) ms' (all_samples ms')"
  shows "head_inv (set_series i ms' h)"
  unfolding head_inv_def
proof (intro conjI allI impI)
  show "0 < sint (h_range (set_series i ms' h))" using head_invD(1) [OF inv] by simp
next
  fix j ms2 assume "head_series (set_series i ms' h) j = Some ms2"
  then show "series_entry (set_series i ms' h) j ms2"
    using head_invD(2) [OF inv, of j] ms st by (auto simp: series_entry_def split: if_splits)
next
  fix k j assume "shard_get (set_series i ms' h) k = Some j"
  then show "\<exists>ms2. head_series (set_series i ms' h) j = Some ms2 \<and> series_Key (ms_ref ms2) = k"
    using head_invD(3) [OF inv, of k j] ms by auto
next
  show "indexes (h_postings (set_series i ms' h)) (head_Series (set_series i ms' h))"
    using head_invD(4) [OF inv] by (simp add: head_Series_upd(2) [OF ms(1,3)])
next
  fix m
  have "contents h (series_Key (ms_ref ms)) = Some (ms_ref ms, all_samples ms)"
    using held_by_key [OF inv ms(1)] by (simp add: contents_def)
  then have "metric_keys (contents (set_series i ms' h)) m = metric_keys (contents h) m"
    unfolding contents_set [OF inv ms(1,3)] by (rule metric_keys_same)
  then show "map_of (h_perMetric (set_series i ms' h)) m =
      (let n = card (metric_keys (contents (set_series i ms' h)) m) in if n = 0 then None else Some (int n))"
    using head_invD(5) [OF inv, of m] by simp
qed

lemma forget_perMetric:
  assumes "head_series h i = Some ms"
  shows "map_of (h_perMetric (forget i ref h)) m =
    (if m = ref_Metric ref then (if perMetric h m - 1 \<le> 0 then None else Some (perMetric h m - 1)) else map_of (h_perMetric h) m)"
  using assms by (simp add: forget_def Let_def update_conv' delete_conv')

lemma forget_inv:
  assumes inv: "head_inv h" and ms: "head_series h i = Some ms"
  shows "head_inv (forget i (ms_ref ms) h)"
  unfolding head_inv_def
proof (intro conjI allI impI)
  note f = forget_fields [OF ms, of "ms_ref ms"]
  show "0 < sint (h_range (forget i (ms_ref ms) h))" using head_invD(1) [OF inv] by (simp add: f)
  fix j ms2 assume "head_series (forget i (ms_ref ms) h) j = Some ms2"
  then have j: "j \<noteq> i" "head_series h j = Some ms2" by (auto simp: f split: if_splits)
  then have "series_Key (ms_ref ms2) \<noteq> series_Key (ms_ref ms)" using key_inj [OF inv ms j(2)] by auto
  then show "series_entry (forget i (ms_ref ms) h) j ms2" using head_invD(2) [OF inv j(2)] by (simp add: series_entry_def f)
next
  note f = forget_fields [OF ms, of "ms_ref ms"]
  fix k j assume "shard_get (forget i (ms_ref ms) h) k = Some j"
  then have "k \<noteq> series_Key (ms_ref ms)" "shard_get h k = Some j" by (auto simp: f split: if_splits)
  with head_invD(3) [OF inv this(2)] ms show "\<exists>ms2. head_series (forget i (ms_ref ms) h) j = Some ms2 \<and> series_Key (ms_ref ms2) = k"
    by (auto simp: f)
next
  have "head_Series h i = Some (ms_ref ms)" using ms by (simp add: head_Series_def)
  then show "indexes (h_postings (forget i (ms_ref ms) h)) (head_Series (forget i (ms_ref ms) h))"
    using indexes_Delete [OF head_invD(4) [OF inv]] by (simp add: head_Series_upd(3) [OF ms] forget_fields [OF ms])
next
  fix m
  have c: "contents h (series_Key (ms_ref ms)) = Some (ms_ref ms, all_samples ms)"
    using held_by_key [OF inv ms] by (simp add: contents_def)
  then have keys: "metric_keys (contents (forget i (ms_ref ms) h)) m = metric_keys (contents h) m - {series_Key (ms_ref ms)}"
    unfolding contents_forget [OF inv ms] by (rule metric_keys_del)
  have mem: "series_Key (ms_ref ms) \<in> metric_keys (contents h) m \<longleftrightarrow> m = ref_Metric (ms_ref ms)" using c by (auto simp: metric_keys_def)
  show "map_of (h_perMetric (forget i (ms_ref ms) h)) m =
      (let n = card (metric_keys (contents (forget i (ms_ref ms) h)) m) in if n = 0 then None else Some (int n))"
  proof (cases "m = ref_Metric (ms_ref ms)")
    case True
    then have "series_Key (ms_ref ms) \<in> metric_keys (contents h) m" using mem by blast
    then have "card (metric_keys (contents h) m) = Suc (card (metric_keys (contents (forget i (ms_ref ms) h)) m))"
      unfolding keys by (rule card.remove [OF finite_metric_keys [OF inv]])
    with True show ?thesis by (simp add: forget_perMetric [OF ms] perMetric_count [OF inv] Let_def)
  next
    case False
    then show ?thesis using mem head_invD(5) [OF inv, of m] by (simp add: forget_perMetric [OF ms] keys)
  qed
qed

section \<open>Counters and bounds\<close>

lemma same_series_upd [simp]:
  "head_series (h\<lparr>h_nextID := n\<rparr>) i = head_series h i" "head_series (h\<lparr>h_minValid := m\<rparr>) i = head_series h i"
  "head_series (h\<lparr>h_oooDropped := d\<rparr>) i = head_series h i" "head_series (h\<lparr>h_limitHits := l\<rparr>) i = head_series h i"
  by (simp_all add: head_series_def)

lemma same_contents_upd [simp]:
  "contents (h\<lparr>h_nextID := n\<rparr>) = contents h" "contents (h\<lparr>h_minValid := m\<rparr>) = contents h"
  "contents (h\<lparr>h_oooDropped := d\<rparr>) = contents h" "contents (h\<lparr>h_limitHits := l\<rparr>) = contents h"
  by (simp_all add: fun_eq_iff contents_def held_def split: option.split)

lemma same_Series_upd [simp]:
  "head_Series (h\<lparr>h_nextID := n\<rparr>) = head_Series h" "head_Series (h\<lparr>h_minValid := m\<rparr>) = head_Series h"
  "head_Series (h\<lparr>h_oooDropped := d\<rparr>) = head_Series h" "head_Series (h\<lparr>h_limitHits := l\<rparr>) = head_Series h"
  by (simp_all add: fun_eq_iff head_Series_def)

lemma counters_inv [simp]:
  "head_inv (h\<lparr>h_minValid := m\<rparr>) = head_inv h" "head_inv (h\<lparr>h_oooDropped := d\<rparr>) = head_inv h"
  "head_inv (h\<lparr>h_limitHits := l\<rparr>) = head_inv h"
  by (simp_all add: head_inv_def series_entry_def)

lemma nextID_inv: "head_inv h \<Longrightarrow> unat (h_nextID h) \<le> unat n \<Longrightarrow> head_inv (h\<lparr>h_nextID := n\<rparr>)"
  by (auto simp: head_inv_def series_entry_def intro: order_trans)

lemma Freeze_window [simp]: "contents (Freeze m h) = contents h" "head_inv (Freeze m h) = head_inv h"
  by (simp_all add: Freeze_def)

lemma stores_newSeries [simp]: "all_samples (newSeries i ref l) = []" "stores r (newSeries i ref l) []"
  using stores_new all_samples_stores by blast+

lemma newSeries_fields [simp]: "ms_id (newSeries i ref l) = i" "ms_ref (newSeries i ref l) = ref"
  "ms_logged (newSeries i ref l) = l" "ms_chunks (newSeries i ref l) = []"
  by (simp_all add: newSeries_def)

lemma New_inv: "head_inv (head_New hash opts)" "contents (head_New hash opts) = Map.empty"
proof -
  have none: "shard_get (head_New hash opts) = Map.empty" "head_series (head_New hash opts) = Map.empty"
    by (auto simp: head_New_def shard_get_def head_series_def)
  then have S: "head_Series (head_New hash opts) = Map.empty" by (auto simp: head_Series_def)
  show c: "contents (head_New hash opts) = Map.empty" by (auto simp: contents_def held_def none)
  have "metric_keys Map.empty m = {}" for m by (simp add: metric_keys_def)
  then show "head_inv (head_New hash opts)"
    unfolding head_inv_def none S c using indexes_New by (simp add: head_New_def DefaultBlockRange_def)
qed

lemma empty_chunks: "head_inv h \<Longrightarrow> head_series h i = Some ms \<Longrightarrow> ms_chunks ms = [] \<longleftrightarrow> all_samples ms = []"
  using head_invD(2) series_entryD(4) stores_empty by blast

section \<open>Resolving one series\<close>

text \<open>What \<open>getOrCreate\<close> does to the window: a series that is not there is admitted, empty, unless its
  metric has as many series as it may have.\<close>

definition admit :: "int \<Rightarrow> window \<Rightarrow> SeriesRef \<Rightarrow> head_error + window" where
  "admit lim A ref =
     (if A (series_Key ref) \<noteq> None then Inr A
      else if 0 < lim \<and> lim \<le> int (card (metric_keys A (ref_Metric ref))) then Inl ErrSeriesLimit
      else Inr (A(series_Key ref \<mapsto> (ref, []))))"

text \<open>A head grows when it keeps every series it has and the new ones are empty and not yet logged.\<close>

definition grows :: "Head \<Rightarrow> Head \<Rightarrow> bool" where
  "grows h h' \<longleftrightarrow> h_opts h' = h_opts h \<and> h_minValid h' = h_minValid h \<and> unat (h_nextID h) \<le> unat (h_nextID h') \<and>
     (\<forall>i ms. head_series h i = Some ms \<longrightarrow> head_series h' i = Some ms) \<and>
     (\<forall>k i. shard_get h k = Some i \<longrightarrow> shard_get h' k = Some i) \<and>
     (\<forall>i ms. head_series h' i = Some ms \<and> head_series h i = None \<longrightarrow>
        \<not> ms_logged ms \<and> all_samples ms = [] \<and> unat (h_nextID h) < unat i)"

lemma growsD:
  assumes "grows h h'"
  shows "h_opts h' = h_opts h" "h_minValid h' = h_minValid h" "unat (h_nextID h) \<le> unat (h_nextID h')"
    "head_series h i = Some ms \<Longrightarrow> head_series h' i = Some ms" "shard_get h k = Some i \<Longrightarrow> shard_get h' k = Some i"
    "head_series h' i = Some ms \<Longrightarrow> head_series h i = None \<Longrightarrow> \<not> ms_logged ms \<and> all_samples ms = [] \<and> unat (h_nextID h) < unat i"
  using assms unfolding grows_def by blast+

lemma grows_refl [simp]: "grows h h"
  by (auto simp: grows_def)

lemma grows_trans:
  assumes "grows h h1" "grows h1 h2"
  shows "grows h h2"
  unfolding grows_def
proof (intro conjI allI impI)
  show "unat (h_nextID h) \<le> unat (h_nextID h2)" using growsD(3) [OF assms(1)] growsD(3) [OF assms(2)] by linarith
  fix i ms assume new: "head_series h2 i = Some ms \<and> head_series h i = None"
  have "\<not> ms_logged ms \<and> all_samples ms = [] \<and> unat (h_nextID h) < unat i"
  proof (cases "head_series h1 i")
    case None
    then show ?thesis using new growsD(6) [OF assms(2)] growsD(3) [OF assms(1)] by fastforce
  next
    case (Some ms1)
    then show ?thesis using new growsD(6) [OF assms(1) Some] growsD(4) [OF assms(2) Some] by auto
  qed
  then show "\<not> ms_logged ms" "all_samples ms = []" "unat (h_nextID h) < unat i" by blast+
qed (use growsD(1,2,4,5) [OF assms(1)] growsD(1,2,4,5) [OF assms(2)] in auto)

lemma unat_next: "unat (n :: u64) + 1 < 2 ^ 64 \<Longrightarrow> unat (n + 1) = unat n + 1"
  by (simp add: unat_word_ariths)

lemma fresh_id:
  assumes "head_inv h" "unat (h_nextID h) < unat i"
  shows "head_series h i = None"
  using head_invD(2) [OF assms(1)] series_entryD(2) assms(2) by (metis not_less option.exhaust)

lemma shard_contents: "head_inv h \<Longrightarrow> shard_get h k = None \<longleftrightarrow> contents h k = None"
  using head_invD(3) [of h k] by (fastforce simp: contents_def held_def split: option.splits)

lemma getOrCreate_spec:
  assumes inv: "head_inv h" and room: "unat (h_nextID h) + 1 < 2 ^ 64" and g: "getOrCreate ref h = (res, h')"
  shows "grows h h' \<and> head_inv h' \<and> unat (h_nextID h') \<le> unat (h_nextID h) + 1 \<and>
    (case res of
       Inl e \<Rightarrow> admit (opt_MaxSeriesPerMetric (h_opts h)) (contents h) ref = Inl e \<and> contents h' = contents h
     | Inr (n, isNew) \<Rightarrow> admit (opt_MaxSeriesPerMetric (h_opts h)) (contents h) ref = Inr (contents h') \<and>
         shard_get h' (series_Key ref) = Some n \<and> (isNew \<longleftrightarrow> contents h (series_Key ref) = None))"
proof (cases "shard_get h (series_Key ref)")
  case (Some i)
  then have "contents h (series_Key ref) \<noteq> None" using shard_contents [OF inv, of "series_Key ref"] by (metis option.distinct(1))
  with Some g inv show ?thesis by (auto simp: getOrCreate_def admit_def)
next
  case None
  note c = contents_free [OF None]
  let ?i = "h_nextID h + 1" and ?lim = "opt_MaxSeriesPerMetric (h_opts h)"
  show ?thesis
  proof (cases "0 < ?lim \<and> ?lim \<le> perMetric h (ref_Metric ref)")
    case True
    with None g inv c show ?thesis by (auto simp: getOrCreate_def admit_def perMetric_count grows_def)
  next
    case False
    let ?h = "h\<lparr>h_nextID := ?i\<rparr>" and ?ms = "newSeries ?i ref False"
    have i: "unat ?i = unat (h_nextID h) + 1" using room by (rule unat_next)
    have eq: "res = Inr (?i, True)" "h' = enter_series ?ms ?h" using None False g by (auto simp: getOrCreate_def Let_def)
    have h: "head_inv ?h" using nextID_inv [OF inv] i by simp
    have free: "head_series h ?i = None" using fresh_id [OF inv] i by simp
    have "head_inv h'" unfolding eq(2) using enter_inv [OF h, of ?ms] None free by simp
    moreover have "contents h' = (contents h)(series_Key ref \<mapsto> (ref, []))"
      unfolding eq(2) using contents_enter [OF h, of ?ms] free by simp
    moreover have "grows h h'" unfolding grows_def eq(2) using i None free by (auto split: if_splits)
    ultimately show ?thesis using False c i unfolding eq by (simp add: admit_def perMetric_count [OF inv])
  qed
qed

section \<open>Applying one sample\<close>

definition window_samples :: "window \<Rightarrow> string \<Rightarrow> Sample list" where
  "window_samples A k = (case A k of None \<Rightarrow> [] | Some (ref, xs) \<Rightarrow> xs)"

definition window_put :: "i64 \<Rightarrow> string \<Rightarrow> i64 \<Rightarrow> f64 \<Rightarrow> window \<Rightarrow> (head_error + bool) \<times> window" where
  "window_put minValid k t v A =
     (case A k of
        None \<Rightarrow> (Inl NilSeries, A)
      | Some (ref, xs) \<Rightarrow> (let (res, xs') = abs_append minValid t v xs in (res, A(k \<mapsto> (ref, xs')))))"

text \<open>Heads with the same series and definitions in the log, up to their samples.\<close>

definition same_series :: "Head \<Rightarrow> Head \<Rightarrow> bool" where
  "same_series h h' \<longleftrightarrow> h_opts h' = h_opts h \<and> h_minValid h' = h_minValid h \<and> h_nextID h' = h_nextID h \<and>
     shard_get h' = shard_get h \<and>
     (\<forall>i. map_option (\<lambda>ms. (ms_id ms, ms_ref ms, ms_logged ms)) (head_series h' i) =
        map_option (\<lambda>ms. (ms_id ms, ms_ref ms, ms_logged ms)) (head_series h i))"

lemma same_series_refl [simp]: "same_series h h"
  by (simp add: same_series_def)

lemma same_series_trans: "same_series h h1 \<Longrightarrow> same_series h1 h2 \<Longrightarrow> same_series h h2"
  by (simp add: same_series_def)

lemma apply_sample_spec:
  assumes inv: "head_inv h" and k: "shard_get h k = Some n" and a: "apply_sample n t v minValid h = (res, h')"
  shows "head_inv h' \<and> same_series h h' \<and> window_put minValid k t v (contents h) = (res, contents h')"
proof -
  obtain ms where ms: "head_series h n = Some ms" "series_Key (ms_ref ms) = k" using head_invD(3) [OF inv k] by blast
  have st: "stores (h_range h) ms (all_samples ms)" using head_invD(2) [OF inv ms(1)] by (rule series_entryD)
  obtain ms' where app: "appendTo (h_range h) ms t v minValid = (res, ms')" "h' = set_series n ms' h"
    using a ms(1) by (auto simp: apply_sample_def split: prod.splits)
  note r = appendTo_refines [OF st, where t = t and v = v and minValid = minValid, unfolded app(1) fst_conv snd_conv]
  have all: "all_samples ms' = snd (abs_append minValid t v (all_samples ms))" by (rule all_samples_stores [OF r(2)])
  have "head_inv h'" unfolding app(2) using set_inv [OF inv ms(1) r(3,4)] r(2) all by simp
  moreover have "same_series h h'" unfolding app(2) same_series_def using ms(1) r(3-5) by auto
  moreover have c: "contents h k = Some (ms_ref ms, all_samples ms)" using held_by_key [OF inv ms(1)] ms(2) by (simp add: contents_def)
  then have "window_put minValid k t v (contents h) = (res, contents h')"
    unfolding app(2) contents_set [OF inv ms(1) r(4)] window_put_def using r(1) all ms(2) by (simp add: split_beta prod_eq_iff)
  ultimately show ?thesis by blast
qed

section \<open>Forgetting empty series\<close>

lemma forgetEmpty_spec:
  assumes "head_inv h"
  shows "head_inv (snd (forgetEmpty ns h)) \<and>
    contents (snd (forgetEmpty ns h)) =
      (\<lambda>k. if (\<exists>n \<in> set ns. shard_get h k = Some n) \<and> window_samples (contents h) k = [] then None else contents h k)"
  using assms
proof (induction ns arbitrary: h)
  case (Cons n ns)
  let ?F = "\<lambda>ns h k. if (\<exists>n \<in> set ns. shard_get h k = Some n) \<and> window_samples (contents h) k = [] then None else contents h k"
  show ?case
  proof (cases "head_series h n")
    case None
    then have "shard_get h k \<noteq> Some n" for k using head_invD(3) [OF Cons.prems] by fastforce
    then show ?thesis using None Cons.IH [OF Cons.prems] by auto
  next
    case (Some ms)
    have key: "shard_get h k = Some n \<longleftrightarrow> k = series_Key (ms_ref ms)" for k
      using head_invD(2,3) [OF Cons.prems] Some series_entryD(3) by fastforce
    have c: "contents h (series_Key (ms_ref ms)) = Some (ms_ref ms, all_samples ms)"
      using held_by_key [OF Cons.prems Some] by (simp add: contents_def)
    show ?thesis
    proof (cases "ms_chunks ms = []")
      case False
      then have ne: "window_samples (contents h) (series_Key (ms_ref ms)) \<noteq> []"
        using empty_chunks [OF Cons.prems Some] by (simp add: window_samples_def c)
      have "?F (n # ns) h k = ?F ns h k" for k using ne key [of k] by (cases "k = series_Key (ms_ref ms)") auto
      then have "?F (n # ns) h = ?F ns h" by blast
      moreover have "snd (forgetEmpty (n # ns) h) = snd (forgetEmpty ns h)" using Some False by simp
      ultimately show ?thesis using Cons.IH [OF Cons.prems] by (simp only:)
    next
      case True
      then have e: "window_samples (contents h) (series_Key (ms_ref ms)) = []"
        using empty_chunks [OF Cons.prems Some] by (simp add: window_samples_def c)
      let ?h = "forget n (ms_ref ms) h"
      have cf: "contents ?h k = (if k = series_Key (ms_ref ms) then None else contents h k)" for k
        unfolding contents_forget [OF Cons.prems Some] by simp
      have "?F (n # ns) h k = ?F ns ?h k" for k
        using e key [of k] cf [of k] forget_fields(6) [OF Some, of "ms_ref ms" k]
        by (cases "k = series_Key (ms_ref ms)") (auto simp: window_samples_def)
      then have "?F (n # ns) h = ?F ns ?h" by blast
      moreover have "snd (forgetEmpty (n # ns) h) = snd (forgetEmpty ns ?h)" using Some True by (simp add: split_beta)
      ultimately show ?thesis using Cons.IH [OF forget_inv [OF Cons.prems Some]] by (simp only:)
    qed
  qed
qed simp

text \<open>What is left after forgetting was there before, with the same identity.\<close>

definition shrinks :: "Head \<Rightarrow> Head \<Rightarrow> bool" where
  "shrinks h h' \<longleftrightarrow> h_opts h' = h_opts h \<and> h_minValid h' = h_minValid h \<and> h_nextID h' = h_nextID h \<and>
     (\<forall>i ms'. head_series h' i = Some ms' \<longrightarrow>
        (\<exists>ms. head_series h i = Some ms \<and> ms_id ms' = ms_id ms \<and> ms_ref ms' = ms_ref ms \<and> ms_logged ms' = ms_logged ms))"

lemma shrinks_refl [simp]: "shrinks h h"
  by (simp add: shrinks_def)

lemma shrinks_trans: "shrinks h h1 \<Longrightarrow> shrinks h1 h2 \<Longrightarrow> shrinks h h2"
  unfolding shrinks_def by metis

lemma shrinks_forget: "shrinks h (forget i ref h)"
proof (cases "head_series h i")
  case (Some ms)
  then show ?thesis by (auto simp: shrinks_def forget_fields [OF Some] split: if_splits)
qed (simp add: forget_def)

lemma same_seriesD:
  assumes "same_series h h'" "head_series h' i = Some ms'"
  shows "\<exists>ms. head_series h i = Some ms \<and> ms_id ms' = ms_id ms \<and> ms_ref ms' = ms_ref ms \<and> ms_logged ms' = ms_logged ms"
proof -
  have "map_option (\<lambda>ms. (ms_id ms, ms_ref ms, ms_logged ms)) (head_series h' i) =
      map_option (\<lambda>ms. (ms_id ms, ms_ref ms, ms_logged ms)) (head_series h i)" using assms(1) unfolding same_series_def by blast
  with assms(2) show ?thesis by (cases "head_series h i") auto
qed

lemma same_series_shrinks: "same_series h h' \<Longrightarrow> shrinks h h'"
  unfolding shrinks_def using same_seriesD by (simp add: same_series_def)

lemma shrinks_forgetEmpty: "shrinks h (snd (forgetEmpty ns h))"
proof (induction ns h rule: forgetEmpty.induct)
  case (2 i ns h)
  then show ?case using shrinks_trans [OF shrinks_forget] by (cases "head_series h i") (auto simp: split_beta)
qed simp

section \<open>Truncating\<close>

definition window_from :: "i64 \<Rightarrow> window \<Rightarrow> window" where
  "window_from mint A k =
     (case A k of
        None \<Rightarrow> None
      | Some (ref, xs) \<Rightarrow> (let ys = filter (\<lambda>(t, v). sint mint \<le> sint t) xs in if ys = [] then None else Some (ref, ys)))"

lemma drop_series:
  assumes inv: "head_inv h" and ms: "head_series h i = Some ms" and mint: "sint mint mod sint (h_range h) = 0"
  shows "all_samples (drop_chunks mint ms) = filter (\<lambda>(t, v). sint mint \<le> sint t) (all_samples ms)"
    "head_inv (set_series i (drop_chunks mint ms) h)"
    "ms_chunks (drop_chunks mint ms) = [] \<longleftrightarrow> filter (\<lambda>(t, v). sint mint \<le> sint t) (all_samples ms) = []"
    "shrinks h (set_series i (drop_chunks mint ms) h)" "ms_ref (drop_chunks mint ms) = ms_ref ms"
proof -
  have st: "stores (h_range h) ms (all_samples ms)" using head_invD(2) [OF inv ms] by (rule series_entryD)
  have "sint mint = sint mint div sint (h_range h) * sint (h_range h)" using mint by (simp add: mod_0_imp_dvd)
  note d = drop_chunks_stores [OF st head_invD(1) [OF inv] this]
  show all: "all_samples (drop_chunks mint ms) = filter (\<lambda>(t, v). sint mint \<le> sint t) (all_samples ms)"
    by (rule all_samples_stores [OF d(1)])
  show "head_inv (set_series i (drop_chunks mint ms) h)" using set_inv [OF inv ms d(2,3)] d(1) all by simp
  show "ms_chunks (drop_chunks mint ms) = [] \<longleftrightarrow> filter (\<lambda>(t, v). sint mint \<le> sint t) (all_samples ms) = []"
    by (rule stores_empty [OF d(1)])
  show "shrinks h (set_series i (drop_chunks mint ms) h)" unfolding shrinks_def using ms d(2-4) by auto
  show "ms_ref (drop_chunks mint ms) = ms_ref ms" by (rule d(3))
qed

lemma truncate_all_spec:
  assumes "head_inv h" "sint mint mod sint (h_range h) = 0"
  shows "head_inv (snd (truncate_all mint ns h)) \<and> shrinks h (snd (truncate_all mint ns h)) \<and>
    contents (snd (truncate_all mint ns h)) =
      (\<lambda>k. if \<exists>n \<in> set ns. shard_get h k = Some n then window_from mint (contents h) k else contents h k)"
  using assms
proof (induction ns arbitrary: h)
  case (Cons n ns)
  let ?F = "\<lambda>ns h k. if \<exists>n \<in> set ns. shard_get h k = Some n then window_from mint (contents h) k else contents h k"
  show ?case
  proof (cases "head_series h n")
    case None
    then have "shard_get h k \<noteq> Some n" for k using head_invD(3) [OF Cons.prems(1)] by fastforce
    then show ?thesis using None Cons.IH [OF Cons.prems] by auto
  next
    case (Some ms)
    let ?k = "series_Key (ms_ref ms)" and ?ms = "drop_chunks mint ms"
    let ?h = "set_series n ?ms h"
    note d = drop_series [OF Cons.prems(1) Some Cons.prems(2)]
    have key: "shard_get h k = Some n \<longleftrightarrow> k = ?k" for k
      using head_invD(2,3) [OF Cons.prems(1)] Some series_entryD(3) by fastforce
    have c: "contents h ?k = Some (ms_ref ms, all_samples ms)"
      using held_by_key [OF Cons.prems(1) Some] by (simp add: contents_def)
    have ch: "contents ?h k = (if k = ?k then Some (ms_ref ms, all_samples ?ms) else contents h k)" for k
      unfolding contents_set [OF Cons.prems(1) Some d(5)] by simp
    have ser: "head_series ?h n = Some ?ms" by simp
    define h1 where "h1 = (if ms_chunks ?ms \<noteq> [] then ?h else forget n (ms_ref ms) ?h)"
    have ch1: "contents h1 k = (if k = ?k then window_from mint (contents h) k else contents h k)" for k
      using ch [of k] contents_forget [OF d(2) ser] c d(1,3,5) by (auto simp: h1_def window_from_def Let_def)
    have h1: "head_inv h1" "shrinks h h1" "h_range h1 = h_range h"
      using d(2,4) forget_inv [OF d(2) ser] d(5) shrinks_trans [OF d(4) shrinks_forget] forget_fields(1) [OF ser] by (auto simp: h1_def)
    have sg: "shard_get h1 k = (if k = ?k \<and> ms_chunks ?ms = [] then None else shard_get h k)" for k
      using forget_fields(6) [OF ser, of "ms_ref ms" k] by (auto simp: h1_def)
    have "?F (n # ns) h k = ?F ns h1 k" for k
    proof (cases "k = ?k")
      case True
      have "window_from mint (contents h1) k = window_from mint (contents h) k"
        unfolding window_from_def [of mint "contents h1"] ch1 using True c by (simp add: window_from_def Let_def)
      then show ?thesis using True ch1 [of k] key [of k] by simp
    next
      case False
      then show ?thesis using key [of k] ch1 [of k] sg [of k] by (simp add: window_from_def)
    qed
    then have "?F (n # ns) h = ?F ns h1" by blast
    moreover have "snd (truncate_all mint (n # ns) h) = snd (truncate_all mint ns h1)" using Some by (simp add: h1_def split_beta Let_def)
    ultimately show ?thesis using Cons.IH [OF h1(1)] Cons.prems(2) h1(3) shrinks_trans [OF h1(2)] by (metis (no_types, lifting))
  qed
qed simp

end
