(* ===== verification/Head_Commit.thy ===== *)
theory Head_Commit
  imports Head_Window
begin

text \<open>
  The commit of a batch (\<open>Append\<close> in \<open>internal/tsdb/head/head.go\<close>) against the window: each sample is
  refused or put into its series, in the order of the batch, and a batch that is not logged leaves the
  window as it was.
\<close>

section \<open>A batch over a window\<close>

fun resolve_window :: "int \<Rightarrow> i64 \<Rightarrow> window \<Rightarrow> (SeriesRef \<times> hSample) list \<Rightarrow> (head_error + string) list \<times> window" where
  "resolve_window lim minValid A [] = ([], A)"
| "resolve_window lim minValid A ((ref, s) # rest) =
     (if sint (hs_T s) < sint minValid
      then (let (rs, A') = resolve_window lim minValid A rest in (Inl ErrOutOfBounds # rs, A'))
      else case admit lim A ref of
        Inl e \<Rightarrow> (let (rs, A') = resolve_window lim minValid A rest in (Inl e # rs, A'))
      | Inr A1 \<Rightarrow> (let (rs, A') = resolve_window lim minValid A1 rest in (Inr (series_Key ref) # rs, A')))"

fun apply_window :: "i64 \<Rightarrow> window \<Rightarrow> ((head_error + string) \<times> hSample) list \<Rightarrow> (head_error + bool) list \<times> window" where
  "apply_window minValid A [] = ([], A)"
| "apply_window minValid A ((Inl e, s) # rest) = (let (rs, A') = apply_window minValid A rest in (Inl e # rs, A'))"
| "apply_window minValid A ((Inr k, s) # rest) =
     (let (r, A1) = window_put minValid k (hs_T s) (hs_V s) A; (rs, A') = apply_window minValid A1 rest in (r # rs, A'))"

definition commit_window :: "int \<Rightarrow> i64 \<Rightarrow> window \<Rightarrow> (SeriesRef \<times> hSample) list \<Rightarrow> (head_error + bool) list \<times> window" where
  "commit_window lim minValid A batch =
     (let (rs, A1) = resolve_window lim minValid A batch in apply_window minValid A1 (zip rs (map snd batch)))"

text \<open>The refusals among the answers, with their index.\<close>

fun rejections :: "int \<Rightarrow> (head_error + 'b) list \<Rightarrow> 'e Rejection list" where
  "rejections i [] = []"
| "rejections i (Inl e # rs) = (i, Refused e) # rejections (i + 1) rs"
| "rejections i (Inr _ # rs) = rejections (i + 1) rs"

section \<open>Resolving\<close>

lemma admitted:
  "admit lim A ref = Inr A1 \<Longrightarrow> A1 k = (if k = series_Key ref \<and> A k = None then Some (ref, []) else A k)"
  by (cases "A (series_Key ref)") (auto simp: admit_def split: if_splits)

text \<open>How an answer of \<open>resolve_window\<close> shows in the resolved batch.\<close>

fun resolved_as :: "Head \<Rightarrow> i64 \<Rightarrow> SeriesRef \<times> hSample \<Rightarrow> head_error + string \<Rightarrow> resolved \<Rightarrow> bool" where
  "resolved_as h m b (Inl e) r = (r = (None, snd b))"
| "resolved_as h m b (Inr k) r = (k = series_Key (fst b) \<and> \<not> sint (hs_T (snd b)) < sint m \<and>
     (\<exists>n. shard_get h k = Some n \<and> r = (Some n, (snd b)\<lparr>hs_ID := n\<rparr>)))"

fun all_resolved :: "Head \<Rightarrow> i64 \<Rightarrow> (SeriesRef \<times> hSample) list \<Rightarrow> (head_error + string) list \<Rightarrow> resolved list \<Rightarrow> bool" where
  "all_resolved h m [] [] [] = True"
| "all_resolved h m (b # bs) (a # as) (r # rs) = (resolved_as h m b a r \<and> all_resolved h m bs as rs)"
| "all_resolved h m _ _ _ = False"

lemma resolved_as_mono: "resolved_as h m b a r \<Longrightarrow> grows h h' \<Longrightarrow> resolved_as h' m b a r"
  using growsD(5) by (cases a) auto

lemma shard_inj: "head_inv h \<Longrightarrow> shard_get h k = Some n \<Longrightarrow> shard_get h k' = Some n \<Longrightarrow> k = k'"
  using head_invD(3) [of h k n] head_invD(3) [of h k' n] by auto

lemma resolve_spec:
  assumes "head_inv h" "unat (h_nextID h) + length batch < 2 ^ 64"
    and "resolve i m batch h = ((rs, rej :: 'e Rejection list, created, dropped), h1)"
    and "resolve_window (opt_MaxSeriesPerMetric (h_opts h)) m (contents h) batch = (as, A1)"
  shows "grows h h1 \<and> head_inv h1 \<and> contents h1 = A1 \<and> all_resolved h1 m batch as rs \<and> rej = rejections i as \<and>
    (\<forall>k n. shard_get h1 k = Some n \<longrightarrow> (n \<in> set created \<longleftrightarrow> contents h k = None))"
  using assms
proof (induction batch arbitrary: i h rs rej created dropped as A1 h1)
  case Nil
  have "shard_get h k = Some n \<Longrightarrow> contents h k \<noteq> None" for k n
    using shard_contents [OF Nil.prems(1), of k] by (metis option.distinct(1))
  with Nil show ?case by auto
next
  case (Cons b batch)
  obtain ref s where b: "b = (ref, s)" by force
  let ?lim = "opt_MaxSeriesPerMetric (h_opts h)"
  show ?case
  proof (cases "sint (hs_T s) < sint m")
    case True
    obtain rs2 rej2 cr2 d2 h2 where r: "resolve (i + 1) m batch h = ((rs2, rej2 :: 'e Rejection list, cr2, d2), h2)" by (metis surj_pair)
    obtain as2 A2 where a: "resolve_window ?lim m (contents h) batch = (as2, A2)" by force
    have "unat (h_nextID h) + length batch < 2 ^ 64" using Cons.prems(2) by simp
    from Cons.IH [OF Cons.prems(1) this r a] show ?thesis using Cons.prems(3,4) True r a by (auto simp: b)
  next
    case False
    obtain res ha where g: "getOrCreate ref h = (res, ha)" by force
    have "unat (h_nextID h) + 1 < 2 ^ 64" using Cons.prems(2) by simp
    note G = getOrCreate_spec [OF Cons.prems(1) this g]
    obtain rs2 rej2 cr2 d2 h2 where r: "resolve (i + 1) m batch ha = ((rs2, rej2 :: 'e Rejection list, cr2, d2), h2)" by (metis surj_pair)
    have o: "h_opts ha = h_opts h" "grows h ha" using G growsD(1) by blast+
    obtain as2 A2 where a: "resolve_window ?lim m (contents ha) batch = (as2, A2)" by force
    have room: "unat (h_nextID ha) + length batch < 2 ^ 64" using Cons.prems(2) G by simp
    have "head_inv ha" using G by blast
    note IH = Cons.IH [OF this room r, unfolded o, OF a]
    have gr: "grows h h2" using grows_trans o(2) IH by blast
    show ?thesis
    proof (cases res)
      case (Inl e)
      then have "h2 = h1" "as = Inl e # as2" "A1 = A2" "rs = (None, s) # rs2" "rej = (i, Refused e) # rej2" "created = cr2"
        "contents ha = contents h"
        using Cons.prems(3,4) False g r a G by (auto simp: b)
      with IH gr show ?thesis by (simp add: b)
    next
      case (Inr x)
      obtain n isNew where x: "x = (n, isNew)" by force
      have ad: "admit ?lim (contents h) ref = Inr (contents ha)" "shard_get ha (series_Key ref) = Some n"
        "isNew \<longleftrightarrow> contents h (series_Key ref) = None" using G Inr x by auto
      have eqs: "h2 = h1" "as = Inr (series_Key ref) # as2" "A1 = A2" "rs = (Some n, s\<lparr>hs_ID := n\<rparr>) # rs2" "rej = rej2"
        "created = (if isNew then n # cr2 else cr2)"
        using Cons.prems(3,4) False g r a ad(1) Inr x by (auto simp: b)
      have n: "shard_get h1 (series_Key ref) = Some n" using ad(2) IH growsD(5) eqs(1) by blast
      have cr: "k' \<in> set created \<longleftrightarrow> contents h k = None" if "shard_get h1 k = Some k'" for k k'
      proof -
        have "k' \<in> set cr2 \<longleftrightarrow> contents ha k = None" using IH that eqs(1) by blast
        moreover have "k' = n \<longleftrightarrow> k = series_Key ref" using shard_inj [of h1] IH eqs(1) n that by (metis option.inject)
        moreover have "contents ha k = (if k = series_Key ref \<and> isNew then Some (ref, []) else contents h k)"
          using admitted [OF ad(1), of k] ad(3) by auto
        ultimately show ?thesis using eqs(6) ad(3) by auto
      qed
      show ?thesis using IH gr n cr False unfolding b eqs by auto
    qed
  qed
qed

section \<open>Applying\<close>

lemma all_resolved_cong: "shard_get h' = shard_get h \<Longrightarrow> all_resolved h' m bs as rs = all_resolved h m bs as rs"
proof (induction h m bs as rs rule: all_resolved.induct)
  case (2 h m b bs a as r rs)
  then show ?case by (cases a) auto
qed auto

lemma all_resolved_length: "all_resolved h m bs as rs \<Longrightarrow> length as = length bs \<and> length rs = length bs"
  by (induction h m bs as rs rule: all_resolved.induct) auto

definition mask :: "head_error + string \<Rightarrow> head_error + bool \<Rightarrow> head_error + bool" where
  "mask a r = (if isl a then Inr False else r)"

lemma apply_all_spec:
  assumes "head_inv h" "all_resolved h m batch as rs"
    and "apply_all i m rs h = ((stored, rej :: 'e Rejection list, dropped), h')"
    and "apply_window m (contents h) (zip as (map snd batch)) = (res, A')"
  shows "head_inv h' \<and> same_series h h' \<and> contents h' = A' \<and> stored = map (\<lambda>r. r = Inr True) res \<and>
    rej = rejections i (map2 mask as res) \<and> list_all2 (\<lambda>a r. isl a \<longrightarrow> r = Inl (projl a)) as res"
  using assms
proof (induction batch arbitrary: i h as rs stored rej dropped res A' h')
  case Nil
  then show ?case by (cases as; cases rs) auto
next
  case (Cons b batch)
  obtain a as2 r rs2 where s: "as = a # as2" "rs = r # rs2" "resolved_as h m b a r" "all_resolved h m batch as2 rs2"
    using Cons.prems(2) by (cases as; cases rs) auto
  show ?case
  proof (cases a)
    case (Inl e)
    then have r: "r = (None, snd b)" using s(3) by simp
    obtain st2 rej2 d2 h2 where ap: "apply_all (i + 1) m rs2 h = ((st2, rej2 :: 'e Rejection list, d2), h2)" by (metis surj_pair)
    obtain res2 A2 where w: "apply_window m (contents h) (zip as2 (map snd batch)) = (res2, A2)" by force
    from Cons.IH [OF Cons.prems(1) s(4) ap w] show ?thesis using Cons.prems(3,4) ap w by (auto simp: s(1,2) Inl r mask_def)
  next
    case (Inr k)
    then obtain n where r: "shard_get h k = Some n" "r = (Some n, (snd b)\<lparr>hs_ID := n\<rparr>)" using s(3) by auto
    obtain x h1 where x: "apply_sample n (hs_T (snd b)) (hs_V (snd b)) m h = (x, h1)" by force
    note S = apply_sample_spec [OF Cons.prems(1) r(1) x]
    have sg: "shard_get h1 = shard_get h" using S by (simp add: same_series_def)
    obtain st2 rej2 d2 h2 where ap: "apply_all (i + 1) m rs2 h1 = ((st2, rej2 :: 'e Rejection list, d2), h2)" by (metis surj_pair)
    obtain res2 A2 where w: "apply_window m (contents h1) (zip as2 (map snd batch)) = (res2, A2)" by force
    have inv1: "head_inv h1" and res1: "all_resolved h1 m batch as2 rs2" using S s(4) all_resolved_cong [OF sg] by blast+
    note IH = Cons.IH [OF inv1 res1 ap w]
    have "h' = h2" "res = x # res2" "A' = A2" "stored = (x = Inr True) # st2"
      "rej = (case x of Inl e \<Rightarrow> (i, Refused e) # rej2 | Inr _ \<Rightarrow> rej2)"
      using Cons.prems(3,4) x ap w S by (auto simp: s(1,2) Inr r(2) split: sum.splits)
    moreover have "same_series h h2" using same_series_trans S IH by blast
    ultimately show ?thesis using IH by (auto simp: s(1) Inr mask_def split: sum.splits)
  qed
qed

lemma window_put_samples:
  assumes "A k \<noteq> None" "window_put m k t v A = (r, A')"
  shows "window_samples A' k' = (if k' = k then snd (abs_append m t v (window_samples A k)) else window_samples A k')"
    "r = fst (abs_append m t v (window_samples A k))" "dom A' = dom A" "map_option fst (A' k') = map_option fst (A k')"
  using assms by (auto simp: window_put_def window_samples_def split_beta split: if_splits)

lemma abs_append_nonempty: "xs \<noteq> [] \<or> \<not> sint t < sint m \<Longrightarrow> snd (abs_append m t v xs) \<noteq> []"
  by (auto simp: abs_append_def)

lemma resolved_dom: "head_inv h \<Longrightarrow> all_resolved h m bs as rs \<Longrightarrow> Inr k \<in> set as \<Longrightarrow> contents h k \<noteq> None"
proof (induction h m bs as rs rule: all_resolved.induct)
  case (2 h m b bs a as r rs)
  then show ?case using shard_contents [OF 2(2), of k] by (cases a) auto
qed auto

text \<open>A series that takes part in a batch holds a sample afterwards.\<close>

lemma apply_window_nonempty:
  assumes "all_resolved h m batch as rs" "\<forall>k. Inr k \<in> set as \<longrightarrow> A k \<noteq> None"
    and "apply_window m A (zip as (map snd batch)) = (res, A')"
  shows "dom A' = dom A \<and> (\<forall>k. window_samples A k \<noteq> [] \<or> Inr k \<in> set as \<longrightarrow> window_samples A' k \<noteq> []) \<and>
    (\<forall>k. Inr k \<notin> set as \<longrightarrow> A' k = A k)"
  using assms
proof (induction h m batch as rs arbitrary: A res A' rule: all_resolved.induct)
  case (2 h m b bs a as r rs)
  have rest: "all_resolved h m bs as rs" using 2(2) by simp
  show ?case
  proof (cases a)
    case (Inl e)
    obtain res2 A2 where w: "apply_window m A (zip as (map snd bs)) = (res2, A2)" by force
    from 2(1) [OF rest _ w] 2(3,4) w show ?thesis by (auto simp: Inl)
  next
    case (Inr k)
    obtain x A1 where x: "window_put m k (hs_T (snd b)) (hs_V (snd b)) A = (x, A1)" by force
    have Ak: "A k \<noteq> None" using 2(3) Inr by simp
    note W = window_put_samples [OF Ak x]
    obtain res2 A2 where w: "apply_window m A1 (zip as (map snd bs)) = (res2, A2)" by force
    have A': "A' = A2" using 2(4) x w by (auto simp: Inr)
    have "\<forall>k'. Inr k' \<in> set as \<longrightarrow> A1 k' \<noteq> None" using 2(3) W(3) by (metis domIff list.set_intros(2))
    note IH = 2(1) [OF rest this w]
    have ne: "window_samples A1 k' \<noteq> []" if "window_samples A k' \<noteq> [] \<or> k' = k" for k'
      using W(1) [of k'] that 2(2) abs_append_nonempty by (auto simp: Inr)
    have same: "A1 k' = A k'" if "k' \<noteq> k" for k'
      using x Ak that by (auto simp: window_put_def split_beta)
    show ?thesis
    proof (intro conjI allI impI)
      show "dom A' = dom A" using IH W(3) A' by simp
      fix k' assume "window_samples A k' \<noteq> [] \<or> Inr k' \<in> set (a # as)"
      then show "window_samples A' k' \<noteq> []" using IH ne [of k'] A' by (auto simp: Inr)
    next
      fix k' :: string assume "Inr k' \<notin> set (a # as)"
      then show "A' k' = A k'" using IH same [of k'] A' by (auto simp: Inr)
    qed
  qed
qed auto

section \<open>The order of the rejections\<close>

lemma rejections_ge: "r \<in> set (rejections i xs) \<Longrightarrow> i \<le> fst r"
  by (induction i xs rule: rejections.induct) force+

lemma rejections_sorted:
  "0 \<le> i \<Longrightarrow> sorted_wrt (<) (map rejection_key (rejections i xs :: 'e Rejection list))"
proof (induction i xs rule: rejections.induct)
  case (2 i e rs)
  have "rejection_key ((i, Refused e) :: 'e Rejection) < rejection_key r" if "r \<in> set (rejections (i + 1) rs)" for r :: "'e Rejection"
    using rejections_ge [OF that] 2(2) by (simp add: rejection_key_def)
  then show ?case using 2 by simp
qed simp_all

lemma rejections_mset:
  "list_all2 (\<lambda>a r. isl a \<longrightarrow> r = Inl (projl a)) as res \<Longrightarrow>
    mset (rejections i as) + mset (rejections i (map2 mask as res)) = mset (rejections i res)"
proof (induction as res arbitrary: i rule: list_all2_induct)
  case (Cons a as r res)
  show ?case
  proof (cases a)
    case (Inl e)
    then show ?thesis using Cons.hyps(1) Cons.IH [of "i + 1"] by (simp add: mask_def)
  next
    case (Inr k)
    then show ?thesis using Cons.IH [of "i + 1"] by (cases r) (simp_all add: mask_def)
  qed
qed simp

lemma byRejectionIndex_eq:
  assumes "mset xs = mset ys" "sorted_wrt (<) (map rejection_key ys)"
  shows "byRejectionIndex xs = ys"
proof -
  have ys: "sorted (map rejection_key ys)" "distinct (map rejection_key ys)"
    using assms(2) strict_sorted_iff by blast+
  have "mset (byRejectionIndex xs) = mset ys" "sorted (map rejection_key (byRejectionIndex xs))"
    using assms(1) by (simp_all add: byRejectionIndex_def)
  then have b: "set (byRejectionIndex xs) = set ys" "distinct (map rejection_key (byRejectionIndex xs))"
    "sorted (map rejection_key (byRejectionIndex xs))"
    using ys(2) mset_eq_setD by (blast, metis mset_map distinct_count_atmost_1 mset_eq_imp_distinct_iff, blast)
  have "inj_on rejection_key (set (byRejectionIndex xs) \<union> set ys)" using ys(2) b(1) by (simp add: distinct_map)
  from map_sorted_distinct_set_unique [OF this b(3,2) ys b(1)] show ?thesis .
qed

lemma rejections_merge:
  assumes "list_all2 (\<lambda>a r. isl a \<longrightarrow> r = Inl (projl a)) as res"
  shows "byRejectionIndex (rejections 0 as @ rejections 0 (map2 mask as res)) = (rejections 0 res :: 'e Rejection list)"
  by (rule byRejectionIndex_eq) (simp_all add: rejections_mset [OF assms] rejections_sorted)

section \<open>Marking what is logged\<close>

lemma logged_samples [simp]: "all_samples (ms\<lparr>ms_logged := b\<rparr>) = all_samples ms" "stores r (ms\<lparr>ms_logged := b\<rparr>) xs = stores r ms xs"
  by (simp_all add: all_samples_def samplesIn_def stores_def series_inv_def)

lemma set_logged:
  assumes "head_inv h" "head_series h n = Some ms"
  shows "head_inv (set_series n (ms\<lparr>ms_logged := b\<rparr>) h)" "contents (set_series n (ms\<lparr>ms_logged := b\<rparr>) h) = contents h"
proof -
  have st: "stores (h_range h) ms (all_samples ms)" using head_invD(2) [OF assms] by (rule series_entryD)
  show "head_inv (set_series n (ms\<lparr>ms_logged := b\<rparr>) h)" using set_inv [OF assms, of "ms\<lparr>ms_logged := b\<rparr>"] st by simp
  have "contents h (series_Key (ms_ref ms)) = Some (ms_ref ms, all_samples ms)" using held_by_key [OF assms] by (simp add: contents_def)
  then show "contents (set_series n (ms\<lparr>ms_logged := b\<rparr>) h) = contents h"
    using contents_set [OF assms, of "ms\<lparr>ms_logged := b\<rparr>"] by auto
qed

text \<open>Heads that differ in the marks of the series \<open>ns\<close> only.\<close>

definition marked :: "bool \<Rightarrow> u64 list \<Rightarrow> Head \<Rightarrow> Head \<Rightarrow> bool" where
  "marked b ns h h' \<longleftrightarrow> h_opts h' = h_opts h \<and> h_minValid h' = h_minValid h \<and> h_nextID h' = h_nextID h \<and>
     shard_get h' = shard_get h \<and>
     (\<forall>i. head_series h' i = (if i \<in> set ns then map_option (ms_logged_update (\<lambda>_. b)) (head_series h i) else head_series h i))"

lemma mark_pending_spec:
  assumes "head_inv h" "mark_pending rs h = (ns, h')"
  shows "head_inv h' \<and> contents h' = contents h \<and> marked True ns h h' \<and> distinct ns \<and>
    set ns = {n. \<exists>s ms. (Some n, s) \<in> set rs \<and> head_series h n = Some ms \<and> \<not> ms_logged ms}"
  using assms
proof (induction rs h arbitrary: ns h' rule: mark_pending.induct)
  case (1 h)
  then show ?case by (simp add: marked_def)
next
  case (2 s rs h)
  then show ?case by auto
next
  case (3 n s rs h)
  consider (none) "head_series h n = None" | (old) ms where "head_series h n = Some ms" "ms_logged ms"
    | (new) ms where "head_series h n = Some ms" "\<not> ms_logged ms" by fastforce
  then show ?case
  proof cases
    case none
    then show ?thesis using 3(1) [OF none 3(4)] 3(5) by auto
  next
    case old
    then show ?thesis using 3(2) [OF old(1) old(2) 3(4)] 3(5) by auto
  next
    case new
    let ?h = "set_series n (ms\<lparr>ms_logged := True\<rparr>) h"
    obtain ns2 h2 where m: "mark_pending rs ?h = (ns2, h2)" by force
    have e: "ns = n # ns2" "h' = h2" using 3(5) new m by auto
    note l = set_logged [OF 3(4) new(1), of True]
    note IH = 3(3) [OF new l(1) m]
    have S: "set ns2 = {j. \<exists>s ms. (Some j, s) \<in> set rs \<and> head_series ?h j = Some ms \<and> \<not> ms_logged ms}" using IH by blast
    then have n2: "n \<notin> set ns2" by auto
    moreover have "set (n # ns2) = {j. \<exists>s' ms. (Some j, s') \<in> set ((Some n, s) # rs) \<and> head_series h j = Some ms \<and> \<not> ms_logged ms}"
      unfolding list.set(2) [of n] S using new by (auto split: if_splits)
    moreover have "marked True (n # ns2) h h2" using IH n2 new(1) unfolding marked_def by auto
    ultimately show ?thesis using IH l(2) unfolding e by auto
  qed
qed

lemma unmark_spec:
  assumes "head_inv h"
  shows "head_inv (unmark ns h) \<and> contents (unmark ns h) = contents h \<and> marked False ns h (unmark ns h)"
  using assms
proof (induction ns arbitrary: h)
  case (Cons n ns)
  show ?case
  proof (cases "head_series h n")
    case None
    then show ?thesis using Cons.IH [OF Cons.prems] by (auto simp: marked_def)
  next
    case (Some ms)
    note l = set_logged [OF Cons.prems Some, of False]
    show ?thesis using Some Cons.IH [OF l(1)] l(2) by (auto simp: marked_def)
  qed
qed (simp add: marked_def)

section \<open>The commit\<close>

lemma head_Append_cases:
  assumes app: "head_Append wal refs samples (h, w) = (a, (h', w'))" and len: "length refs = length samples"
    and r: "resolve 0 (h_minValid h) (zip refs samples) h = ((rs, rej, created, dropped), h1)"
  obtains (none) "valid_samples rs = []" "w' = w"
      "finish_commit (Some (map (\<lambda>_. False) samples)) rej rs created dropped h1 = (a, h')"
  | (failed) lg pending h2 e where "valid_samples rs \<noteq> []" "wal = Some lg" "mark_pending rs h1 = (pending, h2)"
      "logLocked lg (opt_SyncOnAppend (h_opts h)) (series_records h2 pending) (valid_samples rs) w = (Inl e, w')"
      "finish_commit None (rej @ [(- 1, e)]) rs created dropped (unmark pending h2) = (a, h')"
  | (applied) pending h2 stored rej' dropped' h3 where "valid_samples rs \<noteq> []"
      "case wal of None \<Rightarrow> pending = [] \<and> h2 = h1 \<and> w' = w
       | Some lg \<Rightarrow> mark_pending rs h1 = (pending, h2) \<and>
           logLocked lg (opt_SyncOnAppend (h_opts h)) (series_records h2 pending) (valid_samples rs) w = (Inr (), w')"
      "apply_all 0 (h_minValid h) rs h2 = ((stored, rej', dropped'), h3)"
      "finish_commit (Some stored) (rej @ rej') rs created (dropped + dropped') h3 = (a, h')"
proof (cases "valid_samples rs = []")
  case True
  then show thesis using app len r none by (auto simp: head_Append_def split: prod.splits)
next
  case False
  show thesis
  proof (cases wal)
    case None
    then show thesis using app len r False applied [of "[]" h1] by (auto simp: head_Append_def split: prod.splits)
  next
    case (Some lg)
    obtain pending h2 where p: "mark_pending rs h1 = (pending, h2)" by force
    obtain x w1 where l: "logLocked lg (opt_SyncOnAppend (h_opts h)) (series_records h2 pending) (valid_samples rs) w = (x, w1)" by force
    show thesis
    proof (cases x)
      case (Inl e)
      then show thesis using app len r False Some p l failed [of lg pending h2 e] by (auto simp: head_Append_def split: prod.splits)
    next
      case (Inr u)
      then show thesis using app len r False Some p l applied [of pending h2] by (auto simp: head_Append_def split: prod.splits)
    qed
  qed
qed

lemma finish_commit_spec:
  assumes "finish_commit st rj rs created d h = (a, h')" "head_inv h"
  shows "ap_stored a = st" "ap_rejected a = byRejectionIndex rj" "head_inv h'" "shrinks h h'"
    "contents h' = (\<lambda>k. if (\<exists>n \<in> set created. shard_get h k = Some n) \<and> window_samples (contents h) k = [] then None else contents h k)"
proof -
  define h0 where "h0 = (if 0 < d then h\<lparr>h_oooDropped := h_oooDropped h + d\<rparr> else h)"
  have h0: "head_inv h0" "contents h0 = contents h" "shard_get h0 = shard_get h" "head_series h0 = head_series h"
    "h_opts h0 = h_opts h" "h_minValid h0 = h_minValid h" "h_nextID h0 = h_nextID h"
    using assms(2) by (simp_all add: h0_def fun_eq_iff)
  have h': "h' = snd (forgetEmpty created h0)" using assms(1) by (simp add: finish_commit_def h0_def)
  show "ap_stored a = st" "ap_rejected a = byRejectionIndex rj" using assms(1) by (auto simp: finish_commit_def)
  have "shrinks h0 h'" unfolding h' by (rule shrinks_forgetEmpty)
  then show "shrinks h h'" by (simp add: shrinks_def h0)
  from forgetEmpty_spec [OF h0(1), of created] show "head_inv h'"
    "contents h' = (\<lambda>k. if (\<exists>n \<in> set created. shard_get h k = Some n) \<and> window_samples (contents h) k = [] then None else contents h k)"
    unfolding h' h0(2,3) by simp_all
qed

text \<open>Resolving adds only empty series to a window.\<close>

lemma resolve_window_adds:
  "resolve_window lim m A batch = (as, A1) \<Longrightarrow> A1 k = A k \<or> A k = None \<and> window_samples A1 k = []"
proof (induction lim m A batch arbitrary: as A1 rule: resolve_window.induct)
  case (2 lim m A ref s rest)
  show ?case
  proof (cases "sint (hs_T s) < sint m \<or> isl (admit lim A ref)")
    case True
    then show ?thesis using 2 by (auto split: prod.splits if_splits sum.splits)
  next
    case False
    then obtain Aa where Aa: "admit lim A ref = Inr Aa" "\<not> sint (hs_T s) < sint m" by (metis isl_def sum.exhaust)
    obtain as2 A2 where r: "resolve_window lim m Aa rest = (as2, A2)" by force
    then have "A1 = A2" using 2(4) Aa by auto
    moreover have "Aa k = A k \<or> A k = None \<and> window_samples Aa k = []"
      using admitted [OF Aa(1), of k] by (auto simp: window_samples_def split: if_splits)
    ultimately show ?thesis using 2(3) [OF Aa(2,1) r] by (auto simp: window_samples_def)
  qed
qed simp

text \<open>Only series of the batch are added.\<close>

lemma resolve_window_dom:
  "resolve_window lim m A batch = (as, A1) \<Longrightarrow> A1 k \<noteq> None \<Longrightarrow> A k = None \<Longrightarrow> Inr k \<in> set as"
proof (induction lim m A batch arbitrary: as A1 rule: resolve_window.induct)
  case (2 lim m A ref s rest)
  show ?case
  proof (cases "sint (hs_T s) < sint m \<or> isl (admit lim A ref)")
    case True
    then show ?thesis using 2 by (auto split: prod.splits if_splits sum.splits)
  next
    case False
    then obtain Aa where Aa: "admit lim A ref = Inr Aa" "\<not> sint (hs_T s) < sint m" by (metis isl_def sum.exhaust)
    obtain as2 A2 where r: "resolve_window lim m Aa rest = (as2, A2)" by force
    then have e: "A1 = A2" "as = Inr (series_Key ref) # as2" using 2(4) Aa by auto
    show ?thesis
    proof (cases "k = series_Key ref")
      case False
      then have "Aa k = None" using admitted [OF Aa(1), of k] 2(6) by simp
      then show ?thesis using 2(3) [OF Aa(2,1) r] 2(5) unfolding e by simp
    qed (simp add: e)
  qed
qed simp

lemma apply_all_none: "valid_samples rs = [] \<Longrightarrow> apply_all i m rs h = ((map (\<lambda>_. False) rs, [], 0), h)"
proof (induction rs arbitrary: i)
  case (Cons r rs)
  obtain s where "r = (None, s)" using Cons.prems by (cases r) (auto simp: valid_samples_def split: if_splits)
  then show ?case using Cons by (simp add: valid_samples_def)
qed simp

text \<open>The second half of a commit: the batch has been resolved, and is applied.\<close>

lemma apply_commit:
  assumes inv: "head_inv h" and room: "unat (h_nextID h) + length batch < 2 ^ 64"
    and r: "resolve 0 (h_minValid h) batch h = ((rs, rej :: 'e Rejection list, created, dropped), h1)"
    and h2: "head_inv h2" "contents h2 = contents h1" "shard_get h2 = shard_get h1"
    and a: "apply_all 0 (h_minValid h) rs h2 = ((stored, rej', dropped'), h3)"
    and f: "finish_commit (Some stored) (rej @ rej') rs created d h3 = (a, h')"
    and c: "commit_window (opt_MaxSeriesPerMetric (h_opts h)) (h_minValid h) (contents h) batch = (res, A')"
  shows "head_inv h' \<and> contents h' = A' \<and> ap_stored a = Some (map (\<lambda>r. r = Inr True) res) \<and> ap_rejected a = rejections 0 res \<and>
    same_series h2 h3 \<and> shrinks h3 h' \<and> contents h3 = A'"
proof -
  let ?m = "h_minValid h"
  obtain as A1 where rw: "resolve_window (opt_MaxSeriesPerMetric (h_opts h)) ?m (contents h) batch = (as, A1)" by force
  note R = resolve_spec [OF inv room r rw]
  have aw: "apply_window ?m (contents h2) (zip as (map snd batch)) = (res, A')"
    using c R rw h2(2) by (simp add: commit_window_def)
  have res2: "all_resolved h2 ?m batch as rs" using R all_resolved_cong [OF h2(3)] by blast
  note S = apply_all_spec [OF h2(1) res2 a aw]
  have h3: "head_inv h3" "contents h3 = A'" "shard_get h3 = shard_get h1" using S h2(3) by (auto simp: same_series_def)
  note F = finish_commit_spec [OF f h3(1)]
  have dom: "\<forall>k. Inr k \<in> set as \<longrightarrow> contents h2 k \<noteq> None" using resolved_dom [OF h2(1) res2] by blast
  note N = apply_window_nonempty [OF res2 dom aw]
  have "\<not> ((\<exists>n \<in> set created. shard_get h3 k = Some n) \<and> window_samples A' k = [])" for k
  proof
    assume k: "(\<exists>n \<in> set created. shard_get h3 k = Some n) \<and> window_samples A' k = []"
    then obtain n where n: "n \<in> set created" "shard_get h1 k = Some n" using h3(3) by auto
    then have "contents h k = None" "A1 k \<noteq> None" using R shard_contents [of h1 k] by auto
    then have "Inr k \<in> set as" by (metis resolve_window_dom [OF rw])
    then show False using N k by blast
  qed
  then have "contents h' = A'" unfolding F(5) h3(2) by (simp only: if_False simp_thms)
  moreover have e: "rej = rejections 0 as" "rej' = rejections 0 (map2 mask as res)"
    "list_all2 (\<lambda>a r. isl a \<longrightarrow> r = Inl (projl a)) as res" using R S by blast+
  have "ap_rejected a = rejections 0 res" unfolding F(2) e(1,2) by (rule rejections_merge [OF e(3)])
  ultimately show ?thesis using F(1,3,4) S h3(2) by blast
qed

lemma Append_success:
  assumes inv: "head_inv h" and room: "unat (h_nextID h) + length samples < 2 ^ 64"
    and app: "head_Append (wal :: ('w, 'e) Logger option) refs samples (h, w) = (a, (h', w'))" and st: "ap_stored a \<noteq> None"
    and c: "commit_window (opt_MaxSeriesPerMetric (h_opts h)) (h_minValid h) (contents h) (zip refs samples) = (res, A')"
  shows "head_inv h' \<and> contents h' = A' \<and> ap_stored a = Some (map (\<lambda>r. r = Inr True) res) \<and> ap_rejected a = rejections 0 res"
proof -
  have len: "length refs = length samples" using app st by (auto simp: head_Append_def split: if_splits)
  obtain rs rej created dropped h1 where r: "resolve 0 (h_minValid h) (zip refs samples) h = ((rs, rej :: 'e Rejection list, created, dropped), h1)"
    by (metis surj_pair)
  have room': "unat (h_nextID h) + length (zip refs samples) < 2 ^ 64" using room len by simp
  obtain as A1 where rw: "resolve_window (opt_MaxSeriesPerMetric (h_opts h)) (h_minValid h) (contents h) (zip refs samples) = (as, A1)" by force
  note R = resolve_spec [OF inv room' r rw]
  from app len r show ?thesis
  proof (cases rule: head_Append_cases)
    case none
    have "length rs = length samples" using R all_resolved_length len by fastforce
    then have "map (\<lambda>_. False) rs = map (\<lambda>_. False) samples" by (simp add: map_replicate_const)
    then have "apply_all 0 (h_minValid h) rs h1 = ((map (\<lambda>_. False) samples, [], 0), h1)" using apply_all_none [OF none(1)] by simp
    from apply_commit [OF inv room' r _ refl refl this _ c, of dropped] none(3) R show ?thesis by simp
  next
    case (failed lg pending h2 e)
    have "head_inv (unmark pending h2)" using unmark_spec mark_pending_spec [OF _ failed(3)] R by blast
    with finish_commit_spec(1) [OF failed(5)] st show ?thesis by simp
  next
    case (applied pending h2 stored rej' dropped' h3)
    have "head_inv h2 \<and> contents h2 = contents h1 \<and> shard_get h2 = shard_get h1"
    proof (cases wal)
      case None
      then show ?thesis using applied(2) R by simp
    next
      case (Some lg)
      then show ?thesis using applied(2) mark_pending_spec [of h1 rs pending h2] R by (simp add: marked_def)
    qed
    from apply_commit [OF inv room' r _ _ _ applied(3,4) c] this show ?thesis by blast
  qed
qed

text \<open>A commit that stops before the batch is applied takes back the series it created.\<close>

lemma unapplied_commit:
  assumes inv: "head_inv h" and room: "unat (h_nextID h) + length batch < 2 ^ 64"
    and r: "resolve 0 (h_minValid h) batch h = ((rs, rej :: 'e Rejection list, created, dropped), h1)"
    and hu: "head_inv hu" "contents hu = contents h1" "shard_get hu = shard_get h1"
    and f: "finish_commit st rj rs created d hu = (a, h')"
  shows "contents h' = contents h"
proof -
  obtain as A1 where rw: "resolve_window (opt_MaxSeriesPerMetric (h_opts h)) (h_minValid h) (contents h) batch = (as, A1)" by force
  note R = resolve_spec [OF inv room r rw]
  have "contents h' k = contents h k" for k
    using resolve_window_adds [OF rw, of k] R shard_contents [of h1 k] unfolding finish_commit_spec(5) [OF f hu(1)] hu(2,3)
    by (cases "shard_get h1 k") (auto split: if_splits)
  then show ?thesis by blast
qed

lemma Append_failure:
  assumes inv: "head_inv h" and room: "unat (h_nextID h) + length samples < 2 ^ 64"
    and app: "head_Append (wal :: ('w, 'e) Logger option) refs samples (h, w) = (a, (h', w'))" and st: "ap_stored a = None"
  shows "head_inv h' \<and> contents h' = contents h \<and> (\<exists>e. (- 1, e) \<in> set (ap_rejected a))"
proof (cases "length refs = length samples")
  case False
  then show ?thesis using app inv by (auto simp: head_Append_def)
next
  case len: True
  obtain rs rej created dropped h1 where r: "resolve 0 (h_minValid h) (zip refs samples) h = ((rs, rej :: 'e Rejection list, created, dropped), h1)"
    by (metis surj_pair)
  have room': "unat (h_nextID h) + length (zip refs samples) < 2 ^ 64" using room len by simp
  obtain as A1 where rw: "resolve_window (opt_MaxSeriesPerMetric (h_opts h)) (h_minValid h) (contents h) (zip refs samples) = (as, A1)" by force
  note R = resolve_spec [OF inv room' r rw]
  from app len r show ?thesis
  proof (cases rule: head_Append_cases)
    case none
    then show ?thesis using finish_commit_spec(1) [OF none(3)] R st by simp
  next
    case (failed lg pending h2 e)
    have "head_inv h1" using R by blast
    note M = mark_pending_spec [OF this failed(3)]
    then have "head_inv h2" by blast
    note U = unmark_spec [OF this, of pending]
    have hu: "head_inv (unmark pending h2)" "contents (unmark pending h2) = A1" "shard_get (unmark pending h2) = shard_get h1"
      using U M R by (auto simp: marked_def)
    note F = finish_commit_spec [OF failed(5) hu(1)]
    have "contents h' = contents h" using unapplied_commit [OF inv room' r hu(1) _ hu(3) failed(5)] hu(2) R by simp
    moreover have "(- 1, e) \<in> set (ap_rejected a)" unfolding F(2) by (simp add: byRejectionIndex_def)
    ultimately show ?thesis using F(3) by blast
  next
    case (applied pending h2 stored rej' dropped' h3)
    have "ap_stored a = Some stored" using applied(4) by (auto simp: finish_commit_def)
    with st show ?thesis by simp
  qed
qed

end
