(* ===== verification/Head_Replay.thy ===== *)
theory Head_Replay
  imports Head_Commit Wal_Truncate
begin

text \<open>
  Rebuilding a head from its log (\<open>internal/tsdb/head/replay.go\<close>), and what a log says: the samples
  its records put into the series they define.
\<close>

section \<open>Replay\<close>

definition restoreSeries :: "u64 \<Rightarrow> SeriesRef \<Rightarrow> Head \<Rightarrow> u64 \<times> Head" where
  "restoreSeries i ref h =
     (let h1 = (if unat (h_nextID h) < unat i then h\<lparr>h_nextID := i\<rparr> else h)
      in case shard_get h1 (series_Key ref) of
           Some j \<Rightarrow> (j, h1)
         | None \<Rightarrow>
             let (i', h2) = (if head_series h1 i \<noteq> None then (h_nextID h1 + 1, h1\<lparr>h_nextID := h_nextID h1 + 1\<rparr>) else (i, h1))
             in (i', enter_series (newSeries i' ref True) h2))"

datatype replay_error = ReplayLog wal_error | ReplaySeries record_error | ReplaySamples record_error

text \<open>\<open>byLogID\<close> maps the ids of the log to series of the head; \<open>applied\<close> and \<open>skipped\<close> count samples.\<close>

fun replay_samples :: "i64 \<Rightarrow> (u64 \<times> u64) list \<Rightarrow> hSample list \<Rightarrow> int \<times> int \<Rightarrow> Head \<Rightarrow> (int \<times> int) \<times> Head" where
  "replay_samples minValid byLogID [] c h = (c, h)"
| "replay_samples minValid byLogID (s # ss) (applied, skipped) h =
     (case map_of byLogID (hs_ID s) of
        None \<Rightarrow> replay_samples minValid byLogID ss (applied, skipped + 1) h
      | Some n \<Rightarrow>
          (case apply_sample n (hs_T s) (hs_V s) minValid h of
             (Inl _, h1) \<Rightarrow> replay_samples minValid byLogID ss (applied, skipped + 1) h1
           | (Inr stored, h1) \<Rightarrow> replay_samples minValid byLogID ss (if stored then applied + 1 else applied, skipped) h1))"

fun replay_records :: "i64 \<Rightarrow> (u64 \<times> u64) list \<Rightarrow> Record list \<Rightarrow> int \<times> int \<Rightarrow> Head \<Rightarrow> (replay_error + (int \<times> int)) \<times> Head" where
  "replay_records minValid byLogID [] c h = (Inr c, h)"
| "replay_records minValid byLogID (r # rs) c h =
     (if rec_Type r = RecordSeries
      then (case decodeSeries (rec_Data r) of
              Inl e \<Rightarrow> (Inl (ReplaySeries e), h)
            | Inr (i, ref) \<Rightarrow> (let (n, h1) = restoreSeries i ref h in replay_records minValid (AList.update i n byLogID) rs c h1))
      else if rec_Type r = RecordSamples
      then (case decodeSamples (rec_Data r) of
              Inl e \<Rightarrow> (Inl (ReplaySamples e), h)
            | Inr ss \<Rightarrow> (let (c1, h1) = replay_samples minValid byLogID ss c h in replay_records minValid byLogID rs c1 h1))
      else replay_records minValid byLogID rs c h)"

definition head_Replay :: "(u64 list \<Rightarrow> u64 list) \<Rightarrow> Head \<Rightarrow> os \<Rightarrow> (replay_error + Stats) \<times> Head" where
  "head_Replay ord h s =
     (case NewReader s of
        (Inl e, _) \<Rightarrow> (Inl (ReplayLog e), h)
      | (Inr r, s1) \<Rightarrow>
          (let (recs, r') = drain (os_files s1) r
           in case replay_records (h_minValid h) [] recs (0, 0) h of
                (Inl e, h1) \<Rightarrow> (Inl e, h1)
              | (Inr (applied, skipped), h1) \<Rightarrow>
                  (case r_err r' of
                     Some e \<Rightarrow> (Inl (ReplayLog e), h1)
                   | None \<Rightarrow> (Inr ((head_Stats ord h1)\<lparr>st_Samples := applied, st_OOORejected := skipped\<rparr>), h1))))"

section \<open>What a log says\<close>

text \<open>The events of a log: a series is defined under an id, a sample is logged under an id.\<close>

datatype log_event = Def u64 SeriesRef | Smp u64 i64 f64

definition record_events :: "Record \<Rightarrow> log_event list option" where
  "record_events r =
     (if rec_Type r = RecordSeries
      then (case decodeSeries (rec_Data r) of Inl _ \<Rightarrow> None | Inr (i, ref) \<Rightarrow> Some [Def i ref])
      else if rec_Type r = RecordSamples
      then (case decodeSamples (rec_Data r) of Inl _ \<Rightarrow> None | Inr ss \<Rightarrow> Some (map (\<lambda>s. Smp (hs_ID s) (hs_T s) (hs_V s)) ss))
      else Some [])"

fun log_events :: "Record list \<Rightarrow> log_event list option" where
  "log_events [] = Some []"
| "log_events (r # rs) =
     (case record_events r of None \<Rightarrow> None | Some es \<Rightarrow> map_option (\<lambda>es'. es @ es') (log_events rs))"

text \<open>The samples of each series, by key.\<close>

type_synonym samples = "string \<Rightarrow> Sample list"

definition put_sample :: "i64 \<Rightarrow> string \<Rightarrow> i64 \<Rightarrow> f64 \<Rightarrow> samples \<Rightarrow> samples" where
  "put_sample m k t v S = S(k := snd (abs_append m t v (S k)))"

fun log_step :: "i64 \<Rightarrow> log_event \<Rightarrow> (u64 \<Rightarrow> string option) \<times> samples \<Rightarrow> (u64 \<Rightarrow> string option) \<times> samples" where
  "log_step m (Def i ref) (B, S) = (B(i \<mapsto> series_Key ref), S)"
| "log_step m (Smp i t v) (B, S) = (B, case B i of None \<Rightarrow> S | Some k \<Rightarrow> put_sample m k t v S)"

definition logged :: "i64 \<Rightarrow> log_event list \<Rightarrow> (u64 \<Rightarrow> string option) \<times> samples" where
  "logged m es = fold (log_step m) es (Map.empty, \<lambda>_. [])"

abbreviation head_samples :: "Head \<Rightarrow> samples" where
  "head_samples h \<equiv> window_samples (contents h)"

section \<open>Raising the bound\<close>

abbreviation since :: "i64 \<Rightarrow> Sample list \<Rightarrow> Sample list" where
  "since m xs \<equiv> filter (\<lambda>(t, v). sint m \<le> sint t) xs"

lemma increasing_filter: "increasing xs \<Longrightarrow> increasing (filter P xs)"
  by (simp add: increasing_def sorted_wrt_filter)

lemma abs_append_increasing: "increasing xs \<Longrightarrow> increasing (snd (abs_append m t v xs))"
  by (auto simp: abs_append_def increasing_snoc not_le)

lemma since_last:
  assumes "increasing xs" "xs \<noteq> []" "sint m \<le> sint (fst (last xs))"
  shows "since m xs \<noteq> []" "last (since m xs) = last xs"
  using assms(2,3) last_filter [of xs "\<lambda>(t, v). sint m \<le> sint t"] by (auto simp: filter_empty_conv split_beta)

text \<open>A higher bound gives the samples from there on: which samples are refused below the bound does
  not change what becomes of the samples above it.\<close>

lemma abs_append_since:
  assumes inc: "increasing xs" and le: "sint m0 \<le> sint m"
  shows "since m (snd (abs_append m0 t v xs)) = snd (abs_append m t v (since m xs))"
proof (cases "sint t < sint m")
  case True
  then show ?thesis by (auto simp: abs_append_def)
next
  case False
  then have t: "sint m \<le> sint t" "\<not> sint t < sint m0" using le by simp_all
  show ?thesis
  proof (cases "xs \<noteq> [] \<and> sint t \<le> sint (fst (last xs))")
    case True
    then have last: "since m xs \<noteq> []" "last (since m xs) = last xs" using since_last [OF inc, of m] t(1) by auto
    have "snd (abs_append m0 t v xs) = xs" using True t(2) by (simp add: abs_append_def)
    moreover have "snd (abs_append m t v (since m xs)) = since m xs" using True False last by (simp add: abs_append_def)
    ultimately show ?thesis by simp
  next
    case after: False
    have "\<not> (since m xs \<noteq> [] \<and> sint t \<le> sint (fst (last (since m xs))))"
    proof
      assume a: "since m xs \<noteq> [] \<and> sint t \<le> sint (fst (last (since m xs)))"
      then have "last (since m xs) \<in> set xs" by (metis (no_types, lifting) filter_is_subset last_in_set subsetD)
      then have "sint (fst (last (since m xs))) \<le> sint (fst (last xs))" "xs \<noteq> []" using increasing_bounds(2) [OF inc] by auto
      with a after show False by simp
    qed
    then have "snd (abs_append m t v (since m xs)) = since m xs @ [(t, v)]" using False by (auto simp: abs_append_def)
    moreover have "snd (abs_append m0 t v xs) = xs @ [(t, v)]" using after t(2) by (auto simp: abs_append_def)
    ultimately show ?thesis using t(1) by simp
  qed
qed

lemma put_sample_since:
  assumes "\<forall>k. increasing (S k)" "sint m0 \<le> sint m"
  shows "(\<lambda>k. since m (put_sample m0 k0 t v S k)) = put_sample m k0 t v (\<lambda>k. since m (S k))"
    "\<forall>k. increasing (put_sample m0 k0 t v S k)"
  using assms abs_append_since [OF _ assms(2)] abs_append_increasing by (auto simp: put_sample_def fun_eq_iff)

definition raised :: "i64 \<Rightarrow> (u64 \<Rightarrow> string option) \<times> samples \<Rightarrow> (u64 \<Rightarrow> string option) \<times> samples" where
  "raised m BS = (fst BS, \<lambda>k. since m (snd BS k))"

lemma log_steps_since:
  assumes "sint m0 \<le> sint m"
  shows "\<forall>k. increasing (snd BS k) \<Longrightarrow> raised m (fold (log_step m0) es BS) = fold (log_step m) es (raised m BS) \<and>
    (\<forall>k. increasing (snd (fold (log_step m0) es BS) k))"
proof (induction es arbitrary: BS)
  case (Cons e es)
  obtain B S where BS: "BS = (B, S)" by force
  have S: "\<forall>k. increasing (S k)" using Cons.prems by (simp add: BS)
  have step: "raised m (log_step m0 e BS) = log_step m e (raised m BS) \<and> (\<forall>k. increasing (snd (log_step m0 e BS) k))"
  proof (cases e)
    case (Smp i t v)
    then show ?thesis using S put_sample_since [OF S assms, of _ t v] by (cases "B i") (simp_all add: raised_def BS)
  qed (use S in \<open>simp add: raised_def BS\<close>)
  show ?case using Cons.IH [of "log_step m0 e BS"] step by simp
qed simp

lemma logged_since:
  assumes "sint m0 \<le> sint m"
  shows "raised m (logged m0 es) = logged m es" "\<forall>k. increasing (snd (logged m0 es) k)"
proof -
  have "raised m (Map.empty, \<lambda>_. []) = (Map.empty, \<lambda>_. [])" by (simp add: raised_def)
  then show "raised m (logged m0 es) = logged m es" "\<forall>k. increasing (snd (logged m0 es) k)"
    using log_steps_since [OF assms, of "(Map.empty, \<lambda>_. [])" es] by (simp_all add: logged_def increasing_def)
qed

section \<open>Replay follows the log\<close>

lemma window_samples_upd [simp]:
  "window_samples (A(k \<mapsto> (ref, xs))) = (window_samples A)(k := xs)"
  by (auto simp: window_samples_def)

lemma window_samples_None: "A k = None \<Longrightarrow> window_samples A k = []"
  by (simp add: window_samples_def)

lemma apply_sample_samples:
  assumes "head_inv h" "shard_get h k = Some n" "apply_sample n t v m h = (res, h')"
  shows "head_inv h' \<and> same_series h h' \<and> head_samples h' = put_sample m k t v (head_samples h)"
proof -
  note S = apply_sample_spec [OF assms]
  have "contents h k \<noteq> None" using shard_contents [OF assms(1), of k] assms(2) by (metis option.distinct(1))
  then have "window_samples (contents h') k' = (put_sample m k t v (head_samples h)) k'" for k'
    using window_put_samples(1) [of "contents h" k m t v res "contents h'" k'] S by (simp add: put_sample_def)
  then show ?thesis using S by blast
qed

text \<open>The log's ids in step with the head: an id the log defines leads to the series of its key, and a
  series of the head is the one the log defines under its id.\<close>

definition by_log :: "(u64 \<Rightarrow> string option) \<Rightarrow> (u64 \<times> u64) list \<Rightarrow> Head \<Rightarrow> bool" where
  "by_log B byLogID h \<longleftrightarrow>
     (\<forall>i. case B i of None \<Rightarrow> map_of byLogID i = None | Some k \<Rightarrow> \<exists>n. map_of byLogID i = Some n \<and> shard_get h k = Some n)"

lemma by_logD:
  assumes "by_log B byLogID h"
  shows "B i = None \<Longrightarrow> map_of byLogID i = None" "B i = Some k \<Longrightarrow> \<exists>n. map_of byLogID i = Some n \<and> shard_get h k = Some n"
proof -
  have "case B i of None \<Rightarrow> map_of byLogID i = None | Some k \<Rightarrow> \<exists>n. map_of byLogID i = Some n \<and> shard_get h k = Some n"
    using assms unfolding by_log_def by blast
  then show "B i = None \<Longrightarrow> map_of byLogID i = None" "B i = Some k \<Longrightarrow> \<exists>n. map_of byLogID i = Some n \<and> shard_get h k = Some n"
    by simp_all
qed

lemma by_logI:
  assumes "\<And>i. B i = None \<Longrightarrow> map_of byLogID i = None"
    and "\<And>i k. B i = Some k \<Longrightarrow> \<exists>n. map_of byLogID i = Some n \<and> shard_get h k = Some n"
  shows "by_log B byLogID h"
  using assms unfolding by_log_def by (auto split: option.splits)

definition from_log :: "(u64 \<Rightarrow> string option) \<Rightarrow> Head \<Rightarrow> bool" where
  "from_log B h \<longleftrightarrow> (\<forall>i ms. head_series h i = Some ms \<and> ms_logged ms \<longrightarrow> B i = Some (series_Key (ms_ref ms))) \<and>
     (\<forall>i k. B i = Some k \<longrightarrow> unat i \<le> unat (h_nextID h))"

definition all_logged :: "Head \<Rightarrow> bool" where
  "all_logged h \<longleftrightarrow> (\<forall>i ms. head_series h i = Some ms \<longrightarrow> ms_logged ms)"

text \<open>A log that defines no id for two keys.\<close>

fun consistent :: "(u64 \<Rightarrow> string option) \<Rightarrow> log_event list \<Rightarrow> bool" where
  "consistent B [] = True"
| "consistent B (Def i ref # es) = ((B i = None \<or> B i = Some (series_Key ref)) \<and> consistent (B(i \<mapsto> series_Key ref)) es)"
| "consistent B (Smp i t v # es) = consistent B es"

lemma same_series_logged:
  assumes "same_series h h'"
  shows "by_log B byLogID h' = by_log B byLogID h" "from_log B h \<Longrightarrow> from_log B h'" "all_logged h \<Longrightarrow> all_logged h'"
proof -
  have e: "shard_get h' = shard_get h" "h_nextID h' = h_nextID h" using assms by (simp_all add: same_series_def)
  show "by_log B byLogID h' = by_log B byLogID h" unfolding by_log_def e by (rule refl)
  show "from_log B h \<Longrightarrow> from_log B h'" "all_logged h \<Longrightarrow> all_logged h'"
    using same_seriesD [OF assms] unfolding from_log_def all_logged_def e by fastforce+
qed

lemma replay_samples_spec:
  assumes "head_inv h" "by_log B byLogID h"
  shows "head_inv (snd (replay_samples m byLogID ss c h)) \<and> same_series h (snd (replay_samples m byLogID ss c h)) \<and>
    (B, head_samples (snd (replay_samples m byLogID ss c h))) =
      fold (log_step m) (map (\<lambda>s. Smp (hs_ID s) (hs_T s) (hs_V s)) ss) (B, head_samples h)"
  using assms
proof (induction ss arbitrary: c h)
  case (Cons s ss)
  obtain ap sk where c: "c = (ap, sk)" by force
  show ?case
  proof (cases "B (hs_ID s)")
    case None
    then have "map_of byLogID (hs_ID s) = None" by (rule by_logD(1) [OF Cons.prems(2)])
    then show ?thesis using None Cons.IH [OF Cons.prems] by (simp add: c)
  next
    case (Some k)
    then obtain n where n: "map_of byLogID (hs_ID s) = Some n" "shard_get h k = Some n" using by_logD(2) [OF Cons.prems(2)] by blast
    obtain res h1 where a: "apply_sample n (hs_T s) (hs_V s) m h = (res, h1)" by force
    note S = apply_sample_samples [OF Cons.prems(1) n(2) a]
    have "head_inv h1" "by_log B byLogID h1" using S same_series_logged(1) Cons.prems(2) by blast+
    note IH = Cons.IH [OF this]
    have "\<exists>c1. replay_samples m byLogID (s # ss) c h = replay_samples m byLogID ss c1 h1"
      using n(1) a by (cases res) (auto simp: c)
    then obtain c1 where "replay_samples m byLogID (s # ss) c h = replay_samples m byLogID ss c1 h1" by blast
    then show ?thesis using IH [of c1] S Some same_series_trans [of h h1] by simp
  qed
qed simp

lemma restoreSeries_spec:
  assumes inv: "head_inv h" and B: "by_log B byLogID h" "from_log B h" "all_logged h"
    and i: "B i = None \<or> B i = Some (series_Key ref)" and r: "restoreSeries i ref h = (n, h')"
  shows "head_inv h' \<and> by_log (B(i \<mapsto> series_Key ref)) (AList.update i n byLogID) h' \<and> from_log (B(i \<mapsto> series_Key ref)) h' \<and>
    all_logged h' \<and> head_samples h' = head_samples h \<and> h_opts h' = h_opts h \<and> h_minValid h' = h_minValid h"
proof -
  let ?k = "series_Key ref"
  define h1 where "h1 = (if unat (h_nextID h) < unat i then h\<lparr>h_nextID := i\<rparr> else h)"
  have h1: "head_inv h1" "shard_get h1 = shard_get h" "head_series h1 = head_series h" "contents h1 = contents h"
    "h_opts h1 = h_opts h" "h_minValid h1 = h_minValid h" "unat i \<le> unat (h_nextID h1)" "unat (h_nextID h) \<le> unat (h_nextID h1)"
    using inv nextID_inv [OF inv, of i] by (simp_all add: h1_def fun_eq_iff)
  have ids: "B j = Some k \<Longrightarrow> unat j \<le> unat (h_nextID h1)" for j k using B(2) h1(8) order_trans unfolding from_log_def by blast
  show ?thesis
  proof (cases "shard_get h ?k")
    case (Some j)
    then have e: "n = j" "h' = h1" using r by (auto simp: restoreSeries_def h1_def [symmetric] h1(2) Let_def)
    have "by_log (B(i \<mapsto> ?k)) (AList.update i j byLogID) h1"
    proof (rule by_logI)
      fix l k assume "(B(i \<mapsto> ?k)) l = Some k"
      then show "\<exists>n. map_of (AList.update i j byLogID) l = Some n \<and> shard_get h1 k = Some n"
        using by_logD(2) [OF B(1), of l k] Some by (auto simp: update_conv' h1(2) split: if_splits)
    qed (use by_logD(1) [OF B(1)] in \<open>auto simp: update_conv' split: if_splits\<close>)
    moreover have "from_log (B(i \<mapsto> ?k)) h1" using B(2) i h1(7) ids unfolding from_log_def h1(3) by (auto split: if_splits)
    ultimately show ?thesis using h1 B(3) unfolding e by (simp add: all_logged_def)
  next
    case None
    have "head_series h i = None"
    proof (rule ccontr)
      assume "head_series h i \<noteq> None"
      then obtain ms where ms: "head_series h i = Some ms" by blast
      then have "B i = Some (series_Key (ms_ref ms))" using B(2,3) unfolding from_log_def all_logged_def by blast
      with i have "series_Key (ms_ref ms) = ?k" by simp
      then show False using head_invD(2) [OF inv ms] series_entryD(3) None by fastforce
    qed
    note free = this
    let ?ms = "newSeries i ref True"
    have e: "n = i" "h' = enter_series ?ms h1"
      using r None free by (auto simp: restoreSeries_def h1_def [symmetric] h1(2,3) Let_def)
    have "head_inv h'" unfolding e using enter_inv [OF h1(1), of ?ms] None free h1(7) by (simp add: h1(2,3))
    moreover have c: "contents h' = (contents h)(?k \<mapsto> (ref, []))"
      unfolding e using contents_enter [OF h1(1), of ?ms] free by (simp add: h1(3,4))
    have "head_samples h' = head_samples h"
      unfolding c using window_samples_None [of "contents h" ?k] contents_free [OF None] by (simp add: fun_upd_idem)
    moreover have "by_log (B(i \<mapsto> ?k)) (AList.update i i byLogID) h'"
    proof (rule by_logI)
      fix l k assume l: "(B(i \<mapsto> ?k)) l = Some k"
      show "\<exists>n. map_of (AList.update i i byLogID) l = Some n \<and> shard_get h' k = Some n"
      proof (cases "l = i")
        case True
        with l show ?thesis by (simp add: update_conv' e)
      next
        case False
        then obtain n where n: "map_of byLogID l = Some n" "shard_get h k = Some n" using l by_logD(2) [OF B(1), of l k] by auto
        then have "k \<noteq> ?k" using None by auto
        with n False show ?thesis by (simp add: update_conv' e h1(2))
      qed
    qed (use by_logD(1) [OF B(1)] in \<open>auto simp: update_conv' split: if_splits\<close>)
    moreover have "from_log (B(i \<mapsto> ?k)) h'" using B(2) h1(7) ids unfolding from_log_def e by (auto simp: h1(3) split: if_splits)
    moreover have "all_logged h'" using B(3) unfolding all_logged_def e by (auto simp: h1(3) split: if_splits)
    ultimately show ?thesis using h1(5,6) e by simp
  qed
qed

lemma consistent_samples [simp]: "consistent B (map (\<lambda>s. Smp (hs_ID s) (hs_T s) (hs_V s)) ss @ es) = consistent B es"
  by (induction ss) simp_all

lemma fold_samples_fst: "fst (fold (log_step m) (map (\<lambda>s. Smp (hs_ID s) (hs_T s) (hs_V s)) ss) BS) = fst BS"
proof (induction ss arbitrary: BS)
  case (Cons s ss)
  then show ?case by (cases BS) simp
qed simp

lemma replay_records_spec:
  assumes "head_inv h" "by_log B byLogID h" "from_log B h" "all_logged h"
    and "log_events recs = Some es" "consistent B es"
  shows "\<exists>c' h'. replay_records m byLogID recs c h = (Inr c', h') \<and> head_inv h' \<and> all_logged h' \<and>
    from_log (fst (fold (log_step m) es (B, head_samples h))) h' \<and>
    head_samples h' = snd (fold (log_step m) es (B, head_samples h)) \<and> h_opts h' = h_opts h \<and> h_minValid h' = h_minValid h"
  using assms
proof (induction recs arbitrary: B byLogID es c h)
  case (Cons r recs)
  obtain e1 es2 where ev: "record_events r = Some e1" "log_events recs = Some es2" "es = e1 @ es2"
    using Cons.prems(5) by (auto split: option.splits)
  consider (series) "rec_Type r = RecordSeries" | (samples) "rec_Type r \<noteq> RecordSeries" "rec_Type r = RecordSamples"
    | (other) "rec_Type r \<noteq> RecordSeries" "rec_Type r \<noteq> RecordSamples" by blast
  then show ?case
  proof cases
    case series
    then obtain i ref where d: "decodeSeries (rec_Data r) = Inr (i, ref)" "e1 = [Def i ref]"
      using ev(1) by (auto simp: record_events_def split: sum.splits)
    obtain n h1 where rs: "restoreSeries i ref h = (n, h1)" by force
    have ok: "B i = None \<or> B i = Some (series_Key ref)" "consistent (B(i \<mapsto> series_Key ref)) es2"
      using Cons.prems(6) by (simp_all add: ev(3) d(2))
    note R = restoreSeries_spec [OF Cons.prems(1-4) ok(1) rs]
    then have "head_inv h1" "by_log (B(i \<mapsto> series_Key ref)) (AList.update i n byLogID) h1" "from_log (B(i \<mapsto> series_Key ref)) h1"
      "all_logged h1" by blast+
    note IH = Cons.IH [OF this ev(2) ok(2), of c]
    have f: "fold (log_step m) es (B, head_samples h) = fold (log_step m) es2 (B(i \<mapsto> series_Key ref), head_samples h)"
      by (simp add: ev(3) d(2))
    have rr: "replay_records m byLogID (r # recs) c h = replay_records m (AList.update i n byLogID) recs c h1"
      using series d(1) rs by simp
    have eqs: "head_samples h1 = head_samples h" "h_opts h1 = h_opts h" "h_minValid h1 = h_minValid h" using R by blast+
    show ?thesis using IH unfolding f rr eqs .
  next
    case samples
    then obtain ss where d: "decodeSamples (rec_Data r) = Inr ss" "e1 = map (\<lambda>s. Smp (hs_ID s) (hs_T s) (hs_V s)) ss"
      using ev(1) by (auto simp: record_events_def split: sum.splits)
    obtain c1 h1 where rs: "replay_samples m byLogID ss c h = (c1, h1)" by (metis surj_pair)
    note R = replay_samples_spec [OF Cons.prems(1,2), of m ss c, unfolded rs snd_conv]
    have s: "same_series h h1" "head_inv h1" using R by blast+
    have "by_log B byLogID h1" "from_log B h1" "all_logged h1" using same_series_logged [OF s(1)] Cons.prems(2-4) by blast+
    moreover have "consistent B es2" using Cons.prems(6) by (simp add: ev(3) d(2))
    ultimately have IH: "\<exists>c' h'. replay_records m byLogID recs c1 h1 = (Inr c', h') \<and> head_inv h' \<and> all_logged h' \<and>
        from_log (fst (fold (log_step m) es2 (B, head_samples h1))) h' \<and>
        head_samples h' = snd (fold (log_step m) es2 (B, head_samples h1)) \<and> h_opts h' = h_opts h1 \<and> h_minValid h' = h_minValid h1"
      using Cons.IH [OF s(2) _ _ _ ev(2)] by blast
    have "fold (log_step m) es (B, head_samples h) = fold (log_step m) es2 (B, head_samples h1)"
      using R by (simp add: ev(3) d(2))
    moreover have "replay_records m byLogID (r # recs) c h = replay_records m byLogID recs c1 h1" using samples d(1) rs by simp
    moreover have "h_opts h1 = h_opts h" "h_minValid h1 = h_minValid h" using s(1) by (simp_all add: same_series_def)
    ultimately show ?thesis using IH by simp
  next
    case other
    then have "e1 = []" using ev(1) by (simp add: record_events_def)
    with Cons.IH [OF Cons.prems(1-4) ev(2)] Cons.prems(6) other ev(3) show ?thesis by simp
  qed
qed (auto simp: from_log_def)

section \<open>The records of a batch\<close>

lemma log_events_append:
  "log_events (xs @ ys) = (case log_events xs of None \<Rightarrow> None | Some es \<Rightarrow> map_option (\<lambda>es'. es @ es') (log_events ys))"
  by (cases "log_events ys"; induction xs) (auto split: option.splits)

abbreviation sample_events :: "hSample list \<Rightarrow> log_event list" where
  "sample_events ss \<equiv> map (\<lambda>s. Smp (hs_ID s) (hs_T s) (hs_V s)) ss"

lemma RecordSamples_neq [simp]: "RecordSamples \<noteq> RecordSeries" "RecordSeries \<noteq> RecordSamples" "RecordSamples \<noteq> 0" "RecordSeries \<noteq> 0"
  by (simp_all add: RecordSamples_def RecordSeries_def)

lemma encodeSamples_size:
  assumes "length ss \<le> maxSamplesPerRecord"
  shows "length (encodeSamples ss) \<le> MaxRecordSize" "length ss < 2 ^ 63"
proof -
  have "length (concat (map sample_bytes ss)) \<le> 28 * length ss"
  proof (induction ss)
    case (Cons s ss)
    have "length (sample_bytes s) + length (concat (map sample_bytes ss)) \<le> 28 + 28 * length ss"
      using length_sample_bytes(2) [of s] Cons by (rule add_mono)
    then show ?case by simp
  qed simp
  then have "length (encodeSamples ss) \<le> 10 + 28 * length ss"
    using length_putUvarint(2) [of "of_nat (length ss)"] by (simp add: encodeSamples_def)
  then show "length (encodeSamples ss) \<le> MaxRecordSize" "length ss < 2 ^ 63"
    using assms by (simp_all add: maxSamplesPerRecord_def maxSampleBytes_def MaxRecordSize_def)
qed

lemma sample_records_spec:
  "list_all rec_ok (sample_records ss) \<and> log_events (sample_records ss) = Some (sample_events ss)"
proof (induction ss rule: sample_records.induct)
  case (1 ss)
  have one: "rec_ok \<lparr>rec_Type = RecordSamples, rec_Data = encodeSamples xs\<rparr>"
    "record_events \<lparr>rec_Type = RecordSamples, rec_Data = encodeSamples xs\<rparr> = Some (sample_events xs)"
    if "length xs \<le> maxSamplesPerRecord" for xs
    using encodeSamples_size [OF that] decode_encodeSamples by (simp_all add: rec_ok_def record_events_def)
  show ?case
  proof (cases "length ss \<le> maxSamplesPerRecord")
    case True
    then show ?thesis using one [OF True] by (simp add: sample_records.simps [of ss] Let_def)
  next
    case False
    let ?t = "take maxSamplesPerRecord ss" and ?d = "drop maxSamplesPerRecord ss"
    have "sample_records ss = \<lparr>rec_Type = RecordSamples, rec_Data = encodeSamples ?t\<rparr> # sample_records ?d"
      using False by (simp add: sample_records.simps [of ss] Let_def)
    moreover have "sample_events ?t @ sample_events ?d = sample_events ss" by (simp flip: map_append)
    ultimately show ?thesis using one [of ?t] "1" [OF refl refl False] by simp
  qed
qed

lemma batch_records_events:
  assumes "list_all (\<lambda>(i, ref). ref_ok ref) series"
  shows "log_events (batch_records series ss) = Some (map (\<lambda>(i, ref). Def i ref) series @ sample_events ss)"
  using assms
proof (induction series)
  case Nil
  then show ?case using sample_records_spec by (simp add: batch_records_def)
next
  case (Cons s series)
  then show ?case using decode_encodeSeries by (cases s) (simp add: batch_records_def record_events_def)
qed

end
