(* ===== verification/Head_Durability.thy ===== *)
theory Head_Durability
  imports Head_Replay
begin

text \<open>
  The head and its log in step: whatever the head has acknowledged, its log says too, through
  appends that succeed or fail, cuts, checkpoints of the log and restarts. A log is an instance of the
  locale \<open>head_log\<close>; the write-ahead log is one.
\<close>

section \<open>In step\<close>

definition lowest :: i64 where "lowest = - (2 ^ 63)"

lemma lowest_le [simp]: "sint lowest \<le> sint (m :: i64)"
  using sint_64_bounds(1) [of m] by (simp add: lowest_def)

definition in_step :: "Head \<Rightarrow> log_event list \<Rightarrow> bool" where
  "in_step h es \<longleftrightarrow> head_inv h \<and> all_logged h \<and> from_log (fst (logged lowest es)) h \<and> consistent Map.empty es \<and>
     (\<forall>k. since (h_minValid h) (head_samples h k) = snd (logged (h_minValid h) es) k)"

lemma logged_fst: "fst (logged m es) = fst (logged lowest es)"
  using logged_since(1) [OF lowest_le, of m es] by (simp add: raised_def prod_eq_iff)

lemma logged_raise: "sint m \<le> sint m' \<Longrightarrow> snd (logged m' es) k = since m' (snd (logged m es) k)"
  using logged_since(1) [of m m' es] by (simp add: raised_def prod_eq_iff fun_eq_iff)

lemma logged_append: "logged m (es @ es') = fold (log_step m) es' (logged m es)"
  by (simp add: logged_def)

lemma consistent_append:
  "consistent B (es @ es') \<longleftrightarrow> consistent B es \<and> consistent (fst (fold (log_step m) es (B, S))) es'"
proof (induction es arbitrary: B S)
  case (Cons e es)
  show ?case
  proof (cases e)
    case (Def i ref)
    show ?thesis unfolding Def append_Cons consistent.simps fold_simps log_step.simps
      Cons.IH [of "B(i \<mapsto> series_Key ref)" S] by blast
  next
    case (Smp i t v)
    show ?thesis unfolding Smp by (cases "B i") (simp_all add: Cons.IH)
  qed
qed simp

lemma since_since: "sint m \<le> sint m' \<Longrightarrow> since m' (since m xs) = since m' xs"
  by (induction xs) auto

definition survives :: "Head \<Rightarrow> Head \<Rightarrow> bool" where
  "survives h h' \<longleftrightarrow> unat (h_nextID h) \<le> unat (h_nextID h') \<and>
     (\<forall>i ms'. head_series h' i = Some ms' \<longrightarrow>
        (\<exists>ms. head_series h i = Some ms \<and> ms_ref ms' = ms_ref ms \<and> ms_logged ms' = ms_logged ms))"

lemma shrinks_survives: "shrinks (h\<lparr>h_minValid := m\<rparr>) h' \<Longrightarrow> survives h h' \<and> h_minValid h' = m"
  unfolding shrinks_def survives_def by fastforce

lemma in_step_raise:
  assumes "in_step h es" "sint (h_minValid h) \<le> sint m" "head_inv h'" "survives h h' \<and> h_minValid h' = m"
    and "\<And>k. since m (head_samples h' k) = since m (head_samples h k)"
  shows "in_step h' es"
proof -
  have h': "h_minValid h' = m" "unat (h_nextID h) \<le> unat (h_nextID h')" using assms(4) by (simp_all add: survives_def)
  have series: "\<exists>ms. head_series h i = Some ms \<and> ms_ref ms' = ms_ref ms \<and> ms_logged ms' = ms_logged ms" if "head_series h' i = Some ms'" for i ms'
    using assms(4) that unfolding survives_def by blast
  have log: "all_logged h" "from_log (fst (logged lowest es)) h" "consistent Map.empty es"
    "\<And>k. since (h_minValid h) (head_samples h k) = snd (logged (h_minValid h) es) k" using assms(1) by (simp_all add: in_step_def)
  have "all_logged h'" using log(1) series unfolding all_logged_def by metis
  moreover have "from_log (fst (logged lowest es)) h'"
    unfolding from_log_def
  proof (intro conjI allI impI)
    fix i ms' assume "head_series h' i = Some ms' \<and> ms_logged ms'"
    then show "fst (logged lowest es) i = Some (series_Key (ms_ref ms'))"
      using series [of i ms'] log(2) unfolding from_log_def by auto
  next
    fix i k assume "fst (logged lowest es) i = Some k"
    then have "unat i \<le> unat (h_nextID h)" using log(2) unfolding from_log_def by blast
    then show "unat i \<le> unat (h_nextID h')" using h'(2) by linarith
  qed
  moreover have "since m (head_samples h' k) = snd (logged m es) k" for k
    unfolding assms(5) logged_raise [OF assms(2)] log(4) [symmetric] since_since [OF assms(2)] ..
  ultimately show ?thesis using assms(3) log(3) by (simp add: in_step_def h'(1))
qed

lemma Freeze_in_step:
  assumes "in_step h es"
  shows "in_step (Freeze m h) es"
proof (cases "sint (h_minValid h) < sint m")
  case True
  have "in_step (h\<lparr>h_minValid := m\<rparr>) es"
    by (rule in_step_raise [where m = m, OF assms]) (use True assms in \<open>simp_all add: in_step_def survives_def\<close>)
  with True show ?thesis by (simp add: Freeze_def)
qed (use assms in \<open>simp add: Freeze_def\<close>)

lemma Truncate_spec:
  assumes inv: "head_inv h" and mint: "sint m mod sint (h_range h) = 0" and ord: "reorders ord"
    and t: "head_Truncate ord m h = (n, h')"
  shows "head_inv h'" "shrinks (h\<lparr>h_minValid := m\<rparr>) h'" "contents h' = window_from m (contents h)"
proof -
  let ?h = "h\<lparr>h_minValid := m\<rparr>"
  have h': "h' = snd (truncate_all m (ord (map fst (h_byID h))) ?h)" using t by (simp add: head_Truncate_def)
  note T = truncate_all_spec [of ?h m "ord (map fst (h_byID h))"]
  show "head_inv h'" "shrinks ?h h'" using T inv mint unfolding h' by simp_all
  have ids: "set (ord (map fst (h_byID h))) = dom (head_series h)"
    using reordersD [OF ord] unfolding head_series_def dom_map_of_conv_image_fst by (metis set_map)
  have all: "(if \<exists>n \<in> set (ord (map fst (h_byID h))). shard_get h k = Some n then window_from m (contents h) k else contents h k) =
      window_from m (contents h) k" for k
  proof (cases "shard_get h k")
    case None
    then show ?thesis using contents_free [OF None] by (simp add: window_from_def)
  next
    case (Some n)
    then show ?thesis using head_invD(3) [OF inv Some] unfolding ids by auto
  qed
  have "contents h' = (\<lambda>k. if \<exists>n \<in> set (ord (map fst (h_byID h))). shard_get h k = Some n
      then window_from m (contents h) k else contents h k)"
    using T inv mint unfolding h' same_contents_upd shard_get_upd by simp
  then show "contents h' = window_from m (contents h)" unfolding all .
qed

lemma window_from_samples: "window_samples (window_from m A) k = since m (window_samples A k)"
  by (simp add: window_samples_def window_from_def Let_def split: option.splits)

lemma Truncate_in_step:
  assumes "in_step h es" "sint m mod sint (h_range h) = 0" "reorders ord" "sint (h_minValid h) \<le> sint m"
    and t: "head_Truncate ord m h = (n, h')"
  shows "in_step h' es"
proof -
  have "head_inv h" using assms(1) by (simp add: in_step_def)
  note T = Truncate_spec [OF this assms(2,3) t]
  show ?thesis by (rule in_step_raise [OF assms(1,4) T(1) shrinks_survives [OF T(2)]]) (simp add: T(3) window_from_samples)
qed

section \<open>Appending\<close>

lemma put_window_samples:
  assumes "A k \<noteq> None" "window_put m k t v A = (r, A')"
  shows "window_samples A' = put_sample m k t v (window_samples A)"
  using window_put_samples(1) [OF assms] by (auto simp: put_sample_def)

text \<open>Applying a batch to the head is logging its samples, when the log knows their ids.\<close>

lemma apply_all_events:
  assumes "head_inv h" "\<And>n s. (Some n, s) \<in> set rs \<Longrightarrow> hs_ID s = n \<and> (\<exists>k. shard_get h k = Some n \<and> B n = Some k)"
  shows "(B, head_samples (snd (apply_all i m rs h :: (bool list \<times> 'e Rejection list \<times> int) \<times> Head))) = fold (log_step m) (sample_events (valid_samples rs)) (B, head_samples h)"
  using assms
proof (induction rs arbitrary: i h)
  case (Cons r rs)
  obtain x s where r: "r = (x, s)" by force
  have rest: "(Some n, s') \<in> set rs \<Longrightarrow> hs_ID s' = n \<and> (\<exists>k. shard_get h k = Some n \<and> B n = Some k)" for n s'
    by (rule Cons.prems(2)) simp
  show ?case
  proof (cases x)
    case None
    then show ?thesis using Cons.IH [OF Cons.prems(1) rest, of "i + 1"] by (simp add: r valid_samples_def split_beta)
  next
    case (Some n)
    then obtain k where k: "shard_get h k = Some n" "B n = Some k" "hs_ID s = n" using Cons.prems(2) [of n s] by (auto simp: r)
    obtain res h1 where a: "apply_sample n (hs_T s) (hs_V s) m h = (res, h1)" by force
    note S = apply_sample_samples [OF Cons.prems(1) k(1) a]
    then have "head_inv h1" "shard_get h1 = shard_get h" by (simp_all add: same_series_def)
    note IH = Cons.IH [OF this(1), unfolded this(2), OF rest, of "i + 1"]
    have "snd (apply_all i m (r # rs) h :: (bool list \<times> 'e Rejection list \<times> int) \<times> Head) =
        snd (apply_all (i + 1) m rs h1 :: (bool list \<times> 'e Rejection list \<times> int) \<times> Head)"
      using a by (cases res) (simp_all add: r Some split_beta)
    then show ?thesis using IH S k by (simp add: r Some valid_samples_def)
  qed
qed (simp add: valid_samples_def)

lemma all_resolved_ids: "all_resolved h m bs as rs \<Longrightarrow> (Some n, s) \<in> set rs \<Longrightarrow> hs_ID s = n \<and> (\<exists>k. shard_get h k = Some n)"
proof (induction h m bs as rs rule: all_resolved.induct)
  case (2 h m b bs a as r rs)
  then show ?case by (cases a) auto
qed auto

lemma all_resolved_key:
  "all_resolved h m bs as rs \<Longrightarrow> Inr k \<in> set as \<Longrightarrow> \<exists>n s ref. shard_get h k = Some n \<and> (Some n, s) \<in> set rs \<and> ref \<in> fst ` set bs \<and> series_Key ref = k"
proof (induction h m bs as rs rule: all_resolved.induct)
  case (2 h m b bs a as r rs)
  show ?case
  proof (cases "a = Inr k")
    case True
    then show ?thesis using 2(2) by fastforce
  next
    case False
    then show ?thesis using 2 by fastforce
  qed
qed auto

lemma resolve_window_refs:
  "resolve_window lim m A batch = (as, A1) \<Longrightarrow> A k = None \<Longrightarrow> A1 k = Some (ref, xs) \<Longrightarrow> ref \<in> fst ` set batch"
proof (induction lim m A batch arbitrary: as A1 rule: resolve_window.induct)
  case (2 lim m A ref' s rest)
  show ?case
  proof (cases "sint (hs_T s) < sint m \<or> isl (admit lim A ref')")
    case True
    then show ?thesis using 2 by (auto split: prod.splits if_splits sum.splits)
  next
    case False
    then obtain Aa where Aa: "admit lim A ref' = Inr Aa" "\<not> sint (hs_T s) < sint m" by (metis isl_def sum.exhaust)
    obtain as2 A2 where r: "resolve_window lim m Aa rest = (as2, A2)" by force
    then have e: "A1 = A2" using 2(4) Aa by auto
    show ?thesis
    proof (cases "k = series_Key ref'")
      case True
      then have "Aa k = Some (ref', [])" using admitted [OF Aa(1), of k] 2(5) by simp
      then have "fst (the (A1 k)) = ref'" using resolve_window_adds [OF r, of k] e by auto
      then show ?thesis using 2(6) by simp
    next
      case False
      then have "Aa k = None" using admitted [OF Aa(1), of k] 2(5) by simp
      then show ?thesis using 2(3) [OF Aa(2,1) r] 2(6) unfolding e by simp
    qed
  qed
qed simp

lemma head_samples_increasing:
  assumes "head_inv h"
  shows "increasing (head_samples h k)"
proof (cases "held h k")
  case None
  then show ?thesis by (simp add: window_samples_def contents_def increasing_def)
next
  case (Some ms)
  then obtain i where "head_series h i = Some ms" using held_iff [OF assms] by blast
  then have "increasing (all_samples ms)" using head_invD(2) [OF assms] series_entryD(4) stores_increasing by blast
  then show ?thesis using Some by (simp add: window_samples_def contents_def)
qed

lemma fold_defs:
  assumes "distinct (map fst sr)" "\<And>i. i \<in> fst ` set sr \<Longrightarrow> B i = None"
  shows "fold (log_step m) (map (\<lambda>(i, ref). Def i ref) sr) (B, S) =
      (\<lambda>i. case map_of sr i of Some ref \<Rightarrow> Some (series_Key ref) | None \<Rightarrow> B i, S) \<and>
    consistent B (map (\<lambda>(i, ref). Def i ref) sr)"
  using assms
proof (induction sr arbitrary: B)
  case (Cons d sr)
  obtain i ref where d: "d = (i, ref)" by force
  let ?B = "B(i \<mapsto> series_Key ref)"
  have ni: "i \<notin> fst ` set sr" "distinct (map fst sr)" using Cons.prems(1) by (simp_all add: d)
  then have none: "?B j = None" if "j \<in> fst ` set sr" for j using that Cons.prems(2) [of j] by auto
  note IH = Cons.IH [where B = ?B, OF ni(2) none]
  have "map_of sr i = None" using ni(1) by (simp add: map_of_eq_None_iff)
  then have eq: "(\<lambda>j. case map_of sr j of Some ref \<Rightarrow> Some (series_Key ref) | None \<Rightarrow> ?B j) =
      (\<lambda>j. case map_of (d # sr) j of Some ref \<Rightarrow> Some (series_Key ref) | None \<Rightarrow> B j)"
    by (auto simp: d fun_eq_iff split: option.splits)
  have "B i = None" by (rule Cons.prems(2)) (simp add: d)
  with IH show ?case unfolding eq [symmetric] unfolding d list.map fold_simps prod.case log_step.simps consistent.simps by blast
qed simp

text \<open>The definitions a batch logs are those of the series it created, under ids the log has not seen.\<close>

lemma pending_new:
  assumes st: "in_step h es" and g: "grows h h1" and inv: "head_inv h1" and p: "mark_pending rs h1 = (pending, h2)"
    and n: "n \<in> set pending"
  shows "head_series h n = None" "fst (logged lowest es) n = None" "\<exists>ms. head_series h1 n = Some ms \<and> ms_id ms = n"
proof -
  obtain ms where ms: "head_series h1 n = Some ms" "\<not> ms_logged ms" using mark_pending_spec [OF inv p] n by blast
  show new: "head_series h n = None"
  proof (cases "head_series h n")
    case (Some ms0)
    then have "ms0 = ms" "ms_logged ms0" using growsD(4) [OF g Some] ms(1) st by (auto simp: in_step_def all_logged_def)
    with ms(2) show ?thesis by simp
  qed
  have lt: "unat (h_nextID h) < unat n" using growsD(6) [OF g ms(1) new] by blast
  show "fst (logged lowest es) n = None"
  proof (rule ccontr)
    assume "fst (logged lowest es) n \<noteq> None"
    then have "unat n \<le> unat (h_nextID h)" using st unfolding in_step_def from_log_def by blast
    with lt show False by simp
  qed
  show "\<exists>ms. head_series h1 n = Some ms \<and> ms_id ms = n" using ms(1) head_invD(2) [OF inv ms(1)] series_entryD(1) by blast
qed

lemma map_filter_all: "(\<forall>n \<in> set ns. f n = Some (g n)) \<Longrightarrow> List.map_filter f ns = map g ns"
  by (induction ns) (auto simp: List.map_filter_simps)

lemma series_records_eq:
  assumes "head_inv h1" "marked True pending h1 h2" "\<forall>n \<in> set pending. \<exists>ms. head_series h1 n = Some ms \<and> ms_id ms = n"
  shows "series_records h2 pending = map (\<lambda>n. (n, ms_ref (the (head_series h1 n)))) pending"
proof -
  have "map_option (\<lambda>ms. (ms_id ms, ms_ref ms)) (head_series h2 n) = Some (n, ms_ref (the (head_series h1 n)))" if "n \<in> set pending" for n
    using assms(2,3) that unfolding marked_def by fastforce
  then show ?thesis unfolding series_records_def by (intro map_filter_all) blast
qed

text \<open>The ids of the log after the definitions of a batch.\<close>

definition ids_after :: "Head \<Rightarrow> u64 list \<Rightarrow> log_event list \<Rightarrow> u64 \<Rightarrow> string option" where
  "ids_after h1 pending es n =
     (if n \<in> set pending then Some (series_Key (ms_ref (the (head_series h1 n)))) else fst (logged lowest es) n)"

lemma definitions_logged:
  assumes st: "in_step h es" and g: "grows h h1" and inv: "head_inv h1" and p: "mark_pending rs h1 = (pending, h2)"
  shows "logged m (es @ map (\<lambda>(i, ref). Def i ref) (series_records h2 pending)) = (ids_after h1 pending es, snd (logged m es))"
    "consistent (fst (logged m es)) (map (\<lambda>(i, ref). Def i ref) (series_records h2 pending))"
    "series_records h2 pending = map (\<lambda>n. (n, ms_ref (the (head_series h1 n)))) pending"
proof -
  let ?B = "fst (logged lowest es)" and ?sr = "series_records h2 pending"
  have M: "marked True pending h1 h2" "distinct pending" using mark_pending_spec [OF inv p] by blast+
  note new = pending_new [OF st g inv p]
  show sr: "?sr = map (\<lambda>n. (n, ms_ref (the (head_series h1 n)))) pending"
    using series_records_eq [OF inv M(1)] new(3) by blast
  have "distinct (map fst ?sr)" using M(2) by (simp add: sr comp_def)
  moreover have "?B i = None" if "i \<in> fst ` set ?sr" for i using that new(2) by (auto simp: sr)
  ultimately have defs: "fold (log_step m) (map (\<lambda>(i, ref). Def i ref) ?sr) (?B, S) =
      (\<lambda>i. case map_of ?sr i of Some ref \<Rightarrow> Some (series_Key ref) | None \<Rightarrow> ?B i, S)"
    "consistent ?B (map (\<lambda>(i, ref). Def i ref) ?sr)" for S using fold_defs [of ?sr ?B] by blast+
  have ids: "(\<lambda>i. case map_of ?sr i of Some ref \<Rightarrow> Some (series_Key ref) | None \<Rightarrow> ?B i) = ids_after h1 pending es"
    unfolding ids_after_def sr by (auto simp: map_of_map_restrict fun_eq_iff split: option.splits)
  have l: "logged m es = (?B, snd (logged m es))" unfolding logged_fst [of m es, symmetric] by (rule prod.collapse [symmetric])
  show "logged m (es @ map (\<lambda>(i, ref). Def i ref) ?sr) = (ids_after h1 pending es, snd (logged m es))"
    unfolding logged_append by (subst l) (simp only: defs(1) ids)
  show "consistent (fst (logged m es)) (map (\<lambda>(i, ref). Def i ref) ?sr)" using defs(2) logged_fst [of m es] by simp
qed

text \<open>Every id a batch uses is one the log knows by then, and leads to the series of the sample.\<close>

lemma resolved_known:
  assumes st: "in_step h es" and g: "grows h h1" and inv: "head_inv h1" and p: "mark_pending rs h1 = (pending, h2)"
    and res: "all_resolved h1 m batch as rs" and n: "(Some n, s) \<in> set rs"
  shows "hs_ID s = n \<and> (\<exists>k. shard_get h1 k = Some n \<and> ids_after h1 pending es n = Some k)"
proof -
  obtain k where k: "hs_ID s = n" "shard_get h1 k = Some n" using all_resolved_ids [OF res n] by blast
  obtain ms where ms: "head_series h1 n = Some ms" "series_Key (ms_ref ms) = k" using head_invD(3) [OF inv k(2)] by blast
  have "ids_after h1 pending es n = Some k"
  proof (cases "n \<in> set pending")
    case True
    then show ?thesis using ms by (simp add: ids_after_def)
  next
    case False
    then have "ms_logged ms" using mark_pending_spec [OF inv p] n ms(1) by blast
    then have "head_series h n = Some ms" using growsD(4,6) [OF g] ms(1) by (metis option.exhaust)
    with \<open>ms_logged ms\<close> False show ?thesis using st ms(2) by (auto simp: in_step_def from_log_def ids_after_def)
  qed
  with k show ?thesis by blast
qed

lemma marked_in_step:
  assumes st: "in_step h es" and g: "grows h h1" and inv: "head_inv h1" and p: "mark_pending rs h1 = (pending, h2)"
    and new: "\<And>n ms. head_series h1 n = Some ms \<Longrightarrow> head_series h n = None \<Longrightarrow> \<exists>s. (Some n, s) \<in> set rs"
    and h': "same_series h2 h3" "shrinks h3 h'"
  shows "all_logged h'" "from_log (ids_after h1 pending es) h'"
proof -
  have M: "marked True pending h1 h2" "set pending = {n. \<exists>s ms. (Some n, s) \<in> set rs \<and> head_series h1 n = Some ms \<and> \<not> ms_logged ms}"
    using mark_pending_spec [OF inv p] by blast+
  have sh: "shrinks h2 h'" using shrinks_trans same_series_shrinks h' by blast
  have nid: "h_nextID h' = h_nextID h1" using sh M(1) by (simp add: shrinks_def marked_def)
  have key: "ms_logged ms \<and> ids_after h1 pending es n = Some (series_Key (ms_ref ms))" if h2: "head_series h2 n = Some ms" for n ms
  proof (cases "n \<in> set pending")
    case True
    then show ?thesis using M(1) h2 by (auto simp: marked_def ids_after_def)
  next
    case False
    then have ms: "head_series h1 n = Some ms" using M(1) h2 by (simp add: marked_def)
    have "head_series h n = Some ms"
    proof (cases "head_series h n")
      case None
      then show ?thesis using new [OF ms None] growsD(6) [OF g ms None] M(2) False ms by blast
    next
      case (Some ms0)
      then show ?thesis using growsD(4) [OF g Some] ms by simp
    qed
    then show ?thesis using st False by (auto simp: in_step_def all_logged_def from_log_def ids_after_def)
  qed
  show "all_logged h'" unfolding all_logged_def using key sh unfolding shrinks_def by metis
  have "unat n \<le> unat (h_nextID h1)" if "ids_after h1 pending es n = Some k" for n k
  proof (cases "n \<in> set pending")
    case True
    then obtain ms where "head_series h1 n = Some ms" using M(2) by blast
    then show ?thesis using head_invD(2) [OF inv] series_entryD(2) by blast
  next
    case False
    then have "unat n \<le> unat (h_nextID h)" using that st by (auto simp: in_step_def from_log_def ids_after_def)
    then show ?thesis using growsD(3) [OF g] by linarith
  qed
  then show "from_log (ids_after h1 pending es) h'" unfolding from_log_def nid using key sh unfolding shrinks_def by metis
qed

lemma resolve_samples:
  assumes "resolve_window lim m A batch = (as, A1)"
  shows "window_samples A1 = window_samples A"
proof
  fix k show "window_samples A1 k = window_samples A k"
    using resolve_window_adds [OF assms, of k] by (auto simp: window_samples_def)
qed

text \<open>A batch that is logged and applied keeps head and log in step.\<close>

lemma applied_in_step:
  assumes st: "in_step h es" and room: "unat (h_nextID h) + length batch < 2 ^ 64"
    and r: "resolve 0 (h_minValid h) batch h = ((rs, rej :: 'e Rejection list, created, dropped), h1)"
    and p: "mark_pending rs h1 = (pending, h2)"
    and a: "apply_all 0 (h_minValid h) rs h2 = ((stored, rej', dropped'), h3)"
    and f: "finish_commit (Some stored) (rej @ rej') rs created d h3 = (a, h')"
  shows "in_step h' (es @ map (\<lambda>(i, ref). Def i ref) (series_records h2 pending) @ sample_events (valid_samples rs))"
proof -
  let ?m = "h_minValid h" and ?D = "map (\<lambda>(i, ref). Def i ref) (series_records h2 pending)" and ?S = "sample_events (valid_samples rs)"
  have inv: "head_inv h" and log: "consistent Map.empty es" "\<And>k. since ?m (head_samples h k) = snd (logged ?m es) k"
    using st by (simp_all add: in_step_def)
  obtain as A1 where rw: "resolve_window (opt_MaxSeriesPerMetric (h_opts h)) ?m (contents h) batch = (as, A1)" by force
  obtain res A' where cw: "commit_window (opt_MaxSeriesPerMetric (h_opts h)) ?m (contents h) batch = (res, A')" by force
  note R = resolve_spec [OF inv room r rw]
  have h1: "head_inv h1" "grows h h1" "contents h1 = A1" "all_resolved h1 ?m batch as rs" using R by blast+
  note M = mark_pending_spec [OF h1(1) p]
  have h2: "head_inv h2" "contents h2 = contents h1" "shard_get h2 = shard_get h1" "h_minValid h2 = h_minValid h1"
    using M by (simp_all add: marked_def)
  note C = apply_commit [OF inv room r h2(1,2,3) a f cw]
  note L = definitions_logged [OF st h1(2,1) p]
  have new: "\<exists>s. (Some n, s) \<in> set rs" if n: "head_series h1 n = Some ms" "head_series h n = None" for n ms
  proof -
    let ?k = "series_Key (ms_ref ms)"
    have k: "shard_get h1 ?k = Some n" using head_invD(2) [OF h1(1) n(1)] by (rule series_entryD)
    have "shard_get h ?k = None" using growsD(5) [OF h1(2)] head_invD(3) [OF inv] k n(2) by (metis option.distinct(1) option.exhaust option.inject)
    moreover have "A1 ?k \<noteq> None" using shard_contents [OF h1(1), of ?k] k h1(3) by simp
    ultimately have "Inr ?k \<in> set as" using resolve_window_dom [OF rw] contents_free by blast
    from all_resolved_key [OF h1(4) this] k show ?thesis by auto
  qed
  have S3: "same_series h2 h3" "shrinks h3 h'" "contents h3 = contents h'" "head_inv h'" using C by simp_all
  note logged' = marked_in_step [OF st h1(2,1) p new S3(1,2)]
  have known: "hs_ID s = n \<and> (\<exists>k. shard_get h2 k = Some n \<and> ids_after h1 pending es n = Some k)" if "(Some n, s) \<in> set rs" for n s
    unfolding h2(3) by (rule resolved_known [OF st h1(2,1) p h1(4) that])
  have m': "h_minValid h' = ?m" using S3(1,2) h2(4) growsD(2) [OF h1(2)] by (simp add: shrinks_def same_series_def)
  have all: "logged m (es @ ?D @ ?S) = fold (log_step m) ?S (ids_after h1 pending es, snd (logged m es))" for m
    using L(1) [of m] by (simp add: logged_def)
  have applied: "(ids_after h1 pending es, head_samples h3) = fold (log_step ?m) ?S (ids_after h1 pending es, head_samples h)"
    using apply_all_events [where 'e = 'e and i = 0 and m = ?m and rs = rs, OF h2(1) known] a resolve_samples [OF rw] h1(3) h2(2) by simp
  have eq: "raised ?m (ids_after h1 pending es, head_samples h3) = logged ?m (es @ ?D @ ?S)"
    unfolding all applied using log_steps_since [OF order_refl, of "(ids_after h1 pending es, head_samples h)" ?m ?S]
      head_samples_increasing [OF inv] log(2) by (simp add: raised_def)
  have "since ?m (head_samples h' k) = snd (logged ?m (es @ ?D @ ?S)) k" for k
    unfolding eq [symmetric] S3(3) [symmetric] by (simp add: raised_def)
  moreover have "fst (logged lowest (es @ ?D @ ?S)) = ids_after h1 pending es" unfolding all by (simp add: fold_samples_fst)
  moreover have "consistent Map.empty (es @ ?D @ ?S)"
  proof -
    have "consistent (fst (logged lowest es)) (?D @ ?S)"
      using L(2) [of lowest] consistent_samples [of _ _ "[]"] by (simp add: consistent_append [where m = lowest and S = "\<lambda>_. []"])
    then show ?thesis using log(1) by (simp add: consistent_append [where m = lowest and S = "\<lambda>_. []"] logged_def)
  qed
  ultimately show ?thesis using S3(4) logged' by (simp add: in_step_def m')
qed

text \<open>A batch that is not applied leaves the head in step with the log as it was.\<close>

lemma unapplied_in_step:
  assumes st: "in_step h es" and g: "grows h h1" and hu: "head_inv hu" "shard_get hu = shard_get h1" "h_minValid hu = h_minValid h1"
      "h_nextID hu = h_nextID h1"
    and kept: "\<And>i ms. head_series h1 i = Some ms \<Longrightarrow> ms_logged ms \<Longrightarrow> head_series hu i = Some ms"
    and h': "shrinks hu h'" "head_inv h'" "contents h' = contents h"
  shows "in_step h' es"
proof (rule in_step_raise [OF st order_refl h'(2)])
  have inv: "head_inv h" using st by (simp add: in_step_def)
  have fields: "h_minValid h' = h_minValid h" "unat (h_nextID h) \<le> unat (h_nextID h')"
    using h'(1) hu(3,4) growsD(2,3) [OF g] by (simp_all add: shrinks_def)
  have "\<exists>ms. head_series h i = Some ms \<and> ms_ref ms' = ms_ref ms \<and> ms_logged ms' = ms_logged ms" if ms': "head_series h' i = Some ms'" for i ms'
  proof -
    obtain msu where u: "head_series hu i = Some msu" "ms_ref ms' = ms_ref msu" "ms_logged ms' = ms_logged msu"
      using h'(1) ms' unfolding shrinks_def by blast
    let ?k = "series_Key (ms_ref msu)"
    have ku: "shard_get h1 ?k = Some i" using head_invD(2) [OF hu(1) u(1)] series_entryD(3) hu(2) by metis
    have "contents h ?k \<noteq> None" using held_by_key [OF h'(2) ms'] u(2) unfolding h'(3) [symmetric] by (simp add: contents_def)
    then obtain j where "shard_get h ?k = Some j" using contents_free by (metis option.exhaust)
    then have "shard_get h ?k = Some i" using growsD(5) [OF g] ku by fastforce
    then obtain ms where ms: "head_series h i = Some ms" using head_invD(3) [OF inv] by blast
    then have "ms_logged ms" "head_series h1 i = Some ms" using st growsD(4) [OF g] by (auto simp: in_step_def all_logged_def)
    then have "msu = ms" using kept u(1) by fastforce
    with ms u show ?thesis by blast
  qed
  then show "survives h h' \<and> h_minValid h' = h_minValid h" using fields by (simp add: survives_def)
qed (simp add: h'(3))

definition logs :: "('w, 'e) Logger \<Rightarrow> bool \<Rightarrow> Record list \<Rightarrow> 'w \<Rightarrow> 'w \<Rightarrow> bool" where
  "logs lg sync recs w w' \<longleftrightarrow> (\<exists>w1. lg_Log lg recs w = (Inr (), w1) \<and> (if sync then lg_Sync lg w1 = (Inr (), w') else w' = w1))"

lemma logLocked_logs: "logLocked lg sync series samples w = (Inr (), w') \<Longrightarrow> logs lg sync (batch_records series samples) w w'"
  by (auto simp: logLocked_def logs_def split: prod.splits sum.splits if_splits)

text \<open>One append: the head stays in step with the log extended by what was logged, which is nothing
  when the batch was not applied.\<close>

lemma Append_in_step:
  assumes st: "in_step h es" and room: "unat (h_nextID h) + length samples < 2 ^ 64" and ok: "list_all ref_ok refs"
    and app: "head_Append (Some (lg :: ('w, 'e) Logger)) refs samples (h, w) = (a, (h', w'))"
  shows "in_step h' es \<and> (ap_stored a \<noteq> None \<longrightarrow> w' = w) \<or>
    (\<exists>recs es'. ap_stored a \<noteq> None \<and> logs lg (opt_SyncOnAppend (h_opts h)) recs w w' \<and> log_events recs = Some es' \<and> in_step h' (es @ es'))"
proof (cases "length refs = length samples")
  case False
  then show ?thesis using app st by (auto simp: head_Append_def)
next
  case len: True
  have inv: "head_inv h" using st by (simp add: in_step_def)
  obtain rs rej created dropped h1 where r: "resolve 0 (h_minValid h) (zip refs samples) h = ((rs, rej :: 'e Rejection list, created, dropped), h1)"
    by (metis surj_pair)
  have room': "unat (h_nextID h) + length (zip refs samples) < 2 ^ 64" using room len by simp
  obtain as A1 where rw: "resolve_window (opt_MaxSeriesPerMetric (h_opts h)) (h_minValid h) (contents h) (zip refs samples) = (as, A1)" by force
  have h1: "head_inv h1" "grows h h1" "contents h1 = A1" using resolve_spec [OF inv room' r rw] by blast+
  from app len r show ?thesis
  proof (cases rule: head_Append_cases)
    case none
    note F = finish_commit_spec [OF none(3) h1(1)]
    have "contents h' = contents h" by (rule unapplied_commit [OF inv room' r h1(1) refl refl none(3)])
    then have "in_step h' es" using unapplied_in_step [OF st h1(2,1) refl refl refl _ F(4,3)] by blast
    with none(2) show ?thesis by blast
  next
    case (failed lg' pending h2 e)
    note M = mark_pending_spec [OF h1(1) failed(3)]
    then have "head_inv h2" by blast
    note U = unmark_spec [OF this, of pending]
    let ?hu = "unmark pending h2"
    have hu: "head_inv ?hu" "contents ?hu = contents h1" "shard_get ?hu = shard_get h1" "h_minValid ?hu = h_minValid h1" "h_nextID ?hu = h_nextID h1"
      using U M by (simp_all add: marked_def)
    have kept: "head_series ?hu i = Some ms" if "head_series h1 i = Some ms" "ms_logged ms" for i ms
    proof -
      have i: "i \<notin> set pending" using M that by auto
      have "marked True pending h1 h2" "marked False pending h2 ?hu" using M U by blast+
      then show ?thesis using i that(1) by (simp add: marked_def)
    qed
    note F = finish_commit_spec [OF failed(5) hu(1)]
    have "contents h' = contents h" by (rule unapplied_commit [OF inv room' r hu(1-3) failed(5)])
    then have "in_step h' es" using unapplied_in_step [OF st h1(2) hu(1,3-5) kept F(4,3)] by blast
    with F(1) show ?thesis by simp
  next
    case (applied pending h2 stored rej' dropped' h3)
    then have p: "mark_pending rs h1 = (pending, h2)" and
      l: "logs lg (opt_SyncOnAppend (h_opts h)) (batch_records (series_records h2 pending) (valid_samples rs)) w w'"
      using logLocked_logs by auto
    have "list_all (\<lambda>(i, ref). ref_ok ref) (series_records h2 pending)"
      unfolding definitions_logged(3) [OF st h1(2,1) p] list_all_iff
    proof clarsimp
      fix n assume n: "n \<in> set pending"
      note N = pending_new [OF st h1(2,1) p n]
      then obtain ms where ms: "head_series h1 n = Some ms" by blast
      have c1: "contents h1 (series_Key (ms_ref ms)) = Some (ms_ref ms, all_samples ms)" using held_by_key [OF h1(1) ms] by (simp add: contents_def)
      have "contents h (series_Key (ms_ref ms)) = None"
      proof (rule ccontr)
        assume "contents h (series_Key (ms_ref ms)) \<noteq> None"
        then obtain j where j: "shard_get h (series_Key (ms_ref ms)) = Some j" using contents_free by (metis option.exhaust)
        then have "j = n" using growsD(5) [OF h1(2) j] head_invD(2) [OF h1(1) ms] series_entryD(3) by fastforce
        then show False using head_invD(3) [OF inv j] N(1) by auto
      qed
      then have "ms_ref ms \<in> fst ` set (zip refs samples)" using resolve_window_refs [OF rw] c1 h1(3) by simp
      then show "ref_ok (ms_ref (the (head_series h1 n)))" using ok ms by (auto simp: list_all_iff dest: set_zip_leftD)
    qed
    note ev = batch_records_events [OF this, of "valid_samples rs"]
    have "ap_stored a \<noteq> None" using applied(4) by (auto simp: finish_commit_def)
    with l ev applied_in_step [OF st room' r p applied(3,4)] show ?thesis by blast
  qed
qed

section \<open>Checkpoints\<close>

lemma dropped_events:
  assumes "record_events r = Some es" "\<not> keepForCheckpoint m0 r" "sint m0 \<le> sint m"
  shows "fold (log_step m) es BS = BS \<and> (\<forall>B es'. consistent B (es @ es') = consistent B es')"
proof (cases "rec_Type r = RecordSamples")
  case True
  then obtain ss where ss: "decodeSamples (rec_Data r) = Inr ss" "es = sample_events ss"
    using assms(1) by (auto simp: record_events_def split: sum.splits)
  have "\<not> list_ex (\<lambda>s. sint m0 \<le> sint (hs_T s)) ss" using assms(2) True ss(1) by (simp add: keepForCheckpoint_def)
  then have old: "sint (hs_T s) < sint m" if "s \<in> set ss" for s using that assms(3) by (force simp: list_ex_iff)
  have "fold (log_step m) (sample_events ss) BS = BS"
    using old
  proof (induction ss arbitrary: BS)
    case (Cons s ss)
    have s: "sint (hs_T s) < sint m" by (rule Cons.prems) simp
    then have "log_step m (Smp (hs_ID s) (hs_T s) (hs_V s)) BS = BS"
      by (cases BS) (auto simp: put_sample_def abs_append_def split: option.splits)
    then show ?case using Cons by simp
  qed simp
  then show ?thesis by (simp add: ss(2))
next
  case False
  then have "es = []" using assms(1,2) by (auto simp: record_events_def keepForCheckpoint_def split: if_splits)
  then show ?thesis by simp
qed

text \<open>A checkpoint drops only what a head with its bound refuses.\<close>

lemma checkpoint_events:
  assumes "sint m0 \<le> sint m"
  shows "log_events L = Some es \<Longrightarrow> \<exists>es'. log_events (filter (keepForCheckpoint m0) L) = Some es' \<and>
    (\<forall>BS. fold (log_step m) es' BS = fold (log_step m) es BS) \<and> (\<forall>B es2. consistent B (es' @ es2) = consistent B (es @ es2))"
proof (induction L arbitrary: es)
  case (Cons r L)
  obtain e1 es1 where e: "record_events r = Some e1" "log_events L = Some es1" "es = e1 @ es1"
    using Cons.prems by (auto split: option.splits)
  obtain es' where es': "log_events (filter (keepForCheckpoint m0) L) = Some es'" "\<forall>BS. fold (log_step m) es' BS = fold (log_step m) es1 BS"
    "\<forall>B es2. consistent B (es' @ es2) = consistent B (es1 @ es2)" using Cons.IH [OF e(2)] by blast
  show ?case
  proof (cases "keepForCheckpoint m0 r")
    case True
    have "consistent B ((e1 @ es') @ es2) = consistent B (es @ es2)" for B es2
      unfolding e(3) append_assoc consistent_append [of B e1, where m = m and S = "\<lambda>_. []"] using es'(3) by blast
    moreover have "fold (log_step m) (e1 @ es') BS = fold (log_step m) es BS" for BS
      unfolding e(3) fold_append comp_apply using es'(2) by blast
    moreover have "log_events (filter (keepForCheckpoint m0) (r # L)) = Some (e1 @ es')" using True e(1) es'(1) by simp
    ultimately show ?thesis by blast
  next
    case False
    note D = dropped_events [OF e(1) False assms]
    show ?thesis using False es' D by (intro exI [of _ es']) (simp add: e(3))
  qed
qed simp

lemma checkpoint_in_step:
  assumes "log_events (old @ new) = Some es" "in_step h es" "sint m0 \<le> sint (h_minValid h)"
  shows "\<exists>es'. log_events (filter (keepForCheckpoint m0) old @ new) = Some es' \<and> in_step h es'"
proof -
  obtain e1 e2 where e: "log_events old = Some e1" "log_events new = Some e2" "es = e1 @ e2"
    using assms(1) by (auto simp: log_events_append split: option.splits)
  obtain e1' where e1': "log_events (filter (keepForCheckpoint m0) old) = Some e1'"
    "\<forall>BS. fold (log_step (h_minValid h)) e1' BS = fold (log_step (h_minValid h)) e1 BS" "\<forall>B es2. consistent B (e1' @ es2) = consistent B (e1 @ es2)"
    using checkpoint_events [OF assms(3) e(1)] by blast
  have l: "logged (h_minValid h) (e1' @ e2) = logged (h_minValid h) es" using e1'(2) by (simp add: logged_def e(3))
  then have "fst (logged lowest (e1' @ e2)) = fst (logged lowest es)" by (metis logged_fst)
  then have "in_step h (e1' @ e2)" using assms(2) l e1'(3) unfolding in_step_def e(3) by simp
  then show ?thesis using e1'(1) e(2) by (simp add: log_events_append)
qed

section \<open>Restarts\<close>

lemma Truncate_New:
  assumes "reorders ord"
  shows "snd (head_Truncate ord m (head_New hash opts)) = (head_New hash opts)\<lparr>h_minValid := m\<rparr>"
proof -
  have "ord [] = []" using reordersD [OF assms, of "[]"] by simp
  then show ?thesis by (simp add: head_Truncate_def head_New_def)
qed

text \<open>Replaying the log into an empty head with the same bound gives the samples from the bound on.\<close>

lemma replay_in_step:
  assumes st: "in_step h es" and L: "log_events L = Some es" and "reorders ord"
  shows "\<exists>c h'. replay_records (h_minValid h) [] L (0, 0) (snd (head_Truncate ord (h_minValid h) (head_New hash opts))) = (Inr c, h') \<and>
    in_step h' es \<and> h_minValid h' = h_minValid h \<and> (\<forall>k. head_samples h' k = since (h_minValid h) (head_samples h k))"
proof -
  let ?m = "h_minValid h"
  define h0 where "h0 = (head_New hash opts)\<lparr>h_minValid := ?m\<rparr>"
  have none: "head_series h0 = Map.empty" by (auto simp: h0_def head_New_def head_series_def)
  have h0: "head_inv h0" "contents h0 = Map.empty" "h_minValid h0 = ?m" using New_inv by (simp_all add: h0_def)
  have s0: "head_samples h0 = (\<lambda>_. [])" by (simp add: fun_eq_iff h0(2) window_samples_def)
  have log0: "by_log Map.empty [] h0" "from_log Map.empty h0" "all_logged h0"
    by (simp_all add: by_log_def from_log_def all_logged_def none)
  have con: "consistent Map.empty es" using st by (simp add: in_step_def)
  obtain c h' where r: "replay_records ?m [] L (0, 0) h0 = (Inr c, h')" "head_inv h'" "all_logged h'"
    "from_log (fst (logged ?m es)) h'" "head_samples h' = snd (logged ?m es)" "h_minValid h' = ?m"
    using replay_records_spec [OF h0(1) log0 L con, of ?m "(0, 0)"] unfolding s0 logged_def [symmetric] h0(3) by blast
  have "snd (logged ?m es) k = since ?m (head_samples h k)" for k using st by (simp add: in_step_def)
  then have sm: "head_samples h' k = since ?m (head_samples h k)" for k using r(5) by simp
  have "since ?m (snd (logged ?m es) k) = snd (logged ?m es) k" for k by (rule logged_raise [OF order_refl, symmetric])
  moreover have "from_log (fst (logged lowest es)) h'" using r(4) unfolding logged_fst [of ?m] .
  ultimately have "in_step h' es" unfolding in_step_def r(5,6) using r(2,3) con by blast
  with r(1,6) sm show ?thesis unfolding Truncate_New [OF assms(3)] h0_def [symmetric] by blast
qed

end
