(* ===== verification/Head_Properties.thy ===== *)
theory Head_Properties
  imports Head_Durability Wal_Properties
begin

text \<open>
  What the head promises: batches are answered and stored as the window says, queries return what is
  stored, the series limit holds, and whatever was acknowledged is read back from the log, also from
  the files of the write-ahead log.
\<close>

section \<open>The log a head needs\<close>

locale head_log =
  fixes lg :: "('w, 'e) Logger"
    and holds :: "'w \<Rightarrow> Record list \<Rightarrow> bool"
    and ready :: "'w \<Rightarrow> bool"
  assumes Log_holds: "holds w L \<Longrightarrow> ready w \<Longrightarrow> lg_Log lg recs w = (Inr (), w') \<Longrightarrow> holds w' (L @ recs)"
    and Sync_holds: "holds w L \<Longrightarrow> lg_Sync lg w = (res, w') \<Longrightarrow> holds w' L"
begin

lemma logs_holds:
  assumes "holds w L" "ready w" "logs lg sync recs w w'"
  shows "holds w' (L @ recs)"
  using assms Log_holds Sync_holds unfolding logs_def by (metis (full_types))

lemma append_holds:
  assumes "holds w L" "ready w" "log_events L = Some es" "in_step h es" "unat (h_nextID h) + length samples < 2 ^ 64" "list_all ref_ok refs"
    and "head_Append (Some lg) refs samples (h, w) = (a, (h', w'))" "ap_stored a \<noteq> None"
  shows "\<exists>L' es'. holds w' L' \<and> log_events L' = Some es' \<and> in_step h' es'"
proof -
  consider "in_step h' es" "w' = w" | recs es' where "logs lg (opt_SyncOnAppend (h_opts h)) recs w w'" "log_events recs = Some es'" "in_step h' (es @ es')"
    using Append_in_step [OF assms(4-7)] assms(8) by blast
  then show ?thesis
  proof cases
    case 1
    with assms(1,3) show ?thesis by blast
  next
    case 2
    then have "holds w' (L @ recs)" using logs_holds assms(1,2) by blast
    moreover have "log_events (L @ recs) = Some (es @ es')" using assms(3) 2(2) by (simp add: log_events_append)
    ultimately show ?thesis using 2(3) by blast
  qed
qed

end

text \<open>The plain list of records, whose writes may be refused, and the write-ahead log.\<close>

definition list_logger :: "bool \<Rightarrow> (Record list, unit) Logger" where
  "list_logger ok = \<lparr>lg_Log = (\<lambda>recs L. if ok then (Inr (), L @ recs) else (Inl (), L)), lg_Sync = (\<lambda>L. (Inr (), L))\<rparr>"

definition wal_logger :: "(WAL \<times> os, wal_error) Logger" where
  "wal_logger = \<lparr>lg_Log = Log, lg_Sync = Sync\<rparr>"

interpretation ll: head_log "list_logger ok" "(=)" "\<lambda>_. True"
  by unfold_locales (auto simp: list_logger_def split: if_splits)

interpretation wl: head_log wal_logger "\<lambda>ws L. wal_inv (fst ws) (snd ws) L" "\<lambda>ws. num_ok (last (segs (os_files (snd ws))) + 1)"
proof
  fix ws L recs and ws' :: "WAL \<times> os"
  assume a: "wal_inv (fst ws) (snd ws) L" "num_ok (last (segs (os_files (snd ws))) + 1)" "lg_Log wal_logger recs ws = (Inr (), ws')"
  then have "Log recs (fst ws, snd ws) = (Inr (), (fst ws', snd ws'))" by (simp add: wal_logger_def)
  from Log_inv [OF a(1,2) this] show "wal_inv (fst ws') (snd ws') (L @ recs)" by auto
next
  fix ws L res and ws' :: "WAL \<times> os"
  assume a: "wal_inv (fst ws) (snd ws) L" "lg_Sync wal_logger ws = (res, ws')"
  then have "Sync (fst ws, snd ws) = (res, (fst ws', snd ws'))" by (simp add: wal_logger_def)
  from Sync_inv [OF a(1) this] show "wal_inv (fst ws') (snd ws') L" .
qed

section \<open>Histories\<close>

text \<open>A life of a head and the records of its log: batches, with the log accepting or refusing them,
  block cuts, checkpoints of the older part of the log, and restarts from the log.\<close>

inductive head_history :: "Head \<Rightarrow> Record list \<Rightarrow> bool" where
  started: "head_history (head_New hash opts) []"
| appended: "head_history h' L'"
    if "head_history h L" and "unat (h_nextID h) + length samples < 2 ^ 64" and "list_all ref_ok refs"
      and "head_Append (Some (list_logger ok)) refs samples (h, L) = (a, (h', L'))"
| frozen: "head_history (Freeze m h) L" if "head_history h L"
| truncated: "head_history h' L"
    if "head_history h L" and "sint m mod sint (h_range h) = 0" and "sint (h_minValid h) \<le> sint m" and "reorders ord"
      and "head_Truncate ord m h = (n, h')"
| checkpointed: "head_history h (filter (keepForCheckpoint m) old @ new)"
    if "head_history h (old @ new)" and "sint m \<le> sint (h_minValid h)"
| restarted: "head_history h' L"
    if "head_history h L" and "reorders ord"
      and "replay_records (h_minValid h) [] L (0, 0) (snd (head_Truncate ord (h_minValid h) (head_New hash opts))) = (Inr c, h')"

lemma refused_unlogged:
  assumes app: "head_Append (Some (list_logger ok)) refs samples (h, L) = (a, (h', L'))" and st: "ap_stored a = None"
  shows "L' = L"
proof (cases "length refs = length samples")
  case False
  then show ?thesis using app by (auto simp: head_Append_def)
next
  case len: True
  obtain rs rej created dropped h1 where r: "resolve 0 (h_minValid h) (zip refs samples) h = ((rs, rej :: unit Rejection list, created, dropped), h1)"
    by (metis surj_pair)
  from app len r show ?thesis
  proof (cases rule: head_Append_cases)
    case (failed lg pending h2 e)
    then show ?thesis by (auto simp: logLocked_def list_logger_def split: if_splits)
  next
    case (applied pending h2 stored rej' dropped' h3)
    then show ?thesis using st by (auto simp: finish_commit_def)
  qed
qed

lemma history_in_step: "head_history h L \<Longrightarrow> \<exists>es. log_events L = Some es \<and> in_step h es"
proof (induction rule: head_history.induct)
  case (started hash opts)
  have none: "head_series (head_New hash opts) = Map.empty" by (auto simp: head_New_def head_series_def)
  have "in_step (head_New hash opts) []"
    using New_inv by (simp add: in_step_def all_logged_def from_log_def none logged_def window_samples_def)
  then show ?case by simp
next
  case (appended h L samples refs ok a h' L')
  then obtain es where es: "log_events L = Some es" "in_step h es" by blast
  show ?case
  proof (cases "ap_stored a = None")
    case False
    then show ?thesis using ll.append_holds [OF refl _ es appended.hyps(2-4)] by blast
  next
    case True
    have "in_step h' es" using Append_in_step [OF es(2) appended.hyps(2-4)] True by blast
    moreover have "L' = L" by (rule refused_unlogged [OF appended.hyps(4) True])
    ultimately show ?thesis using es(1) by blast
  qed
next
  case (frozen h L m)
  then show ?case using Freeze_in_step by blast
next
  case (truncated h L m ord n h')
  then obtain es where es: "log_events L = Some es" "in_step h es" by blast
  from Truncate_in_step [OF es(2) truncated.hyps(2,4,3,5)] es(1) show ?case by blast
next
  case (checkpointed h old new m)
  then obtain es where "log_events (old @ new) = Some es" "in_step h es" by blast
  from checkpoint_in_step [OF this checkpointed.hyps(2)] show ?case .
next
  case (restarted h L ord hash opts c h')
  then obtain es where es: "log_events L = Some es" "in_step h es" by blast
  from replay_in_step [OF es(2,1) restarted.hyps(2), of hash opts] restarted.hyps(3) es(1) show ?case by auto
qed

lemma Append_keeps:
  assumes inv: "head_inv h" and room: "unat (h_nextID h) + length samples < 2 ^ 64"
    and app: "head_Append (wal :: ('w, 'e) Logger option) refs samples (h, w) = (a, (h', w'))"
  shows "h_minValid h' = h_minValid h \<and> h_opts h' = h_opts h"
proof (cases "length refs = length samples")
  case False
  then show ?thesis using app by (auto simp: head_Append_def)
next
  case len: True
  obtain rs rej created dropped h1 where r: "resolve 0 (h_minValid h) (zip refs samples) h = ((rs, rej :: 'e Rejection list, created, dropped), h1)"
    by (metis surj_pair)
  have room': "unat (h_nextID h) + length (zip refs samples) < 2 ^ 64" using room len by simp
  obtain as A1 where rw: "resolve_window (opt_MaxSeriesPerMetric (h_opts h)) (h_minValid h) (contents h) (zip refs samples) = (as, A1)" by force
  have h1: "head_inv h1" "grows h h1" "all_resolved h1 (h_minValid h) (zip refs samples) as rs" using resolve_spec [OF inv room' r rw] by blast+
  have m1: "h_minValid h1 = h_minValid h" "h_opts h1 = h_opts h" using growsD(1,2) [OF h1(2)] by blast+
  from app len r show ?thesis
  proof (cases rule: head_Append_cases)
    case none
    then show ?thesis using finish_commit_spec(4) [OF none(3) h1(1)] m1 by (simp add: shrinks_def)
  next
    case (failed lg pending h2 e)
    have "head_inv h2" "marked True pending h1 h2" using mark_pending_spec [OF h1(1) failed(3)] by blast+
    then show ?thesis using unmark_spec [of h2 pending] finish_commit_spec(4) [OF failed(5)] m1 by (simp add: shrinks_def marked_def)
  next
    case (applied pending h2 stored rej' dropped' h3)
    have h2: "head_inv h2" "shard_get h2 = shard_get h1" "h_minValid h2 = h_minValid h1" "h_opts h2 = h_opts h1"
      using applied(2) h1(1) mark_pending_spec [OF h1(1), of rs pending h2] by (auto simp: marked_def split: option.splits)
    have "all_resolved h2 (h_minValid h) (zip refs samples) as rs" using h1(3) all_resolved_cong [OF h2(2)] by blast
    from apply_all_spec [OF h2(1) this applied(3)] have "head_inv h3" "same_series h2 h3" by (metis surj_pair)+
    then show ?thesis using finish_commit_spec(4) [OF applied(4)] h2 m1 by (simp add: shrinks_def same_series_def)
  qed
qed

lemma history_inv: "head_history h L \<Longrightarrow> head_inv h"
  using history_in_step by (auto simp: in_step_def)

section \<open>An example\<close>

lemma accepted:
  assumes app: "head_Append (Some (list_logger True)) refs samples (h, L) = (a, (h', L'))" and len: "length refs = length samples"
  shows "ap_stored a \<noteq> None"
proof -
  obtain rs rej created dropped h1 where r: "resolve 0 (h_minValid h) (zip refs samples) h = ((rs, rej :: unit Rejection list, created, dropped), h1)"
    by (metis surj_pair)
  from app len r show ?thesis
  proof (cases rule: head_Append_cases)
    case (failed lg pending h2 e)
    then show ?thesis by (auto simp: logLocked_def list_logger_def split: if_splits)
  qed (auto simp: finish_commit_def)
qed

definition example_ref :: SeriesRef where
  "example_ref = \<lparr>ref_Metric = ''cpu'', ref_Tags = []\<rparr>"

definition example_refs :: "SeriesRef list" where
  "example_refs = [example_ref, example_ref, example_ref, example_ref]"

definition example_batch :: "hSample list" where
  "example_batch = [\<lparr>hs_ID = 0, hs_T = 5, hs_V = 1\<rparr>, \<lparr>hs_ID = 0, hs_T = 12, hs_V = 2\<rparr>, \<lparr>hs_ID = 0, hs_T = 12, hs_V = 2\<rparr>, \<lparr>hs_ID = 0, hs_T = 7, hs_V = 3\<rparr>]"

definition example_head :: Head where
  "example_head = head_New (\<lambda>_. 0) \<lparr>opt_BlockRange = 10, opt_MaxSeriesPerMetric = 1, opt_SyncOnAppend = False\<rparr>"

lemma example_commit:
  "commit_window 1 (- (2 ^ 63)) Map.empty (zip example_refs example_batch) =
    ([Inr True, Inr True, Inr False, Inl ErrOutOfOrder], [series_Key example_ref \<mapsto> (example_ref, [(5, 1), (12, 2)])])"
proof -
  have "metric_keys Map.empty m = {}" for m by (simp add: metric_keys_def)
  then show ?thesis
    by (simp add: commit_window_def example_refs_def example_batch_def admit_def window_put_def abs_append_def f64_eq_def f64_is_nan_def
        f64_exponent_def f64_mantissa_def)
qed

lemma example_appended:
  assumes app: "head_Append (Some (list_logger True)) example_refs example_batch (example_head, []) = (a, (h, L))"
  shows "head_history h L \<and> ap_stored a = Some [True, True, False, False] \<and> ap_rejected a = [(3, Refused ErrOutOfOrder)] \<and>
    contents h = [series_Key example_ref \<mapsto> (example_ref, [(5, 1), (12, 2)])] \<and> h_minValid h = - (2 ^ 63)"
proof -
  have inv: "head_inv example_head" "contents example_head = Map.empty" by (simp_all add: example_head_def New_inv)
  have f: "opt_MaxSeriesPerMetric (h_opts example_head) = 1" "h_minValid example_head = - (2 ^ 63)" "h_nextID example_head = 0"
    by (simp_all add: example_head_def head_New_def)
  have room: "unat (h_nextID example_head) + length example_batch < 2 ^ 64" by (simp add: f example_batch_def)
  have len: "length example_refs = length example_batch" by (simp add: example_refs_def example_batch_def)
  have ok: "list_all ref_ok example_refs" by (simp add: example_refs_def example_ref_def ref_ok_def str_ok_def)
  have "commit_window (opt_MaxSeriesPerMetric (h_opts example_head)) (h_minValid example_head) (contents example_head)
      (zip example_refs example_batch) =
    ([Inr True, Inr True, Inr False, Inl ErrOutOfOrder], [series_Key example_ref \<mapsto> (example_ref, [(5, 1), (12, 2)])])"
    unfolding f inv(2) by (rule example_commit)
  from Append_success [OF inv(1) room app accepted [OF app len] this]
  have "ap_stored a = Some [True, True, False, False] \<and> ap_rejected a = [(3, Refused ErrOutOfOrder)] \<and>
    contents h = [series_Key example_ref \<mapsto> (example_ref, [(5, 1), (12, 2)])]" by simp
  moreover have "head_history h L" using appended [OF _ room ok app] started unfolding example_head_def by blast
  moreover have "h_minValid h = - (2 ^ 63)" using Append_keeps [OF inv(1) room app] f(2) by simp
  ultimately show ?thesis by blast
qed

section \<open>Properties\<close>



text \<open>C7: A batch does to the head what it does to a plain window of series. Each sample, in the order
  of the batch, is refused when it is before the bound, when its metric has as many series as it may
  have or when it is out of order, accepted without effect when the series holds it, and stored
  otherwise; the stored flags and the rejections, in index order, say exactly this. When the log does
  not take the batch, the window is what it was and the rejections carry the failure.\<close>

theorem Append_refines:
  assumes "head_history h L" and "unat (h_nextID h) + length samples < 2 ^ 64"
    and "head_Append wal refs samples (h, w) = (a, (h', w'))"
  shows "head_inv h' \<and>
    (case ap_stored a of
       None \<Rightarrow> contents h' = contents h \<and> (\<exists>e. (- 1, e) \<in> set (ap_rejected a))
     | Some stored \<Rightarrow>
         (\<exists>res. commit_window (opt_MaxSeriesPerMetric (h_opts h)) (h_minValid h) (contents h) (zip refs samples) = (res, contents h') \<and>
            stored = map (\<lambda>r. r = Inr True) res \<and> ap_rejected a = rejections 0 res))"
proof (cases "ap_stored a")
  case None
  then show ?thesis using Append_failure [OF history_inv [OF assms(1)] assms(2,3)] by simp
next
  case (Some stored)
  obtain res A' where "commit_window (opt_MaxSeriesPerMetric (h_opts h)) (h_minValid h) (contents h) (zip refs samples) = (res, A')" by force
  with Append_success [OF history_inv [OF assms(1)] assms(2,3) _ this] Some show ?thesis by auto
qed

theorem Append_refines_witness:
  "\<exists>a h L. head_Append (Some (list_logger True)) example_refs example_batch (example_head, []) = (a, (h, L)) \<and>
    ap_stored a = Some [True, True, False, False] \<and> ap_rejected a = [(3, Refused ErrOutOfOrder)] \<and>
    contents h = [series_Key example_ref \<mapsto> (example_ref, [(5, 1), (12, 2)])]"
proof -
  obtain a h L where app: "head_Append (Some (list_logger True)) example_refs example_batch (example_head, []) = (a, (h, L))" by (metis surj_pair)
  have hist: "head_history example_head []" unfolding example_head_def by (rule started)
  have f: "h_nextID example_head = 0" "opt_MaxSeriesPerMetric (h_opts example_head) = 1" "h_minValid example_head = - (2 ^ 63)"
    "contents example_head = Map.empty" by (simp_all add: example_head_def New_inv) (simp_all add: head_New_def)
  have room: "unat (h_nextID example_head) + length example_batch < 2 ^ 64" by (simp add: f example_batch_def)
  have "length example_refs = length example_batch" by (simp add: example_refs_def example_batch_def)
  then obtain stored where "ap_stored a = Some stored" using accepted [OF app] by blast
  with Append_refines [OF hist room app, unfolded f example_commit] app show ?thesis by auto
qed

text \<open>C38: Every batch fits the log. However many samples a batch has, each of its sample records is one
  the log accepts, and together they decode to exactly the samples of the batch, in order.\<close>

theorem batch_fits_log:
  "log_check (sample_records ss) n = Inr (n + length (frames (sample_records ss))) \<and>
   log_events (sample_records ss) = Some (map (\<lambda>s. Smp (hs_ID s) (hs_T s) (hs_V s)) ss)"
proof -
  have "list_all rec_ok rs \<Longrightarrow> log_check rs n = Inr (n + length (frames rs))" for rs n
    by (induction rs arbitrary: n) (auto simp: rec_ok_def)
  then show ?thesis using sample_records_spec by blast
qed

end
