(* ===== verification/Head_Query.thy ===== *)
theory Head_Query
  imports Head_Properties
begin

text \<open>
  Queries of the head (\<open>Select\<close> and \<open>SeriesOf\<close> in \<open>internal/tsdb/head/head.go\<close>) against the window, and
  the limit on the series of a metric.
\<close>

section \<open>Selecting\<close>

abbreviation between :: "i64 \<Rightarrow> i64 \<Rightarrow> Sample list \<Rightarrow> Sample list" where
  "between from to xs \<equiv> filter (\<lambda>(t, v). sint from \<le> sint t \<and> sint t \<le> sint to) xs"

text \<open>What a query returns: by key, the series that match and have samples in the range.\<close>

definition window_keys :: "window \<Rightarrow> Selector \<Rightarrow> i64 \<Rightarrow> i64 \<Rightarrow> string set" where
  "window_keys A sel from to = {k. \<exists>ref xs. A k = Some (ref, xs) \<and> selects sel ref \<and> between from to xs \<noteq> []}"

definition window_entry :: "window \<Rightarrow> i64 \<Rightarrow> i64 \<Rightarrow> string \<Rightarrow> SeriesSamples" where
  "window_entry A from to k = \<lparr>ss_Series = fst (the (A k)), ss_Samples = between from to (snd (the (A k)))\<rparr>"

definition window_Select :: "window \<Rightarrow> Selector \<Rightarrow> i64 \<Rightarrow> i64 \<Rightarrow> SeriesSamples list" where
  "window_Select A sel from to = map (window_entry A from to) (sorted_list_of_set (window_keys A sel from to))"

definition series_result :: "Head \<Rightarrow> i64 \<Rightarrow> i64 \<Rightarrow> u64 \<Rightarrow> SeriesSamples option" where
  "series_result h from to i =
     (case head_series h i of
        None \<Rightarrow> None
      | Some ms \<Rightarrow> (let xs = between from to (all_samples ms) in if xs = [] then None else Some \<lparr>ss_Series = ms_ref ms, ss_Samples = xs\<rparr>))"

lemma select_series_results:
  assumes "head_inv h"
  shows "select_series h from to is = Inr (List.map_filter (series_result h from to) is)"
proof (induction "is")
  case (Cons i "is")
  show ?case
  proof (cases "head_series h i")
    case (Some ms)
    have "stores (h_range h) ms (all_samples ms)" using head_invD(2) [OF assms Some] by (rule series_entryD)
    then have "samplesIn ms from to = Inr (between from to (all_samples ms))" by (rule samplesIn_stores)
    with Cons Some show ?thesis by (simp add: series_result_def List.map_filter_simps Let_def)
  qed (use Cons in \<open>simp add: series_result_def List.map_filter_simps\<close>)
qed (simp add: List.map_filter_simps)

lemma result_entry:
  assumes "head_inv h" "series_result h from to i = Some r"
  shows "\<exists>ms. head_series h i = Some ms \<and> r = window_entry (contents h) from to (series_Key (ms_ref ms)) \<and>
    series_Key (ss_Series r) = series_Key (ms_ref ms) \<and> between from to (all_samples ms) \<noteq> []"
proof -
  obtain ms where ms: "head_series h i = Some ms" "r = \<lparr>ss_Series = ms_ref ms, ss_Samples = between from to (all_samples ms)\<rparr>"
    "between from to (all_samples ms) \<noteq> []"
    using assms(2) by (auto simp: series_result_def Let_def split: option.splits if_splits)
  have "contents h (series_Key (ms_ref ms)) = Some (ms_ref ms, all_samples ms)" using held_by_key [OF assms(1) ms(1)] by (simp add: contents_def)
  with ms show ?thesis by (simp add: window_entry_def)
qed

lemma set_map_filter: "set (List.map_filter f xs) = {y. \<exists>x \<in> set xs. f x = Some y}"
  by (induction xs) (auto simp: List.map_filter_simps split: option.splits)

lemma finite_window_keys: "head_inv h \<Longrightarrow> finite (window_keys (contents h) sel from to)"
  by (rule finite_subset [OF _ finite_held]) (auto simp: window_keys_def contents_def)

lemma results_set:
  assumes "head_inv h" "set is = {i. \<exists>ref. head_Series h i = Some ref \<and> selects sel ref}"
  shows "set (List.map_filter (series_result h from to) is) = window_entry (contents h) from to ` window_keys (contents h) sel from to"
proof (intro equalityI subsetI)
  fix r assume "r \<in> set (List.map_filter (series_result h from to) is)"
  then obtain i where i: "i \<in> set is" "series_result h from to i = Some r" by (auto simp: set_map_filter)
  obtain ms where ms: "head_series h i = Some ms" "r = window_entry (contents h) from to (series_Key (ms_ref ms))"
    "between from to (all_samples ms) \<noteq> []" using result_entry [OF assms(1) i(2)] by blast
  moreover have "selects sel (ms_ref ms)" using i(1) ms(1) assms(2) by (auto simp: head_Series_def)
  moreover have "contents h (series_Key (ms_ref ms)) = Some (ms_ref ms, all_samples ms)" using held_by_key [OF assms(1) ms(1)] by (simp add: contents_def)
  ultimately show "r \<in> window_entry (contents h) from to ` window_keys (contents h) sel from to" unfolding window_keys_def by blast
next
  fix r assume "r \<in> window_entry (contents h) from to ` window_keys (contents h) sel from to"
  then obtain k ref xs where k: "r = window_entry (contents h) from to k" "contents h k = Some (ref, xs)" "selects sel ref" "between from to xs \<noteq> []"
    by (auto simp: window_keys_def)
  then obtain i ms where ms: "head_series h i = Some ms" "ms_ref ms = ref" "all_samples ms = xs" using contents_Some [OF assms(1)] by blast
  then have "series_result h from to i = Some r" using k by (simp add: series_result_def window_entry_def)
  moreover have "i \<in> set is" using ms k(3) assms(2) by (auto simp: head_Series_def)
  ultimately show "r \<in> set (List.map_filter (series_result h from to) is)" by (auto simp: set_map_filter)
qed

lemma results_distinct:
  assumes "head_inv h"
  shows "distinct is \<Longrightarrow> distinct (map (\<lambda>r. series_Key (ss_Series r)) (List.map_filter (series_result h from to) is))"
proof (induction "is")
  case (Cons i "is")
  show ?case
  proof (cases "series_result h from to i")
    case None
    then show ?thesis using Cons by (simp add: List.map_filter_simps)
  next
    case (Some r)
    obtain ms where ms: "head_series h i = Some ms" "series_Key (ss_Series r) = series_Key (ms_ref ms)" using result_entry [OF assms Some] by blast
    have "series_Key (ss_Series r') \<noteq> series_Key (ss_Series r)" if r': "r' \<in> set (List.map_filter (series_result h from to) is)" for r'
    proof
      assume eq: "series_Key (ss_Series r') = series_Key (ss_Series r)"
      obtain j where j: "j \<in> set is" "series_result h from to j = Some r'" using r' by (auto simp: set_map_filter)
      then obtain ms' where ms': "head_series h j = Some ms'" "series_Key (ss_Series r') = series_Key (ms_ref ms')" using result_entry [OF assms] by blast
      then have "i = j" using key_inj [OF assms ms(1) ms'(1)] ms(2) eq by simp
      with j(1) Cons.prems show False by simp
    qed
    then show ?thesis using Cons Some by (force simp: List.map_filter_simps)
  qed
qed (simp add: List.map_filter_simps)

lemma entry_key:
  assumes "head_inv h" "k \<in> window_keys (contents h) sel from to"
  shows "series_Key (ss_Series (window_entry (contents h) from to k)) = k"
proof -
  obtain ref xs where "contents h k = Some (ref, xs)" using assms(2) by (auto simp: window_keys_def)
  then show ?thesis using contents_Some [OF assms(1), of k ref xs] by (auto simp: window_entry_def)
qed

lemma Select_window:
  assumes inv: "head_inv h" and ord: "reorders ord" and sel: "plain_selector sel" and tags: "\<forall>k ref xs. contents h k = Some (ref, xs) \<longrightarrow> no_pseudo ref"
  shows "head_Select ord h sel from to = Inr (window_Select (contents h) sel from to)"
proof -
  let ?ids = "index_Select (mem_Lookup ord (h_postings h)) sel" and ?key = "\<lambda>r. series_Key (ss_Series r)"
  let ?rs = "List.map_filter (series_result h from to) ?ids" and ?W = "window_Select (contents h) sel from to"
  have "\<forall>i ref. head_Series h i = Some ref \<longrightarrow> no_pseudo ref"
    using tags contents_Some [OF inv] by (fastforce simp: head_Series_def)
  note s = mp.Select_those [of "(ord, h_postings h, head_Series h)" sel, simplified, OF conjI [OF ord head_invD(4) [OF inv]] sel this]
  have ids: "distinct ?ids" using s(1) by (simp add: strict_sorted_iff)
  have K: "finite (window_keys (contents h) sel from to)" by (rule finite_window_keys [OF inv])
  have "set ?rs = set ?W" using results_set [OF inv s(2)] K by (simp add: window_Select_def)
  moreover have "map ?key ?W = sorted_list_of_set (window_keys (contents h) sel from to)"
    unfolding window_Select_def map_map comp_def using entry_key [OF inv] K by (intro map_idI) simp
  then have W: "sorted (map ?key ?W)" "distinct (map ?key ?W)" by simp_all
  moreover have "distinct (map ?key ?rs)" by (rule results_distinct [OF inv ids])
  ultimately have "sort_key ?key ?rs = ?W"
    by (intro map_sorted_distinct_set_unique [where f = ?key]) (simp_all add: distinct_map)
  then show ?thesis by (simp add: head_Select_def select_series_results [OF inv])
qed

lemma SeriesOf_window:
  assumes inv: "head_inv h" and tags: "\<forall>k ref xs. contents h k = Some (ref, xs) \<longrightarrow> no_pseudo ref"
  shows "set (SeriesOf h metric) = {ref. \<exists>k xs. contents h k = Some (ref, xs) \<and> ref_Metric ref = metric \<and> xs \<noteq> []}"
proof -
  have carries: "carries (ms_ref ms) MetricName metric \<longleftrightarrow> ref_Metric (ms_ref ms) = metric" if "head_series h i = Some ms" for i ms
  proof -
    have "no_pseudo (ms_ref ms)" using tags contents_Some [OF inv] that by blast
    then show ?thesis by (auto simp: carries_def no_pseudo_def list_all_iff)
  qed
  have "set (postings_Postings (h_postings h) MetricName metric) = {i. \<exists>ref. head_Series h i = Some ref \<and> carries ref MetricName metric}"
    using head_invD(4) [OF inv] by (simp add: indexes_def)
  then have ids: "i \<in> set (postings_Postings (h_postings h) MetricName metric) \<longleftrightarrow> (\<exists>ms. head_series h i = Some ms \<and> ref_Metric (ms_ref ms) = metric)" for i
    using carries by (auto simp: head_Series_def)
  have mem: "ref \<in> set (SeriesOf h metric) \<longleftrightarrow>
      (\<exists>i ms. head_series h i = Some ms \<and> ms_ref ms = ref \<and> ref_Metric ref = metric \<and> all_samples ms \<noteq> [])" for ref
  proof -
    have "(case head_series h i of None \<Rightarrow> None | Some ms \<Rightarrow> if ms_chunks ms = [] then None else Some (ms_ref ms)) = Some ref \<longleftrightarrow>
        (\<exists>ms. head_series h i = Some ms \<and> ms_ref ms = ref \<and> all_samples ms \<noteq> [])" for i
      using empty_chunks [OF inv, of i] by (cases "head_series h i") auto
    then show ?thesis unfolding SeriesOf_def set_map_filter using ids by auto blast+
  qed
  have "ref \<in> set (SeriesOf h metric) \<longleftrightarrow> (\<exists>k xs. contents h k = Some (ref, xs) \<and> ref_Metric ref = metric \<and> xs \<noteq> [])" for ref
    unfolding mem contents_Some [OF inv] by blast
  then show ?thesis by blast
qed

section \<open>The series limit\<close>

lemma metric_keys_cong: "(\<And>k. map_option fst (A' k) = map_option fst (A k)) \<Longrightarrow> metric_keys A' m = metric_keys A m"
proof -
  assume same: "\<And>k. map_option fst (A' k) = map_option fst (A k)"
  have "metric_keys B m = {k. \<exists>ref. map_option fst (B k) = Some ref \<and> ref_Metric ref = m}" for B
    by (auto simp: metric_keys_def)
  then show ?thesis by (simp only: same)
qed

lemma apply_window_metrics:
  "apply_window m A rs = (res, A') \<Longrightarrow> (\<And>k s. (Inr k, s) \<in> set rs \<Longrightarrow> A k \<noteq> None) \<Longrightarrow> metric_keys A' metric = metric_keys A metric"
proof (induction m A rs arbitrary: res A' rule: apply_window.induct)
  case (2 m A e s rest)
  then show ?case by (auto split: prod.splits)
next
  case (3 m A k s rest)
  obtain r A1 where p: "window_put m k (hs_T s) (hs_V s) A = (r, A1)" by force
  have "A k \<noteq> None" by (rule 3(3) [of k s]) simp
  note W = window_put_samples(3,4) [OF this p]
  obtain res2 A2 where a: "apply_window m A1 rest = (res2, A2)" by force
  have "A1 k' \<noteq> None" if "(Inr k', s') \<in> set rest" for k' s' using 3(3) [of k' s'] that W(1) unfolding domIff [symmetric] by simp
  then have "metric_keys A2 metric = metric_keys A1 metric" using 3(1) [OF p [symmetric] refl a] by blast
  moreover have "A' = A2" using 3(2) p a by simp
  ultimately show ?case using metric_keys_cong [of A1 A metric] W(2) by simp
qed simp

lemma resolve_window_limit:
  "resolve_window lim m A batch = (as, A1) \<Longrightarrow> 0 < lim \<Longrightarrow> finite (metric_keys A metric) \<Longrightarrow>
    finite (metric_keys A1 metric) \<and> int (card (metric_keys A1 metric)) \<le> max lim (int (card (metric_keys A metric)))"
proof (induction lim m A batch arbitrary: as A1 rule: resolve_window.induct)
  case (2 lim m A ref s rest)
  show ?case
  proof (cases "sint (hs_T s) < sint m \<or> isl (admit lim A ref)")
    case True
    then show ?thesis using 2 by (auto split: prod.splits if_splits sum.splits)
  next
    case False
    then obtain Aa where Aa: "admit lim A ref = Inr Aa" "\<not> sint (hs_T s) < sint m" by (metis isl_def sum.exhaust)
    obtain as2 A2 where r: "resolve_window lim m Aa rest = (as2, A2)" by force
    then have e: "A1 = A2" using 2(4) Aa by auto
    have "finite (metric_keys Aa metric) \<and> int (card (metric_keys Aa metric)) \<le> max lim (int (card (metric_keys A metric)))"
    proof (cases "A (series_Key ref)")
      case None
      then have "Aa = A(series_Key ref \<mapsto> (ref, []))" "int (card (metric_keys A (ref_Metric ref))) < lim"
        using Aa(1) 2(5) by (auto simp: admit_def split: if_splits)
      then show ?thesis using 2(6) metric_keys_add [where A = A and k = "series_Key ref", OF None, of ref "[]" metric] by (auto simp: card_insert_if)
    next
      case (Some x)
      then have "Aa = A" using Aa(1) by (simp add: admit_def)
      then show ?thesis using 2(6) by simp
    qed
    then show ?thesis using 2(3) [OF Aa(2,1) r 2(5)] unfolding e by fastforce
  qed
qed simp

lemma resolved_admitted: "resolve_window lim m A batch = (as, A1) \<Longrightarrow> (Inr k, s) \<in> set (zip as ys) \<Longrightarrow> A1 k \<noteq> None"
proof -
  have "resolve_window lim m A batch = (as, A1) \<Longrightarrow> Inr k \<in> set as \<Longrightarrow> A1 k \<noteq> None"
  proof (induction lim m A batch arbitrary: as A1 rule: resolve_window.induct)
    case (2 lim m A ref s rest)
    show ?case
    proof (cases "sint (hs_T s) < sint m \<or> isl (admit lim A ref)")
      case True
      then show ?thesis using 2 by (auto split: prod.splits if_splits sum.splits)
    next
      case False
      then obtain Aa where Aa: "admit lim A ref = Inr Aa" "\<not> sint (hs_T s) < sint m" by (metis isl_def sum.exhaust)
      obtain as2 A2 where r: "resolve_window lim m Aa rest = (as2, A2)" by force
      then have e: "A1 = A2" "as = Inr (series_Key ref) # as2" using 2(4) Aa by auto
      have "Aa (series_Key ref) \<noteq> None" using admitted [OF Aa(1), of "series_Key ref"] by simp
      then have "A2 (series_Key ref) \<noteq> None" using resolve_window_adds [OF r, of "series_Key ref"] by auto
      then show ?thesis using 2(3) [OF Aa(2,1) r] 2(5) unfolding e by auto
    qed
  qed simp
  then show "resolve_window lim m A batch = (as, A1) \<Longrightarrow> (Inr k, s) \<in> set (zip as ys) \<Longrightarrow> A1 k \<noteq> None" by (blast dest: set_zip_leftD)
qed

section \<open>Properties\<close>

text \<open>C12: Queries return what is stored. \<open>Select\<close> returns, sorted by key, exactly the series the
  selector matches that have samples in the range, each with exactly those samples; it never fails to
  decode a chunk and never returns a part of a series. \<open>SeriesOf\<close> lists exactly the series of a metric
  that hold a sample. However Go orders its maps.\<close>

theorem head_queries_exact:
  assumes "head_history h L" and "reorders ord" and "plain_selector sel"
    and "\<forall>k ref xs. contents h k = Some (ref, xs) \<longrightarrow> no_pseudo ref"
  shows "head_Select ord h sel from to = Inr (window_Select (contents h) sel from to) \<and>
    set (SeriesOf h metric) = {ref. \<exists>k xs. contents h k = Some (ref, xs) \<and> ref_Metric ref = metric \<and> xs \<noteq> []}"
  using Select_window [OF history_inv [OF assms(1)] assms(2-4)] SeriesOf_window [OF history_inv [OF assms(1)] assms(4)] by blast

theorem head_queries_exact_witness:
  "\<exists>h L. head_history h L \<and>
    head_Select rev h \<lparr>sel_Metric = ''cpu'', sel_Matchers = []\<rparr> 6 100 = Inr [\<lparr>ss_Series = example_ref, ss_Samples = [(12, 2)]\<rparr>]"
proof -
  let ?sel = "\<lparr>sel_Metric = ''cpu'', sel_Matchers = []\<rparr>"
  obtain a h L where app: "head_Append (Some (list_logger True)) example_refs example_batch (example_head, []) = (a, (h, L))" by (metis surj_pair)
  note E = example_appended [OF app]
  have c: "contents h = [series_Key example_ref \<mapsto> (example_ref, [(5, 1), (12, 2)])]" using E by blast
  have "no_pseudo example_ref" by (simp add: no_pseudo_def example_ref_def)
  then have tags: "\<forall>k ref xs. contents h k = Some (ref, xs) \<longrightarrow> no_pseudo ref" unfolding c by auto
  have "selects ?sel example_ref" by (simp add: selects_def example_ref_def)
  then have "window_keys (contents h) ?sel 6 100 = {series_Key example_ref}" unfolding window_keys_def c by (auto split: if_splits)
  then have W: "window_Select (contents h) ?sel 6 100 = [\<lparr>ss_Series = example_ref, ss_Samples = [(12, 2)]\<rparr>]"
    by (simp add: window_Select_def window_entry_def c)
  have ord: "reorders (rev :: string list \<Rightarrow> string list)" and sel: "plain_selector ?sel" by (simp_all add: reorders_def plain_selector_def)
  have hist: "head_history h L" using E by blast
  show ?thesis using head_queries_exact [OF hist ord sel tags, of 6 100] hist W by auto
qed

text \<open>C39: The series limit holds. With a limit on the series of a metric, no batch takes a metric above
  the limit, or above what it already had.\<close>

theorem series_limit_kept:
  assumes "head_history h L" and "unat (h_nextID h) + length samples < 2 ^ 64"
    and "head_Append (wal :: ('w, 'e) Logger option) refs samples (h, w) = (a, (h', w'))" and "0 < opt_MaxSeriesPerMetric (h_opts h)"
  shows "int (card (metric_keys (contents h') metric)) \<le>
    max (opt_MaxSeriesPerMetric (h_opts h)) (int (card (metric_keys (contents h) metric)))"
proof -
  note inv = history_inv [OF assms(1)]
  let ?lim = "opt_MaxSeriesPerMetric (h_opts h)" and ?m = "h_minValid h" and ?batch = "zip refs samples"
  obtain as A1 where r: "resolve_window ?lim ?m (contents h) ?batch = (as, A1)" by force
  obtain res A' where aw: "apply_window ?m A1 (zip as (map snd ?batch)) = (res, A')" by force
  have c: "commit_window ?lim ?m (contents h) ?batch = (res, A')" using r aw by (simp add: commit_window_def)
  have "metric_keys A' metric = metric_keys A1 metric" by (rule apply_window_metrics [OF aw]) (rule resolved_admitted [OF r])
  then have "int (card (metric_keys A' metric)) \<le> max ?lim (int (card (metric_keys (contents h) metric)))"
    using resolve_window_limit [OF r assms(4) finite_metric_keys [OF inv], where metric = metric] by simp
  then show ?thesis
    using Append_success [OF inv assms(2,3) _ c] Append_failure [OF inv assms(2,3)] by (cases "ap_stored a = None") auto
qed

theorem series_limit_kept_witness:
  "\<exists>a h L. head_Append (Some (list_logger True)) example_refs example_batch (example_head, []) = (a, (h, L)) \<and>
    card (metric_keys (contents h) ''cpu'') \<le> 1"
proof -
  obtain a h L where app: "head_Append (Some (list_logger True)) example_refs example_batch (example_head, []) = (a, (h, L))" by (metis surj_pair)
  have hist: "head_history example_head []" unfolding example_head_def by (rule started)
  have f: "h_nextID example_head = 0" "opt_MaxSeriesPerMetric (h_opts example_head) = 1" "contents example_head = Map.empty"
    by (simp_all add: example_head_def New_inv) (simp_all add: head_New_def)
  have room: "unat (h_nextID example_head) + length example_batch < 2 ^ 64" by (simp add: f example_batch_def)
  have "metric_keys Map.empty ''cpu'' = {}" by (simp add: metric_keys_def)
  then show ?thesis using series_limit_kept [OF hist room app, of "''cpu''"] app unfolding f by auto
qed

end
