(* ===== verification/Head_Wal.thy ===== *)
theory Head_Wal
  imports Head_Properties
begin

text \<open>
  The head over the write-ahead log and its files, and what happens when a batch reaches the log but
  is not acknowledged.
\<close>

section \<open>A head over its files\<close>

inductive serves :: "Head \<Rightarrow> WAL \<times> os \<Rightarrow> bool" where
  opened: "serves (head_New hash opts) (w, s)" if "os_files s0 = []" and "Open dir n s0 = (Inr w, s)"
| served: "serves h' ws'"
    if "serves h ws" and "num_ok (last (segs (os_files (snd ws))) + 1)" and "unat (h_nextID h) + length samples < 2 ^ 64"
      and "list_all ref_ok refs" and "head_Append (Some wal_logger) refs samples (h, ws) = (a, (h', ws'))" and "ap_stored a \<noteq> None"
| synced: "serves h ws'" if "serves h ws" and "Sync ws = (res, ws')"
| froze: "serves (Freeze m h) ws" if "serves h ws"
| cut: "serves h' ws"
    if "serves h ws" and "sint m mod sint (h_range h) = 0" and "sint (h_minValid h) \<le> sint m" and "reorders ord"
      and "head_Truncate ord m h = (c, h')"

lemma serves_in_step: "serves h ws \<Longrightarrow> \<exists>L es. wal_inv (fst ws) (snd ws) L \<and> log_events L = Some es \<and> in_step h es"
proof (induction rule: serves.induct)
  case (opened s0 dir n w s hash opts)
  have "wal_inv w s []" using at_end_inv Open_empty_any [OF opened] by fastforce
  moreover have "in_step (head_New hash opts) []" using history_in_step [OF started] by auto
  ultimately show ?case by fastforce
next
  case (served h ws samples refs a h' ws')
  then obtain L es where L: "wal_inv (fst ws) (snd ws) L" "log_events L = Some es" "in_step h es" by blast
  from wl.append_holds [OF L(1) served.hyps(2) L(2,3) served.hyps(3-6)] show ?case .
next
  case (synced h ws res ws')
  then obtain L es where L: "wal_inv (fst ws) (snd ws) L" "log_events L = Some es" "in_step h es" by blast
  have "lg_Sync wal_logger ws = (res, ws')" using synced.hyps(2) by (simp add: wal_logger_def)
  from wl.Sync_holds [OF L(1) this] L(2,3) show ?case by blast
next
  case (froze h ws m)
  then show ?case using Freeze_in_step by blast
next
  case (cut h ws m ord c h')
  then obtain L es where L: "wal_inv (fst ws) (snd ws) L" "log_events L = Some es" "in_step h es" by blast
  from Truncate_in_step [OF L(3) cut.hyps(2,4,3,5)] L(1,2) show ?case by blast
qed

section \<open>One batch on an empty head\<close>

lemma one_created:
  assumes inv: "head_inv h" and none: "contents h = Map.empty"
  shows "getOrCreate ref h = (Inr (h_nextID h + 1, True), enter_series (newSeries (h_nextID h + 1) ref False) (h\<lparr>h_nextID := h_nextID h + 1\<rparr>))"
proof -
  have "shard_get h (series_Key ref) = None" using shard_contents [OF inv] none by simp
  moreover have "metric_keys Map.empty (ref_Metric ref) = {}" by (simp add: metric_keys_def)
  then have "perMetric h (ref_Metric ref) = 0" using perMetric_count [OF inv] none by simp
  ultimately show ?thesis by (simp add: getOrCreate_def Let_def)
qed

lemma one_batch:
  assumes inv: "head_inv h" and none: "contents h = Map.empty" and t: "\<not> sint (hs_T s) < sint (h_minValid h)"
    and room: "unat (h_nextID h) + 1 < 2 ^ 64"
    and log: "logLocked lg (opt_SyncOnAppend (h_opts h)) [(h_nextID h + 1, ref)] [s\<lparr>hs_ID := h_nextID h + 1\<rparr>] w = (res, w1)"
    and app: "head_Append (Some (lg :: ('w, 'e) Logger)) [ref] [s] (h, w) = (a, (h', w'))"
  shows "w' = w1 \<and> (ap_stored a = None \<longleftrightarrow> isl res) \<and> (isl res \<longrightarrow> h_nextID h' = h_nextID h + 1)"
proof -
  let ?n = "h_nextID h + 1"
  let ?h1 = "enter_series (newSeries ?n ref False) (h\<lparr>h_nextID := ?n\<rparr>)" and ?rs = "[(Some ?n, s\<lparr>hs_ID := ?n\<rparr>)]"
  let ?h2 = "set_series ?n ((newSeries ?n ref False)\<lparr>ms_logged := True\<rparr>) ?h1"
  note g = one_created [OF inv none, of ref]
  have r: "resolve 0 (h_minValid h) (zip [ref] [s]) h = ((?rs, [] :: 'e Rejection list, [?n], 0), ?h1)" using g t by simp
  have v: "valid_samples ?rs = [s\<lparr>hs_ID := ?n\<rparr>]" by (simp add: valid_samples_def)
  have p: "mark_pending ?rs ?h1 = ([?n], ?h2)" by simp
  have sr: "series_records ?h2 [?n] = [(?n, ref)]" by (simp add: series_records_def List.map_filter_simps)
  have inv1: "head_inv ?h1" using getOrCreate_spec [OF inv room g] by blast
  have len: "length [ref] = length [s]" by simp
  from app len r show ?thesis
  proof (cases rule: head_Append_cases)
    case none
    then show ?thesis using v by simp
  next
    case (failed lg' pending h2 e)
    have e: "pending = [?n]" "h2 = ?h2" "lg' = lg" using failed(2,3) p by auto
    have M: "head_inv h2" "h_nextID h2 = ?n" using mark_pending_spec [OF inv1 failed(3)] by (auto simp: marked_def)
    have "h_nextID (unmark pending h2) = ?n" "head_inv (unmark pending h2)" using unmark_spec [OF M(1), of pending] M(2) by (simp_all add: marked_def)
    then show ?thesis using failed(4) log finish_commit_spec(1,4) [OF failed(5)] unfolding e v sr by (auto simp: shrinks_def split: if_splits)
  next
    case (applied pending h2 stored rej' dropped' h3)
    have e: "pending = [?n]" "h2 = ?h2" using applied(2) p by auto
    then show ?thesis using applied(2,4) log unfolding e v sr by (auto simp: finish_commit_def split: if_splits)
  qed
qed

section \<open>Durability\<close>

text \<open>C1: What was acknowledged is in the files. After any run of a head over its write-ahead log, with
  appends that were acknowledged, syncs that may fail and block cuts, replaying the directory into an
  empty head with the same bound reports no error and gives every series exactly the samples it has
  from the bound on.\<close>

theorem acknowledged_survives:
  assumes "serves h (w, s)" and "os_faults s = []" and "reorders ord" and "reorders ord'"
  shows "\<exists>st h'. head_Replay ord (snd (head_Truncate ord' (h_minValid h) (head_New hash opts))) s = (Inr st, h') \<and>
    (\<forall>k. window_samples (contents h') k = filter (\<lambda>(t, v). sint (h_minValid h) \<le> sint t) (window_samples (contents h) k))"
proof -
  let ?h0 = "snd (head_Truncate ord' (h_minValid h) (head_New hash opts))"
  obtain L es where L: "wal_inv w s L" "log_events L = Some es" "in_step h es" using serves_in_step [OF assms(1)] by auto
  obtain r where r: "replay (os_files s) = (L, r)" "r_err r = None" using wal_inv_replay [OF L(1)] by blast
  have "calm s" using assms(2) by (simp add: calm_def)
  then have n: "NewReader s = (Inr (readerOver (reader_files (os_files s)) False), s)" by (rule NewReader_calm)
  have d: "drain (os_files s) (readerOver (reader_files (os_files s)) False) = (L, r)" using r(1) by (simp add: replay_def reader_files_def)
  have m: "h_minValid ?h0 = h_minValid h" unfolding Truncate_New [OF assms(4)] by simp
  obtain c h' where c: "replay_records (h_minValid h) [] L (0, 0) ?h0 = (Inr c, h')"
    "\<forall>k. window_samples (contents h') k = filter (\<lambda>(t, v). sint (h_minValid h) \<le> sint t) (window_samples (contents h) k)"
    using replay_in_step [OF L(3,2) assms(4), of hash opts] by blast
  obtain st where "head_Replay ord ?h0 s = (Inr st, h')"
    using n d r(2) c(1) unfolding head_Replay_def m by (cases c) simp
  with c(2) show ?thesis by blast
qed

theorem acknowledged_survives_witness:
  "\<exists>h w s st h'. serves h (w, s) \<and>
    head_Replay rev (snd (head_Truncate rev (- (2 ^ 63)) (head_New (\<lambda>_. 1) (h_opts example_head)))) s = (Inr st, h') \<and>
    window_samples (contents h') (series_Key example_ref) = [(5, 1)]"
proof -
  obtain w s where o: "Open ''wal'' 0 \<lparr>os_files = [], os_faults = []\<rparr> = (Inr w, s)" "calm s" "at_end w s [] []" "\<not> w_closed w"
    "segs (os_files s) = [0]" using Open_empty [of "\<lparr>os_files = [], os_faults = []\<rparr>" "''wal''" 0] by (auto simp: calm_def)
  have srv: "serves example_head (w, s)" unfolding example_head_def by (rule opened [OF _ o(1)]) simp
  have num: "num_ok (last (segs (os_files s)) + 1)" using o(5) by (simp add: num_ok_def)
  let ?s = "\<lparr>hs_ID = 0, hs_T = 5, hs_V = 1\<rparr> :: hSample"
  let ?recs = "batch_records [(1, example_ref)] [?s\<lparr>hs_ID := 1\<rparr>]"
  have f: "head_inv example_head" "contents example_head = Map.empty" "h_nextID example_head = 0" "h_minValid example_head = - (2 ^ 63)"
    "opt_SyncOnAppend (h_opts example_head) = False" "opt_MaxSeriesPerMetric (h_opts example_head) = 1"
    by (simp_all add: example_head_def New_inv) (simp_all add: head_New_def)
  have "length (encodeSeries 1 example_ref) \<le> 10 + (10 + 3) + 10"
    using length_putUvarint(2) [of 1] length_putUvarint(2) [of 3] length_putUvarint(2) [of 0]
    by (simp add: encodeSeries_def appendString_def example_ref_def)
  then have "length (encodeSeries 1 example_ref) \<le> MaxRecordSize" by (simp add: MaxRecordSize_def)
  then have "list_all rec_ok ?recs" using sample_records_spec by (simp add: batch_records_def rec_ok_def)
  from Log_calm [OF o(3,2) num this o(4)] obtain w1 s1 where l: "Log ?recs (w, s) = (Inr (), (w1, s1))" "calm s1" by blast
  then have log: "logLocked wal_logger False [(1, example_ref)] [?s\<lparr>hs_ID := 1\<rparr>] (w, s) = (Inr (), (w1, s1))"
    by (simp add: logLocked_def wal_logger_def)
  obtain a h ws where app: "head_Append (Some wal_logger) [example_ref] [?s] (example_head, (w, s)) = (a, (h, ws))" by (metis surj_pair)
  have B: "ws = (w1, s1)" "ap_stored a \<noteq> None"
    using one_batch [OF f(1,2) _ _ _ app, unfolded f, simplified, OF log [simplified]] by (auto simp: f)
  have ok: "list_all ref_ok [example_ref]" by (simp add: example_ref_def ref_ok_def str_ok_def)
  have "serves h (w1, s1)" using served [OF srv _ _ ok app] num B f(3) by simp
  moreover have m: "h_minValid h = - (2 ^ 63)" using Append_keeps [OF f(1) _ app] f(3,4) by simp
  moreover have "contents h = [series_Key example_ref \<mapsto> (example_ref, [(5, 1)])]"
  proof -
    have e: "metric_keys Map.empty m = {}" for m by (simp add: metric_keys_def)
    have "commit_window 1 (- (2 ^ 63)) Map.empty (zip [example_ref] [?s]) = ([Inr True], [series_Key example_ref \<mapsto> (example_ref, [(5, 1)])])"
      by (simp add: commit_window_def admit_def e window_put_def abs_append_def)
    then show ?thesis using Append_success [OF f(1) _ app B(2)] f by simp
  qed
  moreover have rev: "reorders rev" by (simp add: reorders_def)
  ultimately show ?thesis using acknowledged_survives [of h w1 s1 rev rev "\<lambda>_. 1" "h_opts example_head"] l(2)
    by (fastforce simp: calm_def window_samples_def)
qed

section \<open>A batch that reached the log but was refused\<close>

text \<open>A log whose first sync fails after the write went through, which the write-ahead log allows.\<close>

definition sync_fails_once :: "(Record list \<times> bool, unit) Logger" where
  "sync_fails_once = \<lparr>lg_Log = (\<lambda>recs (L, b). (Inr (), (L @ recs, b))), lg_Sync = (\<lambda>(L, b). (if b then Inl () else Inr (), (L, False)))\<rparr>"

text \<open>C40: A refused batch can cost an acknowledged one. When a batch is written to the log but its sync
  fails, the batch is refused and nothing of it is in the head, but its records stay in the log. A
  later, older sample of the same series is then accepted and acknowledged; after a restart, replay
  applies the refused sample first and rejects the acknowledged one as out of order. So a head
  restored from the log can lack an acknowledged sample and hold one that was refused.\<close>

theorem refused_batch_hides_later:
  assumes "ref_ok ref" and "opt_SyncOnAppend opts" and "sint t2 < sint t1"
    and "head_Append (Some sync_fails_once) [ref] [\<lparr>hs_ID = 0, hs_T = t1, hs_V = v1\<rparr>] (head_New hash opts, ([], True)) = (a1, (h1, w1))"
    and "head_Append (Some sync_fails_once) [ref] [\<lparr>hs_ID = 0, hs_T = t2, hs_V = v2\<rparr>] (h1, w1) = (a2, (h2, w2))"
  shows "ap_stored a1 = None \<and> ap_stored a2 = Some [True] \<and> window_samples (contents h2) (series_Key ref) = [(t2, v2)] \<and>
    (\<exists>c h3. replay_records (- (2 ^ 63)) [] (fst w2) (0, 0) (head_New hash opts) = (Inr c, h3) \<and>
       window_samples (contents h3) (series_Key ref) = [(t1, v1)])"
proof -
  let ?h0 = "head_New hash opts" and ?s1 = "\<lparr>hs_ID = 0, hs_T = t1, hs_V = v1\<rparr> :: hSample" and ?s2 = "\<lparr>hs_ID = 0, hs_T = t2, hs_V = v2\<rparr> :: hSample"
  have h0: "head_inv ?h0" "contents ?h0 = Map.empty" "h_nextID ?h0 = 0" "h_minValid ?h0 = - (2 ^ 63)" "opt_SyncOnAppend (h_opts ?h0)"
    using assms(2) by (simp_all add: New_inv) (simp_all add: head_New_def)
  have bound: "\<not> sint t < sint (- (2 ^ 63) :: i64)" for t :: i64 using sint_64_bounds(1) [of t] by simp
  have log: "logLocked sync_fails_once True series ss (L, b) = (if b then Inl (Syncing ()) else Inr (), (L @ batch_records series ss, False))" for series ss L b
    by (simp add: logLocked_def sync_fails_once_def)
  let ?r1 = "batch_records [(1, ref)] [?s1\<lparr>hs_ID := 1\<rparr>]" and ?r2 = "batch_records [(2, ref)] [?s2\<lparr>hs_ID := 2\<rparr>]"
  have B1: "w1 = (?r1, False) \<and> ap_stored a1 = None \<and> h_nextID h1 = 1"
    using one_batch [OF h0(1,2) _ _ _ assms(4), unfolded h0(3-5)] bound log [of "[(1, ref)]"] h0(5) by simp
  have room1: "unat (h_nextID ?h0) + length [?s1] < 2 ^ 64" by (simp add: h0)
  have h1: "head_inv h1" "contents h1 = Map.empty" using Append_failure [OF h0(1) room1 assms(4)] B1 h0(2) by auto
  have k1: "h_minValid h1 = - (2 ^ 63)" "h_opts h1 = h_opts ?h0" using Append_keeps [OF h0(1) room1 assms(4)] h0(4) by auto
  have B2: "w2 = (?r1 @ ?r2, False) \<and> ap_stored a2 \<noteq> None"
    using one_batch [OF h1 _ _ _ assms(5), unfolded k1] bound log [of "[(2, ref)]"] h0(5) B1 by simp
  have room2: "unat (h_nextID h1) + length [?s2] < 2 ^ 64" using B1 by simp
  have e: "metric_keys Map.empty m = {}" for m by (simp add: metric_keys_def)
  have c: "commit_window (opt_MaxSeriesPerMetric (h_opts h1)) (h_minValid h1) (contents h1) (zip [ref] [?s2]) = ([Inr True], [series_Key ref \<mapsto> (ref, [(t2, v2)])])"
    using bound by (simp add: commit_window_def admit_def e window_put_def abs_append_def h1(2) k1)
  have S: "ap_stored a2 = Some [True]" "contents h2 = [series_Key ref \<mapsto> (ref, [(t2, v2)])]"
    using Append_success [OF h1(1) room2 assms(5) _ c] B2 by auto
  let ?es = "[Def 1 ref, Smp 1 t1 v1, Def 2 ref, Smp 2 t2 v2]"
  have ev: "log_events (?r1 @ ?r2) = Some ?es" using batch_records_events assms(1) by (simp add: log_events_append)
  have none: "head_series ?h0 = Map.empty" by (auto simp: head_New_def head_series_def)
  have log0: "by_log Map.empty [] ?h0" "from_log Map.empty ?h0" "all_logged ?h0" by (simp_all add: by_log_def from_log_def all_logged_def none)
  have s0: "window_samples (contents ?h0) = (\<lambda>_. [])" by (simp add: fun_eq_iff h0(2) window_samples_def)
  have "snd (fold (log_step (- (2 ^ 63))) ?es (Map.empty, \<lambda>_. [])) (series_Key ref) = [(t1, v1)]"
    using bound assms(3) by (auto simp: put_sample_def abs_append_def)
  then have "\<exists>c h3. replay_records (- (2 ^ 63)) [] (?r1 @ ?r2) (0, 0) ?h0 = (Inr c, h3) \<and> window_samples (contents h3) (series_Key ref) = [(t1, v1)]"
    using replay_records_spec [OF h0(1) log0 ev, of "- (2 ^ 63)" "(0, 0)"] unfolding s0 by auto
  with B1 B2 S show ?thesis by (simp add: window_samples_def)
qed

theorem refused_batch_hides_later_witness:
  "\<exists>a1 h1 w1 a2 h2 w2 c h3. head_Append (Some sync_fails_once) [example_ref] [\<lparr>hs_ID = 0, hs_T = 10, hs_V = 1\<rparr>]
      (head_New (\<lambda>_. 0) \<lparr>opt_BlockRange = 0, opt_MaxSeriesPerMetric = 0, opt_SyncOnAppend = True\<rparr>, ([], True)) = (a1, (h1, w1)) \<and>
    head_Append (Some sync_fails_once) [example_ref] [\<lparr>hs_ID = 0, hs_T = 5, hs_V = 2\<rparr>] (h1, w1) = (a2, (h2, w2)) \<and>
    ap_stored a1 = None \<and> ap_stored a2 = Some [True] \<and>
    replay_records (- (2 ^ 63)) [] (fst w2) (0, 0)
      (head_New (\<lambda>_. 0) \<lparr>opt_BlockRange = 0, opt_MaxSeriesPerMetric = 0, opt_SyncOnAppend = True\<rparr>) = (Inr c, h3) \<and>
    window_samples (contents h3) (series_Key example_ref) = [(10, 1)]"
proof -
  let ?opts = "\<lparr>opt_BlockRange = 0, opt_MaxSeriesPerMetric = 0, opt_SyncOnAppend = True\<rparr>"
  obtain a1 h1 w1 where a1: "head_Append (Some sync_fails_once) [example_ref] [\<lparr>hs_ID = 0, hs_T = 10, hs_V = 1\<rparr>] (head_New (\<lambda>_. 0) ?opts, ([], True)) = (a1, (h1, w1))"
    by (metis surj_pair)
  obtain a2 h2 w2 where a2: "head_Append (Some sync_fails_once) [example_ref] [\<lparr>hs_ID = 0, hs_T = 5, hs_V = 2\<rparr>] (h1, w1) = (a2, (h2, w2))"
    by (metis surj_pair)
  have "ref_ok example_ref" by (simp add: example_ref_def ref_ok_def str_ok_def)
  moreover have "opt_SyncOnAppend ?opts" "sint (5 :: i64) < sint (10 :: i64)" by simp_all
  ultimately show ?thesis using refused_batch_hides_later [OF _ _ _ a1 a2] a1 a2 by blast
qed

end
