(* ===== verification/Block_Chunks.thy ===== *)
theory Block_Chunks
  imports Mem_Series Wal_Log
begin

text \<open>
  The file of a block that holds its samples (\<open>internal/tsdb/block/chunks.go\<close>): a header and one
  checksummed record per chunk, read back at the offset and length the index keeps. The file is its
  bytes; failing reads and writes of the operating system are not modelled.
\<close>

section \<open>Writing\<close>

text \<open>The refusals of the block reader and writer, in the order of the package's files.\<close>

datatype block_error =
    ChunksHeaderShort
  | NotChunksFile "32 word"
  | ChunksVersion byte
  | ChunkClaims u64 u64
  | ChunkPastEnd u64 u64
  | CorruptPrefix u64
  | CorruptChunk u64
  | IndexShort
  | NotIndexFile "32 word"
  | IndexVersion byte
  | CorruptIndex
  | TOCOutside
  | TruncatedUvarintB
  | TruncatedVarintB
  | StringExceeds u64
  | ClaimsSymbols u64
  | ClaimsSeries u64
  | ClaimsTags u64
  | ClaimsChunks u64
  | ClaimsLists u64
  | SymbolOutside u64
  | PostingsOutside
  | BlockMetaVersion int
  | SeriesOutside u64
  | UnknownEncoding byte
  | BlockChunk chunk_error
  | BlockDecode chunkenc_error
  | WriterClosed
  | InvalidSeries validate_error
  | ErrEmpty
  | BadULID string
  | PlanTooSmall

definition chunksMagic :: "32 word" where "chunksMagic = 0x4f5a4348"
definition chunksVersion :: byte where "chunksVersion = 1"
definition chunksHeaderLen :: nat where "chunksHeaderLen = 5"
definition EncodingGorilla :: byte where "EncodingGorilla = 1"
definition maxChunkLen :: u64 where "maxChunkLen = push_bit 20 1"

record chunkWriter =
  cw_f :: "byte list"
  cw_off :: u64

definition newChunkWriter :: chunkWriter where
  "newChunkWriter = \<lparr>cw_f = putUint32BE chunksMagic @ [chunksVersion], cw_off = of_nat chunksHeaderLen\<rparr>"

definition chunk_record :: "byte \<Rightarrow> byte list \<Rightarrow> byte list" where
  "chunk_record encoding data =
     putUvarint (of_nat (length data) + 1) @ (encoding # data) @ putUint32BE (crc32c (encoding # data))"

definition chunk_write :: "byte \<Rightarrow> byte list \<Rightarrow> chunkWriter \<Rightarrow> (u64 \<times> u64) \<times> chunkWriter" where
  "chunk_write encoding data w =
     (let buf = chunk_record encoding data
      in ((cw_off w, of_nat (length buf)), w\<lparr>cw_f := cw_f w @ buf, cw_off := cw_off w + of_nat (length buf)\<rparr>))"

section \<open>Reading\<close>

text \<open>The reader is the open file.\<close>

type_synonym chunkReader = "byte list"

definition openChunkReader :: "byte list \<Rightarrow> block_error + chunkReader" where
  "openChunkReader f =
     (if length f < chunksHeaderLen then Inl ChunksHeaderShort
      else if getUint32BE f \<noteq> chunksMagic then Inl (NotChunksFile (getUint32BE f))
      else if f ! 4 \<noteq> chunksVersion then Inl (ChunksVersion (f ! 4))
      else Inr f)"

definition chunk_at :: "chunkReader \<Rightarrow> u64 \<Rightarrow> u64 \<Rightarrow> block_error + (byte \<times> byte list)" where
  "chunk_at r off recLen =
     (let size = of_nat (length r) :: u64
      in if recLen < 6 \<or> maxChunkLen < recLen then Inl (ChunkClaims off recLen)
         else if size < off \<or> size - off < recLen then Inl (ChunkPastEnd off recLen)
         else
           let rec = take (unat recLen) (drop (unat off) r);
               (len, used) = getUvarint rec
           in if used \<le> 0 \<or> recLen \<le> word_of_int used + 4 \<or> len \<noteq> recLen - 4 - word_of_int used
              then Inl (CorruptPrefix off)
              else
                let body = take (unat len) (drop (nat used) rec);
                    want = getUint32BE (drop (nat used + unat len) rec)
                in if crc32c body \<noteq> want then Inl (CorruptChunk off)
                   else Inr (hd body, tl body))"

section \<open>What is written is read back\<close>

lemma length_chunk_record: "length (chunk_record e d) = length (putUvarint (of_nat (length d) + 1)) + 1 + length d + 4"
  by (simp add: chunk_record_def)

lemma openChunkReader_new: "openChunkReader (cw_f newChunkWriter @ rest) = Inr (cw_f newChunkWriter @ rest)"
  by (simp add: openChunkReader_def newChunkWriter_def chunksHeaderLen_def nth_append)

text \<open>A record of a chunk's size anywhere in a file of a countable size.\<close>

lemma chunk_at_record:
  assumes len: "length d + 15 \<le> 2 ^ 20" and fits: "length (pre @ chunk_record e d @ rest) < 2 ^ 63"
  shows "chunk_at (pre @ chunk_record e d @ rest) (of_nat (length pre)) (of_nat (length (chunk_record e d))) = Inr (e, d)"
proof -
  let ?rec = "chunk_record e d" and ?l = "putUvarint (of_nat (length d) + 1)"
  let ?r = "pre @ ?rec @ rest" and ?u = "length ?l"
  have u: "0 < ?u" "?u \<le> 10" by (rule length_putUvarint)+
  have rl: "length ?rec = ?u + 1 + length d + 4" by (rule length_chunk_record)
  have small: "unat (of_nat n :: u64) = n" if "n < 2 ^ 63" for n using that by (simp add: unat_of_nat)
  have n_rec: "unat (of_nat (length ?rec) :: u64) = length ?rec" using fits by (intro small) simp
  have n_pre: "unat (of_nat (length pre) :: u64) = length pre" using fits by (intro small) simp
  have n_all: "unat (of_nat (length ?r) :: u64) = length ?r" using fits by (intro small) simp
  have rec: "take (length ?rec) (drop (length pre) ?r) = ?rec" by simp
  have get: "getUvarint ?rec = (of_nat (length d) + 1, int ?u)"
    unfolding chunk_record_def by (rule getUvarint_put)
  have len1: "unat (of_nat (length d) + 1 :: u64) = length d + 1"
    using small [of "length d + 1"] len by (simp add: add.commute)
  have used: "unat (word_of_int (int ?u) + 4 :: u64) = ?u + 4"
    using small [of "?u + 4"] u by simp
  have body: "take (length d + 1) (drop ?u ?rec) = e # d" "drop (?u + (length d + 1)) ?rec = putUint32BE (crc32c (e # d))"
    by (simp_all add: chunk_record_def)
  have c1: "\<not> of_nat (length ?rec) < (6 :: u64)" using rl u n_rec by (simp add: word_less_nat_alt)
  have c2: "\<not> maxChunkLen < of_nat (length ?rec)"
    using rl u len n_rec by (simp add: word_less_nat_alt maxChunkLen_def)
  have c3: "\<not> (of_nat (length ?r) :: u64) < of_nat (length pre)" unfolding word_less_nat_alt n_all n_pre by simp
  have "(of_nat (length ?r) :: u64) - of_nat (length pre) = of_nat (length ?rec + length rest)" by simp
  moreover have "unat (of_nat (length ?rec + length rest) :: u64) = length ?rec + length rest" using fits by (intro small) simp
  ultimately have c4: "\<not> (of_nat (length ?r) :: u64) - of_nat (length pre) < of_nat (length ?rec)"
    unfolding word_less_nat_alt n_rec by simp
  have c5: "\<not> of_nat (length ?rec) \<le> (word_of_int (int ?u) + 4 :: u64)"
    unfolding word_le_nat_alt n_rec used using rl by simp
  have c6: "(of_nat (length d) + 1 :: u64) = of_nat (length ?rec) - 4 - word_of_int (int ?u)"
    unfolding rl by simp
  have crc: "getUint32BE (putUint32BE (crc32c (e # d))) = crc32c (e # d)"
    using getUint32BE_put [of _ "[]"] by simp
  show ?thesis
    unfolding chunk_at_def Let_def n_rec n_pre rec get prod.case c6 [symmetric] len1
    using c1 c2 c3 c4 c5 u by (simp add: body [simplified] crc del: length_append)

qed

section \<open>The size of a chunk\<close>

text \<open>A sample takes at most 157 bits, so a full chunk is far below the bound on a record.\<close>

lemma length_value_enc: "length (fst (value_enc l t x)) \<le> 77"
  by (auto simp: value_enc_def Let_def length_low_bits)

lemma length_dod_enc: "length (dod_enc d) \<le> 68"
  by (auto simp: dod_enc_def length_low_bits)

lemma length_varint_bits: "length (stream_bits (putVarint v)) \<le> 80"
  using length_putUvarint(2) [of "zigzag v"] by (simp add: putVarint_def)

lemma length_enc: "length (fst (enc s x)) \<le> 157"
proof (cases x)
  case (Pair t v)
  obtain bs l tr where v: "value_enc (cd_leading s) (cd_trailing s) (v XOR cd_v s) = (bs, l, tr)"
    by (metis surj_pair)
  have "length bs \<le> 77" using length_value_enc [of "cd_leading s" "cd_trailing s" "v XOR cd_v s"] v by simp
  then show ?thesis
    using length_varint_bits [of "t - cd_t s"] length_dod_enc [of "t - cd_t s - cd_delta s"] length_varint_bits [of t]
    by (simp add: enc_def Pair Let_def length_low_bits v)
qed

lemma length_encs: "length (fst (encs s xs)) \<le> 157 * length xs"
proof (induction xs arbitrary: s)
  case (Cons x xs)
  have "fst (encs s (x # xs)) = fst (enc s x) @ fst (encs (snd (enc s x)) xs)" by (simp split: prod.split)
  with Cons.IH [of "snd (enc s x)"] length_enc [of s x] show ?case by simp
qed simp

lemma length_chunk_bytes:
  assumes "chunk_holds a c xs" and "length xs \<le> MaxSamplesPerChunk"
  shows "length (Bytes c) \<le> 2400" and "2 \<le> length (Bytes c)"
proof -
  have c: "chunk_wf c" "fst (encs codec_init xs) = payload c"
    using assms(1) by (simp_all add: chunk_holds_def app_inv_def)
  then have p: "length (payload c) = 8 * length (Bytes c) - bs_count (c_b c) - 16" and "bs_count (c_b c) < 8"
    by (simp_all add: payload_def length_bs_bits Bytes_def chunk_wf_def bs_wf_def)
  moreover have "length (payload c) \<le> 157 * 120"
    using length_encs [of codec_init xs] c(2) assms(2) by (simp add: MaxSamplesPerChunk_def)
  ultimately show "length (Bytes c) \<le> 2400" by linarith
  show "2 \<le> length (Bytes c)" using c(1) by (simp add: chunk_wf_def Bytes_def)
qed

end
