(* ===== verification/Block_Index.thy ===== *)
theory Block_Index
  imports Block_Chunks Index_Lookup Head_Record "HOL-Library.AList"
begin

text \<open>
  The index file of a block (\<open>internal/tsdb/block/indexfile.go\<close>): symbols, series, postings and their
  offset table as the writer lays them out, the reader that parses them, and the lookups of the
  parsed index.
\<close>

section \<open>Data\<close>

definition indexMagic :: "32 word" where "indexMagic = 0x4f5a4958"
definition indexVersion :: byte where "indexVersion = 1"
definition indexHeadLen :: nat where "indexHeadLen = 5"
definition tocLen :: nat where "tocLen = 8 * 4"

record chunkRef =
  cf_minT :: i64
  cf_maxT :: i64
  cf_off :: u64
  cf_recLen :: u64

record blockSeries =
  bse_ref :: SeriesRef
  bse_chunks :: "chunkRef list"

record postingList =
  pl_key :: string
  pl_value :: string
  pl_ids :: "u64 list"

record tableEntry =
  te_keySym :: u64
  te_valSym :: u64
  te_off :: u64

text \<open>A Go map from strings to ordinals; a missing key reads as 0.\<close>

type_synonym symIDs = "(string \<times> u64) list"

definition sym_ord :: "symIDs \<Rightarrow> string \<Rightarrow> u64" where
  "sym_ord ids s = (case map_of ids s of None \<Rightarrow> 0 | Some i \<Rightarrow> i)"

text \<open>\<open>binary.BigEndian\<close> on 64 bits.\<close>

definition putUint64BE :: "u64 \<Rightarrow> byte list" where
  "putUint64BE u = rev (putUint64LE u)"

definition getUint64BE :: "byte list \<Rightarrow> u64" where
  "getUint64BE bs = getUint64LE (rev (take 8 bs))"

section \<open>Writing\<close>

definition symbol_set :: "blockSeries list \<Rightarrow> string list" where
  "symbol_set series =
     fold (\<lambda>s syms. fold (\<lambda>t syms. List.insert (tag_Value t) (List.insert (tag_Key t) syms)) (ref_Tags (bse_ref s))
        (List.insert (ref_Metric (bse_ref s)) syms)) series [MetricName]"

definition buildSymbols :: "blockSeries list \<Rightarrow> string list \<times> symIDs" where
  "buildSymbols series =
     (let syms = sort (symbol_set series) in (syms, zip syms (map of_nat [0..<length syms])))"

text \<open>\<open>invert\<close> collects the ids in nested maps; sorting makes the order of their entries irrelevant.\<close>

type_synonym inverted = "(string \<times> (string \<times> u64 list) list) list"

definition invert_add :: "string \<Rightarrow> string \<Rightarrow> u64 \<Rightarrow> inverted \<Rightarrow> inverted" where
  "invert_add k v i m =
     (let vals = (case map_of m k of None \<Rightarrow> [] | Some vals \<Rightarrow> vals);
          ids = (case map_of vals v of None \<Rightarrow> [] | Some ids \<Rightarrow> ids)
      in AList.update k (AList.update v (ids @ [i]) vals) m)"

definition invert_series :: "nat \<times> blockSeries \<Rightarrow> inverted \<Rightarrow> inverted" where
  "invert_series = (\<lambda>(i, s) m.
     fold (\<lambda>t. invert_add (tag_Key t) (tag_Value t) (of_nat i)) (ref_Tags (bse_ref s))
       (invert_add MetricName (ref_Metric (bse_ref s)) (of_nat i) m))"

definition invert :: "blockSeries list \<Rightarrow> postingList list" where
  "invert series =
     (let m = fold invert_series (enumerate 0 series) []
      in sort_key (\<lambda>l. (pl_key l, pl_value l))
           (concat (map (\<lambda>(k, vals). map (\<lambda>(v, ids). \<lparr>pl_key = k, pl_value = v, pl_ids = ids\<rparr>) vals) m)))"

definition symbols_bytes :: "string list \<Rightarrow> byte list" where
  "symbols_bytes syms = putUvarint (of_nat (length syms)) @
     concat (map (\<lambda>s. putUvarint (of_nat (length s)) @ string_bytes s) syms)"

definition tag_sym_bytes :: "symIDs \<Rightarrow> Tag \<Rightarrow> byte list" where
  "tag_sym_bytes ids t = putUvarint (sym_ord ids (tag_Key t)) @ putUvarint (sym_ord ids (tag_Value t))"

definition chunkRef_bytes :: "chunkRef \<Rightarrow> byte list" where
  "chunkRef_bytes c = putVarint (cf_minT c) @ putUvarint (cf_maxT c - cf_minT c) @ putUvarint (cf_off c) @ putUvarint (cf_recLen c)"

definition series_bytes :: "symIDs \<Rightarrow> blockSeries \<Rightarrow> byte list" where
  "series_bytes ids s =
     putUvarint (sym_ord ids (ref_Metric (bse_ref s))) @
     putUvarint (of_nat (length (ref_Tags (bse_ref s)))) @ concat (map (tag_sym_bytes ids) (ref_Tags (bse_ref s))) @
     putUvarint (of_nat (length (bse_chunks s))) @ concat (map chunkRef_bytes (bse_chunks s))"

fun deltas :: "u64 \<Rightarrow> u64 list \<Rightarrow> byte list" where
  "deltas prev [] = []"
| "deltas prev (i # is) = putUvarint (i - prev) @ deltas i is"

definition postings_bytes :: "u64 list \<Rightarrow> byte list" where
  "postings_bytes ids = putUvarint (of_nat (length ids)) @
     (case ids of [] \<Rightarrow> [] | i # is \<Rightarrow> putUvarint i @ deltas i is)"

text \<open>Each list is noted in the table at the length the file has when it is written.\<close>

fun put_lists :: "symIDs \<Rightarrow> postingList list \<Rightarrow> byte list \<Rightarrow> tableEntry list \<times> byte list" where
  "put_lists ids [] buf = ([], buf)"
| "put_lists ids (l # ls) buf =
     (let (table, buf') = put_lists ids ls (buf @ postings_bytes (pl_ids l))
      in (\<lparr>te_keySym = sym_ord ids (pl_key l), te_valSym = sym_ord ids (pl_value l), te_off = of_nat (length buf)\<rparr> # table, buf'))"

definition entry_bytes :: "tableEntry \<Rightarrow> byte list" where
  "entry_bytes e = putUvarint (te_keySym e) @ putUvarint (te_valSym e) @ putUvarint (te_off e)"

text \<open>\<open>sort.Slice\<close> leaves the order of equal keys open; the keys of a block are distinct.\<close>

definition sort_series :: "blockSeries list \<Rightarrow> blockSeries list" where
  "sort_series = sort_key (\<lambda>s. series_Key (bse_ref s))"

definition index_writeTo :: "blockSeries list \<Rightarrow> byte list" where
  "index_writeTo unsorted =
     (let series = sort_series unsorted;
          (syms, symID) = buildSymbols series;
          buf0 = putUint32BE indexMagic @ [indexVersion];
          buf1 = buf0 @ symbols_bytes syms;
          buf2 = buf1 @ putUvarint (of_nat (length series)) @ concat (map (series_bytes symID) series);
          (table, buf3) = put_lists symID (invert series) buf2;
          buf4 = buf3 @ putUvarint (of_nat (length table)) @ concat (map entry_bytes table);
          buf5 = buf4 @ concat (map (\<lambda>b. putUint64BE (of_nat (length b))) [buf0, buf1, buf2, buf3])
      in buf5 @ putUint32BE (crc32c buf5))"

section \<open>The decoder\<close>

record bdecoder =
  bd_b :: "byte list"
  bd_err :: "block_error option"

definition bd_uvarint :: "bdecoder \<Rightarrow> u64 \<times> bdecoder" where
  "bd_uvarint d =
     (if bd_err d \<noteq> None then (0, d)
      else let (v, n) = getUvarint (bd_b d)
           in if n \<le> 0 then (0, d\<lparr>bd_err := Some TruncatedUvarintB\<rparr>)
              else (v, d\<lparr>bd_b := drop (nat n) (bd_b d)\<rparr>))"

definition bd_varint :: "bdecoder \<Rightarrow> i64 \<times> bdecoder" where
  "bd_varint d =
     (if bd_err d \<noteq> None then (0, d)
      else let (v, n) = getVarint (bd_b d)
           in if n \<le> 0 then (0, d\<lparr>bd_err := Some TruncatedVarintB\<rparr>)
              else (v, d\<lparr>bd_b := drop (nat n) (bd_b d)\<rparr>))"

definition bd_str :: "bdecoder \<Rightarrow> string \<times> bdecoder" where
  "bd_str d =
     (let (n, d1) = bd_uvarint d
      in if bd_err d1 \<noteq> None then ([], d1)
         else if of_nat (length (bd_b d1)) < n then ([], d1\<lparr>bd_err := Some (StringExceeds n)\<rparr>)
         else (bytes_string (take (unat n) (bd_b d1)), d1\<lparr>bd_b := drop (unat n) (bd_b d1)\<rparr>))"

section \<open>Reading\<close>

record indexReader =
  ir_symbols :: "string list"
  ir_series :: "blockSeries list"
  ir_postings :: "byte list"
  ir_table :: "tableEntry list"
  ir_all :: "u64 list"
  ir_symID :: symIDs

definition ir_sym :: "string list \<Rightarrow> u64 \<Rightarrow> block_error + string" where
  "ir_sym symbols i = (if of_nat (length symbols) \<le> i then Inl (SymbolOutside i) else Inr (symbols ! unat i))"

fun read_strs :: "nat \<Rightarrow> bdecoder \<Rightarrow> block_error + string list" where
  "read_strs 0 d = Inr []"
| "read_strs (Suc n) d =
     (let (s, d1) = bd_str d
      in case bd_err d1 of
           Some e \<Rightarrow> Inl e
         | None \<Rightarrow> (case read_strs n d1 of Inl e \<Rightarrow> Inl e | Inr ss \<Rightarrow> Inr (s # ss)))"

definition readSymbols :: "bdecoder \<Rightarrow> block_error + string list" where
  "readSymbols d =
     (let (n, d1) = bd_uvarint d
      in if bd_err d1 \<noteq> None \<or> of_nat (length (bd_b d1)) < n then Inl (ClaimsSymbols n)
         else read_strs (unat n) d1)"

text \<open>The ordinals of the symbols; where a symbol is repeated its last ordinal stands.\<close>

definition symbol_ids :: "string list \<Rightarrow> symIDs" where
  "symbol_ids symbols = rev (zip symbols (map of_nat [0..<length symbols]))"

fun read_tag_syms :: "string list \<Rightarrow> nat \<Rightarrow> bdecoder \<Rightarrow> block_error + (Tag list \<times> bdecoder)" where
  "read_tag_syms symbols 0 d = Inr ([], d)"
| "read_tag_syms symbols (Suc n) d =
     (let (i, d1) = bd_uvarint d
      in case ir_sym symbols i of
           Inl e \<Rightarrow> Inl e
         | Inr k \<Rightarrow>
             let (j, d2) = bd_uvarint d1
             in case ir_sym symbols j of
                  Inl e \<Rightarrow> Inl e
                | Inr v \<Rightarrow> (case read_tag_syms symbols n d2 of
                    Inl e \<Rightarrow> Inl e
                  | Inr (ts, d3) \<Rightarrow> Inr (\<lparr>tag_Key = k, tag_Value = v\<rparr> # ts, d3)))"

fun read_chunkRefs :: "nat \<Rightarrow> bdecoder \<Rightarrow> chunkRef list \<times> bdecoder" where
  "read_chunkRefs 0 d = ([], d)"
| "read_chunkRefs (Suc n) d =
     (let (minT, d1) = bd_varint d; (span, d2) = bd_uvarint d1; (off, d3) = bd_uvarint d2; (recLen, d4) = bd_uvarint d3;
          (cs, d5) = read_chunkRefs n d4
      in (\<lparr>cf_minT = minT, cf_maxT = minT + span, cf_off = off, cf_recLen = recLen\<rparr> # cs, d5))"

definition read_one :: "string list \<Rightarrow> bdecoder \<Rightarrow> block_error + (blockSeries \<times> bdecoder)" where
  "read_one symbols d =
     (let (i, d1) = bd_uvarint d
      in case ir_sym symbols i of
           Inl e \<Rightarrow> Inl e
         | Inr metric \<Rightarrow>
             let (ntags, d2) = bd_uvarint d1
             in if bd_err d2 \<noteq> None \<or> of_nat (length (bd_b d2)) < ntags then Inl (ClaimsTags ntags)
                else case read_tag_syms symbols (unat ntags) d2 of
                  Inl e \<Rightarrow> Inl e
                | Inr (tags, d3) \<Rightarrow>
                    let (nchunks, d4) = bd_uvarint d3
                    in if bd_err d4 \<noteq> None \<or> of_nat (length (bd_b d4)) < nchunks then Inl (ClaimsChunks nchunks)
                       else let (chunks, d5) = read_chunkRefs (unat nchunks) d4
                            in case bd_err d5 of
                                 Some e \<Rightarrow> Inl e
                               | None \<Rightarrow> Inr (\<lparr>bse_ref = \<lparr>ref_Metric = metric, ref_Tags = tags\<rparr>, bse_chunks = chunks\<rparr>, d5))"

fun read_all :: "string list \<Rightarrow> nat \<Rightarrow> bdecoder \<Rightarrow> block_error + blockSeries list" where
  "read_all symbols 0 d = Inr []"
| "read_all symbols (Suc n) d =
     (case read_one symbols d of
        Inl e \<Rightarrow> Inl e
      | Inr (s, d1) \<Rightarrow> (case read_all symbols n d1 of Inl e \<Rightarrow> Inl e | Inr ss \<Rightarrow> Inr (s # ss)))"

definition readSeries :: "string list \<Rightarrow> bdecoder \<Rightarrow> block_error + blockSeries list" where
  "readSeries symbols d =
     (let (n, d1) = bd_uvarint d
      in if bd_err d1 \<noteq> None \<or> of_nat (length (bd_b d1)) < n then Inl (ClaimsSeries n)
         else read_all symbols (unat n) d1)"

fun read_entries :: "byte list \<Rightarrow> nat \<Rightarrow> bdecoder \<Rightarrow> block_error + tableEntry list" where
  "read_entries postings 0 d = (case bd_err d of Some e \<Rightarrow> Inl e | None \<Rightarrow> Inr [])"
| "read_entries postings (Suc n) d =
     (let (k, d1) = bd_uvarint d; (v, d2) = bd_uvarint d1; (off, d3) = bd_uvarint d2
      in if of_nat (length postings) \<le> off then Inl PostingsOutside
         else case read_entries postings n d3 of
                Inl e \<Rightarrow> Inl e
              | Inr es \<Rightarrow> Inr (\<lparr>te_keySym = k, te_valSym = v, te_off = off\<rparr> # es))"

definition readTable :: "byte list \<Rightarrow> bdecoder \<Rightarrow> block_error + tableEntry list" where
  "readTable postings d =
     (let (n, d1) = bd_uvarint d
      in if bd_err d1 \<noteq> None \<or> of_nat (length (bd_b d1)) < n then Inl (ClaimsLists n)
         else read_entries postings (unat n) d1)"

definition openIndexReader :: "byte list \<Rightarrow> block_error + indexReader" where
  "openIndexReader b =
     (if length b < indexHeadLen + tocLen + 4 then Inl IndexShort
      else if getUint32BE b \<noteq> indexMagic then Inl (NotIndexFile (getUint32BE b))
      else if b ! 4 \<noteq> indexVersion then Inl (IndexVersion (b ! 4))
      else
        let body = take (length b - 4) b
        in if crc32c body \<noteq> getUint32BE (drop (length b - 4) b) then Inl CorruptIndex
           else
             let toc = drop (length body - tocLen) body;
                 offs = map (\<lambda>i. getUint64BE (drop (i * 8) toc)) [0..<4];
                 dec = (\<lambda>i. \<lparr>bd_b = drop (unat (offs ! i)) body, bd_err = None\<rparr>)
             in if list_ex (\<lambda>off. of_nat (length body) < off) offs then Inl TOCOutside
                else case readSymbols (dec 0) of
                  Inl e \<Rightarrow> Inl e
                | Inr symbols \<Rightarrow> (case readSeries symbols (dec 1) of
                    Inl e \<Rightarrow> Inl e
                  | Inr series \<Rightarrow> (case readTable body (dec 3) of
                      Inl e \<Rightarrow> Inl e
                    | Inr table \<Rightarrow>
                        Inr \<lparr>ir_symbols = symbols, ir_series = series, ir_postings = body, ir_table = table,
                             ir_all = map of_nat [0..<length series], ir_symID = symbol_ids symbols\<rparr>)))"

section \<open>Lookups\<close>

fun read_ids :: "bool \<Rightarrow> nat \<Rightarrow> u64 \<Rightarrow> bdecoder \<Rightarrow> u64 list" where
  "read_ids first 0 prev d = []"
| "read_ids first (Suc n) prev d =
     (let (delta, d1) = bd_uvarint d
      in if bd_err d1 \<noteq> None then []
         else let prev' = (if first then delta else prev + delta) in prev' # read_ids False n prev' d1)"

definition readPostings :: "byte list \<Rightarrow> u64 \<Rightarrow> u64 list" where
  "readPostings postings off =
     (let (n, d) = bd_uvarint \<lparr>bd_b = drop (unat off) postings, bd_err = None\<rparr>
      in if bd_err d \<noteq> None \<or> of_nat (length (bd_b d)) + 1 < n then [] else read_ids True (unat n) 0 d)"

definition ir_Postings :: "indexReader \<Rightarrow> string \<Rightarrow> string \<Rightarrow> u64 list" where
  "ir_Postings r key val =
     (case map_of (ir_symID r) key of
        None \<Rightarrow> []
      | Some k \<Rightarrow> (case map_of (ir_symID r) val of
          None \<Rightarrow> []
        | Some v \<Rightarrow>
            let t = ir_table r;
                i = sort_Search (length t) (\<lambda>i. k < te_keySym (t ! i) \<or> te_keySym (t ! i) = k \<and> v \<le> te_valSym (t ! i))
            in if i = length t \<or> te_keySym (t ! i) \<noteq> k \<or> te_valSym (t ! i) \<noteq> v then []
               else readPostings (ir_postings r) (te_off (t ! i))))"

text \<open>A run of symbols, up to the first that is not in the table of symbols.\<close>

fun resolve_syms :: "string list \<Rightarrow> u64 list \<Rightarrow> string list" where
  "resolve_syms symbols [] = []"
| "resolve_syms symbols (i # is) = (case ir_sym symbols i of Inl _ \<Rightarrow> [] | Inr s \<Rightarrow> s # resolve_syms symbols is)"

definition ir_TagValues :: "indexReader \<Rightarrow> string \<Rightarrow> string list" where
  "ir_TagValues r key =
     (case map_of (ir_symID r) key of
        None \<Rightarrow> []
      | Some k \<Rightarrow>
          let t = ir_table r; i = sort_Search (length t) (\<lambda>i. k \<le> te_keySym (t ! i))
          in resolve_syms (ir_symbols r) (map te_valSym (takeWhile (\<lambda>e. te_keySym e = k) (drop i t))))"

definition ir_TagKeys :: "indexReader \<Rightarrow> string list" where
  "ir_TagKeys r = resolve_syms (ir_symbols r) (remdups_adj (map te_keySym (ir_table r)))"

definition ir_Lookup :: "indexReader \<Rightarrow> Lookup" where
  "ir_Lookup r = \<lparr>lk_Postings = ir_Postings r, lk_TagValues = ir_TagValues r, lk_TagKeys = ir_TagKeys r, lk_AllSeries = ir_all r\<rparr>"

end
