(* ===== verification/Block_Index_Read.thy ===== *)
theory Block_Index_Read
  imports Block_Index
begin

text \<open>
  What the index writer writes, the index reader reads back; and the parsed index meets the contract
  of an index, so every query over \<open>Lookup\<close> is as exact on a block as it is on the head.
\<close>

section \<open>Fields\<close>

lemma claim_ok:
  assumes "n \<le> length b" and "length b < 2 ^ 63"
  shows "\<not> of_nat (length b) < (of_nat n :: u64)" and "unat (of_nat n :: u64) = n"
proof -
  have "unat (of_nat (length b) :: u64) = length b" using assms(2) by (rule unat_of_nat_63)
  moreover show n: "unat (of_nat n :: u64) = n" using assms by (intro unat_of_nat_63) simp
  ultimately show "\<not> of_nat (length b) < (of_nat n :: u64)" using assms(1) by (simp add: word_less_nat_alt)
qed

lemma bd_uvarint_put [simp]:
  "bd_uvarint \<lparr>bd_b = putUvarint u @ rest, bd_err = None\<rparr> = (u, \<lparr>bd_b = rest, bd_err = None\<rparr>)"
  using length_putUvarint(1) [of u] by (simp add: bd_uvarint_def getUvarint_put)

lemma bd_varint_put [simp]:
  "bd_varint \<lparr>bd_b = putVarint v @ rest, bd_err = None\<rparr> = (v, \<lparr>bd_b = rest, bd_err = None\<rparr>)"
  using length_putUvarint(1) [of "zigzag v"] by (simp add: bd_varint_def getVarint_put) (simp add: putVarint_def)

lemma bd_str_put:
  assumes "length (string_bytes s @ rest) < 2 ^ 63"
  shows "bd_str \<lparr>bd_b = putUvarint (of_nat (length s)) @ string_bytes s @ rest, bd_err = None\<rparr> = (s, \<lparr>bd_b = rest, bd_err = None\<rparr>)"
proof -
  have "length s \<le> length (string_bytes s @ rest)" by simp
  note c = claim_ok [OF this assms]
  have "\<not> (of_nat (length s) + of_nat (length rest) :: u64) < of_nat (length s)" using c(1) by simp
  then show ?thesis by (simp add: bd_str_def c(2))
qed

lemma read_strs_put:
  "length (concat (map (\<lambda>s. putUvarint (of_nat (length s)) @ string_bytes s) ss) @ rest) < 2 ^ 63 \<Longrightarrow>
    read_strs (length ss) \<lparr>bd_b = concat (map (\<lambda>s. putUvarint (of_nat (length s)) @ string_bytes s) ss) @ rest, bd_err = None\<rparr> = Inr ss"
proof (induction ss)
  case (Cons s ss)
  let ?c = "concat (map (\<lambda>s. putUvarint (of_nat (length s)) @ string_bytes s) ss) @ rest"
  have "length (string_bytes s @ ?c) < 2 ^ 63" "length ?c < 2 ^ 63" using Cons.prems by simp_all
  with Cons.IH bd_str_put [of s ?c] show ?case by simp
qed simp

lemma length_le_concat: "(\<And>x. x \<in> set xs \<Longrightarrow> f x \<noteq> []) \<Longrightarrow> length xs \<le> length (concat (map f xs))"
  using length_concat_ge [of xs 1 f] by (simp add: Suc_leI)

lemma readSymbols_put:
  assumes "length (symbols_bytes syms @ rest) < 2 ^ 63"
  shows "readSymbols \<lparr>bd_b = symbols_bytes syms @ rest, bd_err = None\<rparr> = Inr syms" "length syms < 2 ^ 63"
proof -
  let ?f = "\<lambda>s. putUvarint (of_nat (length s)) @ string_bytes s"
  let ?c = "concat (map ?f syms) @ rest"
  have l: "length ?c < 2 ^ 63" "length syms \<le> length ?c"
    using assms length_le_concat [of syms ?f] by (simp_all add: symbols_bytes_def)
  then show "length syms < 2 ^ 63" by simp
  show "readSymbols \<lparr>bd_b = symbols_bytes syms @ rest, bd_err = None\<rparr> = Inr syms"
    using read_strs_put [OF l(1)] claim_ok [OF l(2,1)] by (simp add: readSymbols_def symbols_bytes_def del: length_append)
qed

section \<open>Symbols\<close>

abbreviation ordinals :: "string list \<Rightarrow> symIDs" where
  "ordinals syms \<equiv> zip syms (map of_nat [0..<length syms])"

lemma map_of_ordinals:
  assumes "distinct syms" and "i < length syms"
  shows "map_of (ordinals syms) (syms ! i) = Some (of_nat i)"
  using assms by (intro map_of_is_SomeI) (auto simp: set_zip intro!: exI [of _ i])

lemma map_of_symbol_ids: "distinct syms \<Longrightarrow> map_of (symbol_ids syms) = map_of (ordinals syms)"
  unfolding symbol_ids_def by (rule map_of_inject_set [THEN iffD2]) (simp_all add: rev_map [symmetric])

lemma sym_ord_nth: "distinct syms \<Longrightarrow> i < length syms \<Longrightarrow> sym_ord (ordinals syms) (syms ! i) = of_nat i"
  by (simp add: sym_ord_def map_of_ordinals)

lemma ir_sym_ord:
  assumes "distinct syms" and "length syms < 2 ^ 63" and "s \<in> set syms"
  shows "ir_sym syms (sym_ord (ordinals syms) s) = Inr s"
proof -
  obtain i where i: "i < length syms" "s = syms ! i" using assms(3) by (metis in_set_conv_nth)
  then have "unat (of_nat i :: u64) = i" "unat (of_nat (length syms) :: u64) = length syms"
    using assms(2) by (simp_all add: unat_of_nat_63)
  then show ?thesis using i by (simp add: ir_sym_def sym_ord_nth [OF assms(1)] word_le_nat_alt)
qed

text \<open>Sorted symbols have sorted ordinals.\<close>

lemma sym_ord_less:
  assumes "sorted syms" "distinct syms" "length syms < 2 ^ 63" "s \<in> set syms" "t \<in> set syms"
  shows "sym_ord (ordinals syms) s < sym_ord (ordinals syms) t \<longleftrightarrow> s < t"
    "sym_ord (ordinals syms) s = sym_ord (ordinals syms) t \<longleftrightarrow> s = t"
proof -
  obtain i j where ij: "i < length syms" "s = syms ! i" "j < length syms" "t = syms ! j"
    using assms(4,5) by (metis in_set_conv_nth)
  then have u: "unat (of_nat i :: u64) = i" "unat (of_nat j :: u64) = j" using assms(3) by (simp_all add: unat_of_nat_63)
  have o: "sym_ord (ordinals syms) s = of_nat i" "sym_ord (ordinals syms) t = of_nat j"
    using ij sym_ord_nth [OF assms(2)] by simp_all
  have "syms ! i < syms ! j \<longleftrightarrow> i < j"
    using ij assms(1,2) by (metis linorder_neqE_nat not_less_iff_gr_or_eq nth_eq_iff_index_eq sorted_wrt_nth_less strict_sorted_iff)
  then show "sym_ord (ordinals syms) s < sym_ord (ordinals syms) t \<longleftrightarrow> s < t"
    unfolding o word_less_nat_alt u using ij by simp
  have "(of_nat i :: u64) = of_nat j \<longleftrightarrow> i = j" using u by metis
  then show "sym_ord (ordinals syms) s = sym_ord (ordinals syms) t \<longleftrightarrow> s = t"
    unfolding o using ij nth_eq_iff_index_eq [OF assms(2)] by simp
qed

definition series_syms :: "blockSeries \<Rightarrow> string set" where
  "series_syms s = insert (ref_Metric (bse_ref s)) (tag_Key ` set (ref_Tags (bse_ref s)) \<union> tag_Value ` set (ref_Tags (bse_ref s)))"

lemma symbol_set_props:
  "distinct (symbol_set series)" "set (symbol_set series) = insert MetricName (\<Union>s \<in> set series. series_syms s)"
proof -
  let ?tags = "\<lambda>t syms. List.insert (tag_Value t) (List.insert (tag_Key t) syms)"
  have tags: "distinct (fold ?tags ts syms) = distinct syms \<and>
      set (fold ?tags ts syms) = set syms \<union> tag_Key ` set ts \<union> tag_Value ` set ts" for ts syms
    by (induction ts arbitrary: syms) auto
  let ?one = "\<lambda>s syms. fold ?tags (ref_Tags (bse_ref s)) (List.insert (ref_Metric (bse_ref s)) syms)"
  have "distinct (fold ?one series syms) = distinct syms \<and> set (fold ?one series syms) = set syms \<union> (\<Union>s \<in> set series. series_syms s)" for syms
    by (induction series arbitrary: syms) (auto simp: tags series_syms_def)
  from this [of "[MetricName]"] show "distinct (symbol_set series)"
      "set (symbol_set series) = insert MetricName (\<Union>s \<in> set series. series_syms s)"
    by (auto simp: symbol_set_def)
qed

section \<open>Series\<close>

lemma read_tag_syms_put:
  assumes "distinct syms" "length syms < 2 ^ 63"
  shows "\<forall>t \<in> set ts. tag_Key t \<in> set syms \<and> tag_Value t \<in> set syms \<Longrightarrow>
    read_tag_syms syms (length ts) \<lparr>bd_b = concat (map (tag_sym_bytes (ordinals syms)) ts) @ rest, bd_err = None\<rparr> =
      Inr (ts, \<lparr>bd_b = rest, bd_err = None\<rparr>)"
  by (induction ts) (simp_all add: tag_sym_bytes_def ir_sym_ord [OF assms])

lemma read_chunkRefs_put:
  "read_chunkRefs (length cs) \<lparr>bd_b = concat (map chunkRef_bytes cs) @ rest, bd_err = None\<rparr> = (cs, \<lparr>bd_b = rest, bd_err = None\<rparr>)"
  by (induction cs) (simp_all add: chunkRef_bytes_def)

lemma series_bytes_nonempty: "series_bytes ids s \<noteq> []" "tag_sym_bytes ids t \<noteq> []" "chunkRef_bytes c \<noteq> []"
  by (simp_all add: series_bytes_def tag_sym_bytes_def chunkRef_bytes_def)

lemma read_one_put:
  assumes syms: "distinct syms" "length syms < 2 ^ 63" and s: "series_syms s \<subseteq> set syms"
    and fits: "length (series_bytes (ordinals syms) s @ rest) < 2 ^ 63"
  shows "read_one syms \<lparr>bd_b = series_bytes (ordinals syms) s @ rest, bd_err = None\<rparr> = Inr (s, \<lparr>bd_b = rest, bd_err = None\<rparr>)"
proof -
  let ?ts = "ref_Tags (bse_ref s)" and ?cs = "bse_chunks s"
  let ?c = "concat (map chunkRef_bytes ?cs) @ rest"
  let ?t = "concat (map (tag_sym_bytes (ordinals syms)) ?ts) @ putUvarint (of_nat (length ?cs)) @ ?c"
  have l: "length ?t < 2 ^ 63" "length ?c < 2 ^ 63" using fits by (simp_all add: series_bytes_def)
  have "length ?cs \<le> length (concat (map chunkRef_bytes ?cs))" by (rule length_le_concat) (rule series_bytes_nonempty)
  then have "length ?cs \<le> length ?c" by simp
  note c = claim_ok [OF this l(2)]
  have "length ?ts \<le> length (concat (map (tag_sym_bytes (ordinals syms)) ?ts))"
    by (rule length_le_concat) (rule series_bytes_nonempty)
  then have "length ?ts \<le> length ?t" by simp
  note t = claim_ok [OF this l(1)]
  have m: "ir_sym syms (sym_ord (ordinals syms) (ref_Metric (bse_ref s))) = Inr (ref_Metric (bse_ref s))"
    using s by (intro ir_sym_ord syms) (simp add: series_syms_def)
  have tags: "read_tag_syms syms (length ?ts) \<lparr>bd_b = ?t, bd_err = None\<rparr> =
      Inr (?ts, \<lparr>bd_b = putUvarint (of_nat (length ?cs)) @ ?c, bd_err = None\<rparr>)"
    using s by (intro read_tag_syms_put syms) (auto simp: series_syms_def)
  show ?thesis
    using c t m tags read_chunkRefs_put [of ?cs rest] by (simp add: read_one_def series_bytes_def del: length_append)
qed

lemma read_all_put:
  assumes syms: "distinct syms" "length syms < 2 ^ 63"
  shows "\<forall>s \<in> set ss. series_syms s \<subseteq> set syms \<Longrightarrow>
    length (concat (map (series_bytes (ordinals syms)) ss) @ rest) < 2 ^ 63 \<Longrightarrow>
    read_all syms (length ss) \<lparr>bd_b = concat (map (series_bytes (ordinals syms)) ss) @ rest, bd_err = None\<rparr> = Inr ss"
proof (induction ss)
  case (Cons s ss)
  let ?c = "concat (map (series_bytes (ordinals syms)) ss) @ rest"
  have "read_one syms \<lparr>bd_b = series_bytes (ordinals syms) s @ ?c, bd_err = None\<rparr> = Inr (s, \<lparr>bd_b = ?c, bd_err = None\<rparr>)"
    using Cons.prems by (intro read_one_put syms) simp_all
  then show ?case using Cons by simp
qed simp

lemma readSeries_put:
  fixes ss :: "blockSeries list" and syms :: "string list"
  defines "bytes \<equiv> putUvarint (of_nat (length ss)) @ concat (map (series_bytes (ordinals syms)) ss)"
  assumes syms: "distinct syms" "length syms < 2 ^ 63" "\<forall>s \<in> set ss. series_syms s \<subseteq> set syms"
    and fits: "length (bytes @ rest) < 2 ^ 63"
  shows "readSeries syms \<lparr>bd_b = bytes @ rest, bd_err = None\<rparr> = Inr ss" "length ss < 2 ^ 63"
proof -
  let ?c = "concat (map (series_bytes (ordinals syms)) ss) @ rest"
  have "length ss \<le> length (concat (map (series_bytes (ordinals syms)) ss))"
    by (rule length_le_concat) (rule series_bytes_nonempty)
  then have l: "length ss \<le> length ?c" "length ?c < 2 ^ 63" using fits by (simp_all add: bytes_def)
  then show "length ss < 2 ^ 63" by simp
  show "readSeries syms \<lparr>bd_b = bytes @ rest, bd_err = None\<rparr> = Inr ss"
    using claim_ok [OF l] read_all_put [OF syms l(2)] by (simp add: readSeries_def bytes_def del: length_append)
qed

section \<open>Postings and their table\<close>

lemma read_ids_deltas:
  "read_ids False (length ids) prev \<lparr>bd_b = deltas prev ids @ rest, bd_err = None\<rparr> = ids"
  by (induction ids arbitrary: prev) simp_all

lemma length_deltas: "length ids \<le> length (deltas prev ids)"
proof (induction ids arbitrary: prev)
  case (Cons i ids)
  from Cons.IH [of i] length_putUvarint(1) [of "i - prev"] show ?case
    unfolding deltas.simps length_append list.size by linarith
qed simp

lemma unat_Suc_63: "n < 2 ^ 63 \<Longrightarrow> unat (of_nat n + 1 :: u64) = Suc n"
proof -
  assume "n < 2 ^ 63"
  then have "Suc n < 2 ^ LENGTH(64)" by simp
  then have "unat (of_nat (Suc n) :: u64) = Suc n" by (simp add: unat_of_nat del: of_nat_Suc)
  then show ?thesis by (simp add: add.commute)
qed

lemma readPostings_put:
  assumes "length (pre @ postings_bytes ids @ rest) < 2 ^ 63"
  shows "readPostings (pre @ postings_bytes ids @ rest) (of_nat (length pre)) = ids"
proof (cases ids)
  case Nil
  have "unat (of_nat (length pre) :: u64) = length pre" using assms by (intro unat_of_nat_63) simp
  with Nil show ?thesis by (simp add: readPostings_def postings_bytes_def)
next
  case (Cons i js)
  let ?c = "putUvarint i @ deltas i js @ rest"
  have pre: "unat (of_nat (length pre) :: u64) = length pre" using assms by (intro unat_of_nat_63) simp
  have c: "length ?c < 2 ^ 63" using assms by (simp add: postings_bytes_def Cons)
  moreover have "length ids \<le> length ?c"
    using length_deltas [of js i] length_putUvarint(1) [of i] unfolding Cons length_append list.size by linarith
  ultimately have n: "unat (of_nat (length ids) :: u64) = length ids" and le: "length ids \<le> length ?c + 1"
    by (simp_all add: unat_of_nat_63)
  have "unat (of_nat (length ?c) + 1 :: u64) = length ?c + 1"
    using unat_Suc_63 [OF c] by simp
  then have claim: "\<not> of_nat (length ?c) + 1 < (of_nat (length ids) :: u64)"
    unfolding word_less_nat_alt n using le by simp
  have "drop (unat (of_nat (length pre) :: u64)) (pre @ postings_bytes ids @ rest) = putUvarint (of_nat (length ids)) @ ?c"
    unfolding pre by (simp add: postings_bytes_def Cons)
  then have "readPostings (pre @ postings_bytes ids @ rest) (of_nat (length pre)) = read_ids True (length ids) 0 \<lparr>bd_b = ?c, bd_err = None\<rparr>"
    using claim n by (simp add: readPostings_def del: length_append)
  also have "\<dots> = ids" by (simp add: Cons read_ids_deltas)
  finally show ?thesis .
qed

lemma put_lists_spec:
  assumes "put_lists ids ls buf = (table, buf')"
  shows "buf' = buf @ concat (map (\<lambda>l. postings_bytes (pl_ids l)) ls) \<and> length table = length ls \<and>
    (\<forall>i < length ls. table ! i = \<lparr>te_keySym = sym_ord ids (pl_key (ls ! i)), te_valSym = sym_ord ids (pl_value (ls ! i)),
       te_off = of_nat (length (buf @ concat (map (\<lambda>l. postings_bytes (pl_ids l)) (take i ls))))\<rparr>)"
  using assms
proof (induction ls arbitrary: buf table)
  case (Cons l ls)
  obtain table' where t: "put_lists ids ls (buf @ postings_bytes (pl_ids l)) = (table', buf')"
      "table = \<lparr>te_keySym = sym_ord ids (pl_key l), te_valSym = sym_ord ids (pl_value l), te_off = of_nat (length buf)\<rparr> # table'"
    using Cons.prems by (auto split: prod.splits)
  from Cons.IH [OF t(1)] t(2) show ?case by (auto simp: nth_Cons' add.assoc take_Cons' split: nat.splits)
qed simp

lemma read_entries_put:
  "\<forall>e \<in> set es. te_off e < of_nat (length postings) \<Longrightarrow>
    read_entries postings (length es) \<lparr>bd_b = concat (map entry_bytes es) @ rest, bd_err = None\<rparr> = Inr es"
  by (induction es) (simp_all add: entry_bytes_def not_le)

lemma readTable_put:
  fixes es :: "tableEntry list"
  defines "bytes \<equiv> putUvarint (of_nat (length es)) @ concat (map entry_bytes es)"
  assumes "\<forall>e \<in> set es. te_off e < of_nat (length postings)" and fits: "length (bytes @ rest) < 2 ^ 63"
  shows "readTable postings \<lparr>bd_b = bytes @ rest, bd_err = None\<rparr> = Inr es"
proof -
  let ?c = "concat (map entry_bytes es) @ rest"
  have "length es \<le> length (concat (map entry_bytes es))" by (rule length_le_concat) (simp add: entry_bytes_def)
  then have l: "length es \<le> length ?c" "length ?c < 2 ^ 63" using fits by (simp_all add: bytes_def)
  show ?thesis
    using claim_ok [OF l] read_entries_put [OF assms(2)] by (simp add: readTable_def bytes_def del: length_append)
qed

section \<open>The whole file\<close>

lemma getUint64BE_put [simp]: "getUint64BE (putUint64BE u @ rest) = u"
  using getUint64LE_put [of u "[]"] by (simp add: getUint64BE_def putUint64BE_def)

lemma length_putUint64BE [simp]: "length (putUint64BE u) = 8"
  by (simp add: putUint64BE_def)

lemma toc_entries:
  "map (\<lambda>i. getUint64BE (drop (i * 8) (putUint64BE a @ putUint64BE b @ putUint64BE c @ putUint64BE d))) [0..<4] = [a, b, c, d]"
  using getUint64BE_put [of d "[]"] by (simp add: upt_rec)

text \<open>A body with the four sections at the offsets its table of contents gives.\<close>

lemma openIndexReader_sections:
  fixes S R P T :: "byte list"
  defines "H \<equiv> putUint32BE indexMagic @ [indexVersion]"
  defines "toc \<equiv> putUint64BE (of_nat (length H)) @ putUint64BE (of_nat (length (H @ S))) @
     putUint64BE (of_nat (length (H @ S @ R))) @ putUint64BE (of_nat (length (H @ S @ R @ P)))"
  defines "body \<equiv> H @ S @ R @ P @ T @ toc"
  assumes fits: "length body < 2 ^ 63"
    and S: "readSymbols \<lparr>bd_b = S @ R @ P @ T @ toc, bd_err = None\<rparr> = Inr symbols"
    and R: "readSeries symbols \<lparr>bd_b = R @ P @ T @ toc, bd_err = None\<rparr> = Inr series"
    and T: "readTable body \<lparr>bd_b = T @ toc, bd_err = None\<rparr> = Inr table"
  shows "openIndexReader (body @ putUint32BE (crc32c body)) =
    Inr \<lparr>ir_symbols = symbols, ir_series = series, ir_postings = body, ir_table = table,
         ir_all = map of_nat [0..<length series], ir_symID = symbol_ids symbols\<rparr>"
proof -
  let ?b = "body @ putUint32BE (crc32c body)"
  have toclen: "length toc = tocLen" by (simp add: toc_def tocLen_def)
  have long: "\<not> length ?b < indexHeadLen + tocLen + 4" using toclen by (simp add: body_def H_def indexHeadLen_def)
  have magic: "getUint32BE ?b = indexMagic" "?b ! 4 = indexVersion" by (simp_all add: body_def H_def nth_append)
  have cut: "take (length ?b - 4) ?b = body" "drop (length ?b - 4) ?b = putUint32BE (crc32c body)" by simp_all
  have sum: "getUint32BE (putUint32BE (crc32c body)) = crc32c body" using getUint32BE_put [of _ "[]"] by simp
  have dtoc: "drop (length body - tocLen) body = toc" by (simp add: body_def toclen [symmetric])
  define offs where "offs = [length H, length (H @ S), length (H @ S @ R), length (H @ S @ R @ P)]"
  have offs: "map (\<lambda>i. getUint64BE (drop (i * 8) toc)) [0..<4] = map of_nat offs"
    unfolding toc_def toc_entries offs_def by simp
  have le: "n \<le> length body" if "n \<in> set offs" for n using that by (auto simp: offs_def body_def)
  have u: "unat (of_nat n :: u64) = n" if "n \<in> set offs" for n using le [OF that] fits by (intro unat_of_nat_63) simp
  have inside: "\<not> list_ex (\<lambda>off. of_nat (length body) < off) (map of_nat offs :: u64 list)"
    using claim_ok(1) [OF le fits] by (simp add: list_ex_iff)
  have d: "drop (unat ((map of_nat offs :: u64 list) ! i)) body = drop (offs ! i) body" if "i < 4" for i
  proof -
    have "i < length offs" using that by (simp add: offs_def)
    then show ?thesis using u [of "offs ! i"] by simp
  qed
  have d0: "drop (unat ((map of_nat offs :: u64 list) ! 0)) body = S @ R @ P @ T @ toc"
    and d1: "drop (unat ((map of_nat offs :: u64 list) ! 1)) body = R @ P @ T @ toc"
    and d3: "drop (unat ((map of_nat offs :: u64 list) ! 3)) body = T @ toc"
    using d [of 0] d [of 1] d [of 3] by (simp_all only:) (simp_all add: offs_def body_def)
  show ?thesis
    unfolding openIndexReader_def Let_def cut magic dtoc offs sum if_not_P [OF long] if_not_P [OF inside] d0 d1 d3 S R T sum.case
    by simp
qed

text \<open>What opening a written index gives: the sorted series, and a table over the bytes of the lists.\<close>

definition index_built :: "blockSeries list \<Rightarrow> indexReader \<Rightarrow> bool" where
  "index_built series r \<longleftrightarrow>
     (let syms = sort (symbol_set series); ls = invert series
      in ir_symbols r = syms \<and> length syms < 2 ^ 63 \<and> length series < 2 ^ 63 \<and> ir_series r = series \<and>
         ir_all r = map of_nat [0..<length series] \<and> ir_symID r = symbol_ids syms \<and>
         (\<exists>pre rest. length (ir_postings r) < 2 ^ 63 \<and>
            ir_postings r = pre @ concat (map (\<lambda>l. postings_bytes (pl_ids l)) ls) @ rest \<and>
            fst (put_lists (ordinals syms) ls pre) = ir_table r))"

lemma series_syms_covered:
  assumes "s \<in> set series"
  shows "series_syms s \<subseteq> set (sort (symbol_set series))"
  using assms by (auto simp: symbol_set_props)

theorem open_writeTo:
  assumes "length (index_writeTo xs) < 2 ^ 63"
  shows "\<exists>r. openIndexReader (index_writeTo xs) = Inr r \<and> index_built (sort_series xs) r"
proof -
  let ?series = "sort_series xs"
  let ?syms = "sort (symbol_set ?series)"
  let ?H = "putUint32BE indexMagic @ [indexVersion]" and ?S = "symbols_bytes ?syms"
  let ?R = "putUvarint (of_nat (length ?series)) @ concat (map (series_bytes (ordinals ?syms)) ?series)"
  let ?P = "concat (map (\<lambda>l. postings_bytes (pl_ids l)) (invert ?series))"
  obtain table buf where t: "put_lists (ordinals ?syms) (invert ?series) (?H @ ?S @ ?R) = (table, buf)" by force
  note tab = put_lists_spec [OF t]
  then have buf: "buf = ?H @ ?S @ ?R @ ?P" by simp
  let ?T = "putUvarint (of_nat (length table)) @ concat (map entry_bytes table)"
  let ?toc = "putUint64BE (of_nat (length ?H)) @ putUint64BE (of_nat (length (?H @ ?S))) @
     putUint64BE (of_nat (length (?H @ ?S @ ?R))) @ putUint64BE (of_nat (length (?H @ ?S @ ?R @ ?P)))"
  let ?body = "?H @ ?S @ ?R @ ?P @ ?T @ ?toc"
  have bytes: "index_writeTo xs = ?body @ putUint32BE (crc32c ?body)"
    by (simp only: index_writeTo_def buildSymbols_def Let_def prod.case append_assoc t [unfolded append_assoc]
        buf [unfolded append_assoc] list.map concat.simps append_Nil2)
  then have fits: "length ?body < 2 ^ 63" using assms by simp
  have syms: "distinct ?syms" by (simp add: symbol_set_props)
  have S: "readSymbols \<lparr>bd_b = ?S @ ?R @ ?P @ ?T @ ?toc, bd_err = None\<rparr> = Inr ?syms" and n: "length ?syms < 2 ^ 63"
    using readSymbols_put [of ?syms "?R @ ?P @ ?T @ ?toc"] fits by (simp_all del: set_sort)
  have R: "readSeries ?syms \<lparr>bd_b = ?R @ ?P @ ?T @ ?toc, bd_err = None\<rparr> = Inr ?series" and m: "length ?series < 2 ^ 63"
    using readSeries_put [of ?syms ?series "?P @ ?T @ ?toc"] syms n series_syms_covered fits by simp_all
  have "te_off e < of_nat (length ?body)" if e: "e \<in> set table" for e
  proof -
    obtain i where i: "i < length table" "e = table ! i" using e unfolding in_set_conv_nth by blast
    let ?n = "length ((?H @ ?S @ ?R) @ concat (map (\<lambda>l. postings_bytes (pl_ids l)) (take i (invert ?series))))"
    have "?P = concat (map (\<lambda>l. postings_bytes (pl_ids l)) (take i (invert ?series))) @
        concat (map (\<lambda>l. postings_bytes (pl_ids l)) (drop i (invert ?series)))"
      unfolding concat_append [symmetric] map_append [symmetric] append_take_drop_id ..
    then have "?n < length ?body" by simp
    moreover have "te_off e = of_nat ?n" using tab i by simp
    ultimately show ?thesis using fits by (simp only: word_less_nat_alt unat_of_nat_63)
  qed
  then have T: "readTable ?body \<lparr>bd_b = ?T @ ?toc, bd_err = None\<rparr> = Inr table"
    using readTable_put [of table ?body ?toc] fits by simp
  let ?r = "\<lparr>ir_symbols = ?syms, ir_series = ?series, ir_postings = ?body, ir_table = table,
         ir_all = map of_nat [0..<length ?series], ir_symID = symbol_ids ?syms\<rparr>"
  have "fst (put_lists (ordinals ?syms) (invert ?series) (?H @ ?S @ ?R)) = table" by (simp only: t fst_conv)
  moreover have "?body = (?H @ ?S @ ?R) @ ?P @ ?T @ ?toc" by (simp only: append_assoc)
  ultimately have "\<exists>pre rest. length ?body < 2 ^ 63 \<and> ?body = pre @ ?P @ rest \<and>
      fst (put_lists (ordinals ?syms) (invert ?series) pre) = table" using fits by blast
  then have "index_built ?series ?r"
    unfolding index_built_def Let_def indexReader.simps using n m by blast
  moreover have "openIndexReader (index_writeTo xs) = Inr ?r"
    unfolding bytes by (rule openIndexReader_sections [OF fits S R T])
  ultimately show ?thesis by blast
qed

end
