(* ===== verification/Block_Lookup.thy ===== *)
theory Block_Lookup
  imports Block_Index_Read
begin

text \<open>
  The parsed index of a block is an index: it interprets the contract \<open>lookup_index\<close>, as the index of
  the head does.
\<close>

section \<open>Inverting\<close>

definition pairs :: "blockSeries \<Rightarrow> (string \<times> string) list" where
  "pairs s = (MetricName, ref_Metric (bse_ref s)) # map (\<lambda>t. (tag_Key t, tag_Value t)) (ref_Tags (bse_ref s))"

lemma carries_pairs: "carries (bse_ref s) k v \<longleftrightarrow> (k, v) \<in> set (pairs s)"
  by (auto simp: carries_def pairs_def)

lemma invert_series_pairs: "invert_series (i, s) m = fold (\<lambda>(k, v). invert_add k v (of_nat i)) (pairs s) m"
  by (simp add: invert_series_def pairs_def fold_map comp_def)

definition look :: "inverted \<Rightarrow> string \<Rightarrow> string \<Rightarrow> u64 list" where
  "look m k v = (case map_of m k of None \<Rightarrow> [] | Some vals \<Rightarrow> case map_of vals v of None \<Rightarrow> [] | Some ids \<Rightarrow> ids)"

definition inverted_ok :: "inverted \<Rightarrow> bool" where
  "inverted_ok m \<longleftrightarrow> distinct (map fst m) \<and>
     (\<forall>k vals. map_of m k = Some vals \<longrightarrow> distinct (map fst vals) \<and> (\<forall>v ids. map_of vals v = Some ids \<longrightarrow> ids \<noteq> []))"

lemma look_add: "look (invert_add k v i m) k' v' = (if (k', v') = (k, v) then look m k v @ [i] else look m k' v')"
  by (auto simp: look_def invert_add_def Let_def update_conv' split: option.splits)

lemma inverted_ok_add: "inverted_ok m \<Longrightarrow> inverted_ok (invert_add k v i m)"
  unfolding inverted_ok_def invert_add_def Let_def
  by (auto simp: update_conv' distinct_update split: option.splits if_splits) fastforce+

lemma look_pairs:
  "look (fold (\<lambda>(k, v). invert_add k v i) ps m) k v = look m k v @ replicate (count_list ps (k, v)) i \<and>
   (inverted_ok m \<longrightarrow> inverted_ok (fold (\<lambda>(k, v). invert_add k v i) ps m))"
  by (induction ps arbitrary: m) (auto simp: look_add inverted_ok_add replicate_app_Cons_same split: prod.splits)

lemma count_list_distinct: "distinct xs \<Longrightarrow> count_list xs x = (if x \<in> set xs then 1 else 0)"
  by (induction xs) auto

definition ids_of :: "blockSeries list \<Rightarrow> string \<Rightarrow> string \<Rightarrow> u64 list" where
  "ids_of series k v = map (\<lambda>(i, s). of_nat i) (filter (\<lambda>(i, s). carries (bse_ref s) k v) (enumerate 0 series))"

lemma look_series:
  assumes "\<forall>s \<in> set (map snd es). distinct (pairs s)"
  shows "look (fold invert_series es m) k v = look m k v @ map (\<lambda>(i, s). of_nat i) (filter (\<lambda>(i, s). carries (bse_ref s) k v) es) \<and>
    (inverted_ok m \<longrightarrow> inverted_ok (fold invert_series es m))"
  using assms
proof (induction es arbitrary: m)
  case (Cons e es)
  obtain i s where e: "e = (i, s)" by force
  have c: "count_list (pairs s) (k, v) = (if carries (bse_ref s) k v then 1 else 0)"
    using Cons.prems by (simp add: e carries_pairs count_list_distinct)
  from Cons.IH [of "invert_series e m"] Cons.prems look_pairs [of "of_nat i" "pairs s" m k v] show ?case
    by (simp add: e invert_series_pairs c)
qed simp

definition flat :: "inverted \<Rightarrow> postingList list" where
  "flat m = concat (map (\<lambda>(k, vals). map (\<lambda>(v, ids). \<lparr>pl_key = k, pl_value = v, pl_ids = ids\<rparr>) vals) m)"

lemma flat_spec:
  assumes "inverted_ok m"
  shows "l \<in> set (flat m) \<longleftrightarrow> pl_ids l = look m (pl_key l) (pl_value l) \<and> pl_ids l \<noteq> []"
    "distinct (map (\<lambda>l. (pl_key l, pl_value l)) (flat m))"
proof -
  have ne: "map_of m k = Some vals \<Longrightarrow> map_of vals v = Some ids \<Longrightarrow> ids \<noteq> []" for k vals v ids
    using assms unfolding inverted_ok_def by blast
  have "l \<in> set (flat m) \<longleftrightarrow> (\<exists>vals. (pl_key l, vals) \<in> set m \<and> (pl_value l, pl_ids l) \<in> set vals)"
    by (cases l) (force simp: flat_def)
  also have "\<dots> \<longleftrightarrow> (\<exists>vals. map_of m (pl_key l) = Some vals \<and> map_of vals (pl_value l) = Some (pl_ids l))"
    using assms by (metis (no_types, lifting) inverted_ok_def map_of_eq_Some_iff map_of_SomeD)
  also have "\<dots> \<longleftrightarrow> pl_ids l = look m (pl_key l) (pl_value l) \<and> pl_ids l \<noteq> []"
    using ne by (auto simp: look_def split: option.splits)
  finally show "l \<in> set (flat m) \<longleftrightarrow> pl_ids l = look m (pl_key l) (pl_value l) \<and> pl_ids l \<noteq> []" .
  have "distinct (map fst m)" "\<forall>(k, vals) \<in> set m. distinct (map fst vals)"
    using assms by (auto simp: inverted_ok_def)
  then show "distinct (map (\<lambda>l. (pl_key l, pl_value l)) (flat m))"
  proof (induction m)
    case (Cons e m)
    obtain k vals where e: "e = (k, vals)" by force
    have "map (\<lambda>l. (pl_key l, pl_value l)) (flat (e # m)) =
        map (Pair k) (map fst vals) @ map (\<lambda>l. (pl_key l, pl_value l)) (flat m)"
      by (simp add: flat_def e comp_def case_prod_unfold)
    moreover have "distinct (map (Pair k) (map fst vals))"
      using Cons.prems e by (simp add: distinct_map inj_on_def del: map_map)
    moreover have "(k, v) \<notin> set (map (\<lambda>l. (pl_key l, pl_value l)) (flat m))" for v
      using Cons.prems(1) by (force simp: flat_def e)
    ultimately show ?case using Cons by fastforce
  qed (simp add: flat_def)
qed

lemma invert_spec:
  assumes "\<forall>s \<in> set series. distinct (pairs s)"
  shows "sorted_wrt (<) (map (\<lambda>l. (pl_key l, pl_value l)) (invert series))"
    "l \<in> set (invert series) \<longleftrightarrow> pl_ids l = ids_of series (pl_key l) (pl_value l) \<and> pl_ids l \<noteq> []"
proof -
  let ?m = "fold invert_series (enumerate 0 series) []" and ?f = "\<lambda>l. (pl_key l, pl_value l)"
  have inv: "invert series = sort_key ?f (flat ?m)" by (simp add: invert_def flat_def Let_def)
  have m: "inverted_ok ?m" "look ?m k v = ids_of series k v" for k v
    using look_series [of "enumerate 0 series" "[]" k v] assms by (simp_all add: inverted_ok_def ids_of_def look_def)
  have "distinct (map ?f (invert series))"
    using flat_spec(2) [OF m(1)] unfolding inv by (simp add: distinct_map)
  then show "sorted_wrt (<) (map ?f (invert series))"
    unfolding strict_sorted_iff inv by simp
  show "l \<in> set (invert series) \<longleftrightarrow> pl_ids l = ids_of series (pl_key l) (pl_value l) \<and> pl_ids l \<noteq> []"
    unfolding inv set_sort flat_spec(1) [OF m(1)] m(2) ..
qed

section \<open>The table\<close>

lemma ids_of_nonempty: "ids_of series k v \<noteq> [] \<longleftrightarrow> (\<exists>s \<in> set series. carries (bse_ref s) k v)"
proof -
  have "set series = snd ` set (enumerate 0 series)" by (metis list.set_map map_snd_enumerate)
  then show ?thesis by (force simp: ids_of_def filter_empty_conv)
qed

lemma carried_syms:
  assumes "s \<in> set series" "carries (bse_ref s) k v"
  shows "k \<in> set (sort (symbol_set series))" "v \<in> set (sort (symbol_set series))"
  using assms by (auto simp: symbol_set_props carries_def series_syms_def)

abbreviation all_pairs_distinct :: "blockSeries list \<Rightarrow> bool" where
  "all_pairs_distinct series \<equiv> \<forall>s \<in> set series. distinct (pairs s)"

lemma invert_syms:
  assumes "all_pairs_distinct series" "l \<in> set (invert series)"
  shows "pl_key l \<in> set (sort (symbol_set series))" "pl_value l \<in> set (sort (symbol_set series))"
  using assms(2) carried_syms ids_of_nonempty unfolding invert_spec(2) [OF assms(1)] by metis+

lemma built_table:
  assumes "index_built series r" and i: "i < length (invert series)"
  defines "ords \<equiv> ordinals (sort (symbol_set series))"
  shows "te_keySym (ir_table r ! i) = sym_ord ords (pl_key (invert series ! i))"
    "te_valSym (ir_table r ! i) = sym_ord ords (pl_value (invert series ! i))"
    "readPostings (ir_postings r) (te_off (ir_table r ! i)) = pl_ids (invert series ! i)"
proof -
  let ?ls = "invert series" and ?f = "\<lambda>l. postings_bytes (pl_ids l)"
  obtain pre rest where r: "length (ir_postings r) < 2 ^ 63" "ir_postings r = pre @ concat (map ?f ?ls) @ rest"
      "fst (put_lists ords ?ls pre) = ir_table r"
    using assms(1) unfolding index_built_def Let_def ords_def by blast
  obtain buf where "put_lists ords ?ls pre = (ir_table r, buf)" using r(3) by (metis prod.collapse)
  with put_lists_spec i have t: "ir_table r ! i = \<lparr>te_keySym = sym_ord ords (pl_key (?ls ! i)),
      te_valSym = sym_ord ords (pl_value (?ls ! i)), te_off = of_nat (length (pre @ concat (map ?f (take i ?ls))))\<rparr>" by blast
  then show "te_keySym (ir_table r ! i) = sym_ord ords (pl_key (invert series ! i))"
    "te_valSym (ir_table r ! i) = sym_ord ords (pl_value (invert series ! i))" by simp_all
  have "concat (map ?f ?ls) = concat (map ?f (take i ?ls)) @ ?f (?ls ! i) @ concat (map ?f (drop (Suc i) ?ls))"
    using arg_cong [OF id_take_nth_drop [OF i], of "\<lambda>l. concat (map ?f l)"]
    unfolding map_append concat_append list.map concat.simps .
  then have "ir_postings r = (pre @ concat (map ?f (take i ?ls))) @ ?f (?ls ! i) @ concat (map ?f (drop (Suc i) ?ls)) @ rest"
    using r(2) by simp
  with readPostings_put [of "pre @ concat (map ?f (take i ?ls))" "pl_ids (?ls ! i)"] r(1)
  show "readPostings (ir_postings r) (te_off (ir_table r ! i)) = pl_ids (invert series ! i)"
    by (simp only: t tableEntry.simps)
qed

lemma built_length: "index_built series r \<Longrightarrow> length (ir_table r) = length (invert series)"
  unfolding index_built_def Let_def by (metis prod.collapse put_lists_spec)

lemma built_symbol:
  assumes "index_built series r"
  shows "map_of (ir_symID r) s =
    (if s \<in> set (sort (symbol_set series)) then Some (sym_ord (ordinals (sort (symbol_set series))) s) else None)"
proof -
  let ?syms = "sort (symbol_set series)"
  have d: "distinct ?syms" by (simp add: symbol_set_props)
  have m: "map_of (ir_symID r) = map_of (ordinals ?syms)"
    using assms map_of_symbol_ids [OF d] by (simp add: index_built_def Let_def)
  show ?thesis
  proof (cases "s \<in> set ?syms")
    case True
    then obtain i where "i < length ?syms" "?syms ! i = s" by (metis in_set_conv_nth)
    with map_of_ordinals [OF d, of i] sym_ord_nth [OF d, of i] True show ?thesis unfolding m by (simp only: if_True)
  next
    case False
    then have "s \<notin> fst ` set (ordinals ?syms)" by (auto dest: set_zip_leftD)
    then show ?thesis unfolding m using False map_of_eq_None_iff by metis
  qed
qed

text \<open>The ordinals order the table as the strings order the lists.\<close>

lemma built_order:
  assumes "index_built series r" "all_pairs_distinct series" "i < length (invert series)"
    "k \<in> set (sort (symbol_set series))" "v \<in> set (sort (symbol_set series))"
  defines "ords \<equiv> ordinals (sort (symbol_set series))"
  shows "sym_ord ords k < te_keySym (ir_table r ! i) \<longleftrightarrow> k < pl_key (invert series ! i)"
    "te_keySym (ir_table r ! i) = sym_ord ords k \<longleftrightarrow> pl_key (invert series ! i) = k"
    "sym_ord ords v \<le> te_valSym (ir_table r ! i) \<longleftrightarrow> v \<le> pl_value (invert series ! i)"
    "te_valSym (ir_table r ! i) = sym_ord ords v \<longleftrightarrow> pl_value (invert series ! i) = v"
proof -
  let ?syms = "sort (symbol_set series)" and ?l = "invert series ! i"
  have "sorted ?syms" "distinct ?syms" "length ?syms < 2 ^ 63"
    using assms(1) by (simp_all add: symbol_set_props index_built_def Let_def)
  note ord = sym_ord_less [OF this]
  have l: "pl_key ?l \<in> set ?syms" "pl_value ?l \<in> set ?syms" using invert_syms [OF assms(2) nth_mem [OF assms(3)]] .
  note t = built_table(1,2) [OF assms(1,3), folded ords_def]
  show "sym_ord ords k < te_keySym (ir_table r ! i) \<longleftrightarrow> k < pl_key ?l"
    "te_keySym (ir_table r ! i) = sym_ord ords k \<longleftrightarrow> pl_key ?l = k"
    unfolding t unfolding ords_def ord(1) [OF assms(4) l(1)] ord(2) [OF l(1) assms(4)] by (rule refl)+
  show "te_valSym (ir_table r ! i) = sym_ord ords v \<longleftrightarrow> pl_value ?l = v"
    unfolding t unfolding ords_def ord(2) [OF l(2) assms(5)] by (rule refl)
  show "sym_ord ords v \<le> te_valSym (ir_table r ! i) \<longleftrightarrow> v \<le> pl_value ?l"
    unfolding t unfolding ords_def not_less [symmetric] ord(1) [OF l(2) assms(5)] by (rule refl)
qed

section \<open>Lookups of a built index\<close>

lemma search_least:
  assumes "\<forall>m k. m \<le> k \<and> f m \<and> k < n \<longrightarrow> f k"
  shows "sort_Search n f \<le> n" "k < sort_Search n f \<Longrightarrow> \<not> f k" "sort_Search n f \<le> k \<Longrightarrow> k < n \<Longrightarrow> f k"
  using sort_Search_spec [of f n] assms by blast+

lemma ir_Postings_built:
  assumes built: "index_built series r" and dist: "all_pairs_distinct series"
  shows "ir_Postings r k v = ids_of series k v"
proof (cases "k \<in> set (sort (symbol_set series)) \<and> v \<in> set (sort (symbol_set series))")
  case False
  then have "ids_of series k v = []" using carried_syms ids_of_nonempty by metis
  with False show ?thesis by (auto simp: ir_Postings_def built_symbol [OF built])
next
  case True
  let ?ls = "invert series" and ?ords = "ordinals (sort (symbol_set series))"
  let ?p = "\<lambda>i. (pl_key (?ls ! i), pl_value (?ls ! i))"
  let ?f = "\<lambda>i. sym_ord ?ords k < te_keySym (ir_table r ! i) \<or>
      te_keySym (ir_table r ! i) = sym_ord ?ords k \<and> sym_ord ?ords v \<le> te_valSym (ir_table r ! i)"
  define n where "n = sort_Search (length ?ls) ?f"
  note ord = built_order [OF built dist _ True [THEN conjunct1] True [THEN conjunct2]]
  have f: "?f i \<longleftrightarrow> (k, v) \<le> ?p i" if "i < length ?ls" for i using ord [OF that] by (auto simp: less_eq_prod_def)
  have less: "?p i < ?p j" if "i < j" "j < length ?ls" for i j
    using sorted_wrt_nth_less [OF invert_spec(1) [OF dist], of i j] that by simp
  have mono: "\<forall>i j. i \<le> j \<and> ?f i \<and> j < length ?ls \<longrightarrow> ?f j"
  proof (intro allI impI)
    fix i j assume a: "i \<le> j \<and> ?f i \<and> j < length ?ls"
    have "(k, v) \<le> ?p i" using a by (intro iffD1 [OF f]) simp_all
    also have "?p i \<le> ?p j" using less [of i j] a by (cases "i = j") (auto intro: less_imp_le)
    finally show "?f j" using a by (intro iffD2 [OF f]) simp_all
  qed
  note search = search_least [OF mono, folded n_def]
  have r: "ir_Postings r k v = (if n = length ?ls \<or> te_keySym (ir_table r ! n) \<noteq> sym_ord ?ords k \<or>
      te_valSym (ir_table r ! n) \<noteq> sym_ord ?ords v then [] else readPostings (ir_postings r) (te_off (ir_table r ! n)))"
    using True by (simp add: ir_Postings_def built_symbol [OF built] built_length [OF built] n_def Let_def del: set_sort)
  show ?thesis
  proof (cases "n < length ?ls \<and> ?p n = (k, v)")
    case hit: True
    then have "ir_Postings r k v = pl_ids (?ls ! n)" using r ord [of n] built_table(3) [OF built] by simp
    moreover have "?ls ! n \<in> set ?ls" using hit by simp
    ultimately show ?thesis using hit unfolding invert_spec(2) [OF dist] by simp
  next
    case miss: False
    have "ids_of series k v = []"
    proof (rule ccontr)
      assume ne: "ids_of series k v \<noteq> []"
      then have "\<lparr>pl_key = k, pl_value = v, pl_ids = ids_of series k v\<rparr> \<in> set ?ls" unfolding invert_spec(2) [OF dist] by simp
      then obtain j where j: "j < length ?ls" "?ls ! j = \<lparr>pl_key = k, pl_value = v, pl_ids = ids_of series k v\<rparr>"
        unfolding in_set_conv_nth by blast
      then have p: "?p j = (k, v)" by simp
      have "\<not> j < n" using search(2) [of j] f [OF j(1)] p by auto
      then have n: "n \<le> j" "n < length ?ls" using j(1) by simp_all
      then have "?p j \<le> ?p n" using f [of n] search(3) [of n] p by simp
      then have "j = n" using less [of n j] j(1) n(1) by (cases "n = j") auto
      with j(1) p miss show False by blast
    qed
    moreover have "ir_Postings r k v = []" using miss r search(1) ord [of n] by auto
    ultimately show ?thesis by simp
  qed
qed

lemma resolve_ordinals:
  assumes "distinct syms" "length syms < 2 ^ 63"
  shows "set ss \<subseteq> set syms \<Longrightarrow> resolve_syms syms (map (sym_ord (ordinals syms)) ss) = ss"
  by (induction ss) (simp_all add: ir_sym_ord [OF assms])

lemma takeWhile_filter:
  "sorted (map g ys) \<Longrightarrow> \<forall>e \<in> set ys. k \<le> g e \<Longrightarrow> takeWhile (\<lambda>e. g e = k) ys = filter (\<lambda>e. g e = (k :: u64)) ys"
proof (induction ys)
  case (Cons y ys)
  show ?case
  proof (cases "g y = k")
    case False
    then have "\<forall>e \<in> set (y # ys). g e \<noteq> k" using Cons.prems by force
    then have "filter (\<lambda>e. g e = k) (y # ys) = []" unfolding filter_empty_conv .
    with False show ?thesis by simp
  qed (use Cons in simp)
qed simp

text \<open>On a table sorted by key, the run of a key found by search is all of its entries.\<close>

lemma run_filter:
  assumes "sorted (map g xs)"
  shows "takeWhile (\<lambda>e. g e = k) (drop (sort_Search (length xs) (\<lambda>i. k \<le> g (xs ! i))) xs) = filter (\<lambda>e. g e = (k :: u64)) xs"
proof -
  let ?n = "sort_Search (length xs) (\<lambda>i. k \<le> g (xs ! i))"
  have "\<forall>i j. i \<le> j \<and> k \<le> g (xs ! i) \<and> j < length xs \<longrightarrow> k \<le> g (xs ! j)"
    using sorted_nth_mono [OF assms] by fastforce
  note search = search_least [OF this]
  have "g e \<noteq> k" if e: "e \<in> set (take ?n xs)" for e
  proof -
    obtain i where "i < ?n" "e = xs ! i" using e unfolding in_set_conv_nth by auto
    then show ?thesis using search(2) [of i] by auto
  qed
  then have "filter (\<lambda>e. g e = k) (take ?n xs) = []" unfolding filter_empty_conv by blast
  moreover have "sorted (map g (drop ?n xs))" using assms by (simp add: drop_map [symmetric] sorted_wrt_drop)
  moreover have "\<forall>e \<in> set (drop ?n xs). k \<le> g e"
  proof
    fix e assume "e \<in> set (drop ?n xs)"
    then obtain i where "i < length xs - ?n" "e = xs ! (?n + i)" unfolding in_set_conv_nth by auto
    then show "k \<le> g e" using search(3) [of "?n + i"] by simp
  qed
  moreover have "filter (\<lambda>e. g e = k) xs = filter (\<lambda>e. g e = k) (take ?n xs) @ filter (\<lambda>e. g e = k) (drop ?n xs)"
    unfolding filter_append [symmetric] append_take_drop_id ..
  ultimately show ?thesis using takeWhile_filter [of g "drop ?n xs" k] by (simp only: append_Nil simp_thms)
qed

lemma table_keys:
  assumes "index_built series r"
  shows "map te_keySym (ir_table r) = map (sym_ord (ordinals (sort (symbol_set series)))) (map pl_key (invert series))"
    "map (\<lambda>e. (te_keySym e, te_valSym e)) (ir_table r) = map (\<lambda>l. (sym_ord (ordinals (sort (symbol_set series))) (pl_key l),
       sym_ord (ordinals (sort (symbol_set series))) (pl_value l))) (invert series)"
  by (rule nth_equalityI; simp add: built_length [OF assms] built_table [OF assms])+

lemma keys_sorted:
  assumes "index_built series r" "all_pairs_distinct series"
  shows "sorted (map pl_key (invert series))" "sorted (map te_keySym (ir_table r))"
proof -
  let ?syms = "sort (symbol_set series)"
  have "sorted (map (\<lambda>l. (pl_key l, pl_value l)) (invert series))"
    using invert_spec(1) [OF assms(2)] by (simp add: strict_sorted_imp_sorted)
  then show k: "sorted (map pl_key (invert series))"
    unfolding sorted_map by (rule sorted_wrt_mono_rel [rotated]) (auto simp: less_eq_prod_def)
  have "sorted ?syms" "distinct ?syms" "length ?syms < 2 ^ 63"
    using assms(1) by (simp_all add: symbol_set_props index_built_def Let_def)
  note ord = sym_ord_less(1) [OF this]
  have "sym_ord (ordinals ?syms) a \<le> sym_ord (ordinals ?syms) b" if "a \<in> set ?syms" "b \<in> set ?syms" "a \<le> b" for a b
    using ord [OF that(2,1)] that(3) by (simp only: not_less [symmetric] simp_thms)
  then have "sorted (map (sym_ord (ordinals ?syms)) (map pl_key (invert series)))"
    using k invert_syms(1) [OF assms(2)] unfolding sorted_map [of "sym_ord (ordinals ?syms)"]
    by (intro sorted_wrt_mono_rel [OF _ k]) auto
  then show "sorted (map te_keySym (ir_table r))" unfolding table_keys(1) [OF assms(1)] .
qed

lemma filter_entries:
  assumes "list_all2 (\<lambda>e l. te_keySym e = f (pl_key l) \<and> te_valSym e = f (pl_value l)) es ls"
    and "\<forall>l \<in> set ls. f (pl_key l) = f k \<longleftrightarrow> pl_key l = k"
  shows "map te_valSym (filter (\<lambda>e. te_keySym e = f k) es) = map f (map pl_value (filter (\<lambda>l. pl_key l = k) ls))"
  using assms by (induction rule: list_all2_induct) auto

lemma ir_TagValues_built:
  assumes built: "index_built series r" and dist: "all_pairs_distinct series"
  shows "ir_TagValues r k = map pl_value (filter (\<lambda>l. pl_key l = k) (invert series))"
proof (cases "k \<in> set (sort (symbol_set series))")
  case False
  then have "filter (\<lambda>l. pl_key l = k) (invert series) = []"
    using invert_syms(1) [OF dist] unfolding filter_empty_conv by blast
  with False show ?thesis by (simp add: ir_TagValues_def built_symbol [OF built] del: set_sort)
next
  case True
  let ?syms = "sort (symbol_set series)" and ?ls = "invert series"
  have syms: "distinct ?syms" "length ?syms < 2 ^ 63" "ir_symbols r = ?syms"
    using built by (simp_all add: symbol_set_props index_built_def Let_def)
  have "\<forall>l \<in> set ?ls. sym_ord (ordinals ?syms) (pl_key l) = sym_ord (ordinals ?syms) k \<longleftrightarrow> pl_key l = k"
    using sym_ord_less(2) [OF _ syms(1,2) _ True] invert_syms(1) [OF dist] by (metis sorted_sort)
  moreover have "list_all2 (\<lambda>e l. te_keySym e = sym_ord (ordinals ?syms) (pl_key l) \<and>
      te_valSym e = sym_ord (ordinals ?syms) (pl_value l)) (ir_table r) ?ls"
    unfolding list_all2_conv_all_nth using built_table(1,2) [OF built] built_length [OF built] by auto
  ultimately have vals: "map te_valSym (filter (\<lambda>e. te_keySym e = sym_ord (ordinals ?syms) k) (ir_table r)) =
      map (sym_ord (ordinals ?syms)) (map pl_value (filter (\<lambda>l. pl_key l = k) ?ls))" by (rule filter_entries [rotated])
  have "set (map pl_value (filter (\<lambda>l. pl_key l = k) ?ls)) \<subseteq> set ?syms" using invert_syms(2) [OF dist] by auto
  then show ?thesis
    unfolding ir_TagValues_def built_symbol [OF built] if_P [OF True] option.case Let_def
      run_filter [OF keys_sorted(2) [OF built dist]] vals syms(3)
    by (rule resolve_ordinals [OF syms(1,2)])
qed

lemma remdups_adj_inj_on: "inj_on f (set xs) \<Longrightarrow> remdups_adj (map f xs) = map f (remdups_adj xs)"
  by (induction xs rule: remdups_adj.induct) (auto simp: inj_on_def)

lemma ir_TagKeys_built:
  assumes built: "index_built series r" and dist: "all_pairs_distinct series"
  shows "ir_TagKeys r = remdups_adj (map pl_key (invert series))"
proof -
  let ?syms = "sort (symbol_set series)"
  have syms: "sorted ?syms" "distinct ?syms" "length ?syms < 2 ^ 63" "ir_symbols r = ?syms"
    using built by (simp_all add: symbol_set_props index_built_def Let_def)
  have sub: "set (map pl_key (invert series)) \<subseteq> set ?syms" using invert_syms(1) [OF dist] by auto
  then have "inj_on (sym_ord (ordinals ?syms)) (set (map pl_key (invert series)))"
    using sym_ord_less(2) [OF syms(1-3)] by (meson inj_onI subsetD)
  then show ?thesis
    unfolding ir_TagKeys_def syms(4) table_keys(1) [OF built]
    using resolve_ordinals [OF syms(2,3), of "remdups_adj (map pl_key (invert series))"] sub
    by (simp only: remdups_adj_inj_on remdups_adj_set)
qed

section \<open>The contract\<close>

text \<open>The series of a block are canonical, and none uses the pseudo key.\<close>

definition indexed_ok :: "blockSeries list \<Rightarrow> bool" where
  "indexed_ok series \<longleftrightarrow> list_all (\<lambda>s. Validate (bse_ref s) = None \<and> no_pseudo (bse_ref s)) series"

lemma tags_sorted_distinct: "tags_sorted ts \<Longrightarrow> distinct (map (\<lambda>t. (tag_Key t, tag_Value t)) ts) \<and>
    sorted (map (\<lambda>t. (tag_Key t, tag_Value t)) ts)"
proof (induction ts rule: tags_sorted.induct)
  case (1 a b ts)
  then have "(tag_Key a, tag_Value a) < (tag_Key b, tag_Value b)" by (auto simp: less_prod_def' split: if_splits)
  with 1 show ?case by (fastforce split: if_splits)
qed simp_all

lemma indexed_pairs: "indexed_ok series \<Longrightarrow> all_pairs_distinct series"
  using tags_sorted_distinct
  by (fastforce simp: indexed_ok_def list_all_iff Validate_def pairs_def no_pseudo_def split: if_splits)

definition block_series :: "indexReader \<Rightarrow> u64 \<Rightarrow> SeriesRef option" where
  "block_series r i = (if unat i < length (ir_series r) then Some (bse_ref (ir_series r ! unat i)) else None)"

definition block_index :: "indexReader \<Rightarrow> bool" where
  "block_index r \<longleftrightarrow> (\<exists>series. index_built series r \<and> indexed_ok series)"

lemma ids_of_upt: "ids_of series k v = map of_nat (filter (\<lambda>i. carries (bse_ref (series ! i)) k v) [0..<length series])"
proof (induction series rule: rev_induct)
  case (snoc x xs)
  have "filter (\<lambda>i. carries (bse_ref ((xs @ [x]) ! i)) k v) [0..<length xs] = filter (\<lambda>i. carries (bse_ref (xs ! i)) k v) [0..<length xs]"
    by (rule filter_cong) (auto simp: nth_append)
  with snoc show ?case by (simp add: ids_of_def enumerate_append_eq)
qed (simp add: ids_of_def)

lemma of_nat_less_63: "i < j \<Longrightarrow> j < 2 ^ 63 \<Longrightarrow> (of_nat i :: u64) < of_nat j"
  by (simp add: word_less_nat_alt unat_of_nat_63)

lemma ascending_of_nat: "sorted_wrt (<) ns \<Longrightarrow> \<forall>n \<in> set ns. n < 2 ^ 63 \<Longrightarrow> ascending (map of_nat ns)"
  by (induction ns) (auto intro: of_nat_less_63)

lemma distinct_run: "distinct (map (\<lambda>l. (f l, g l)) ls) \<Longrightarrow> distinct (map g (filter (\<lambda>l. f l = k) ls))"
  by (induction ls) (auto simp: image_iff)

lemma distinct_remdups_adj: "sorted (xs :: string list) \<Longrightarrow> distinct (remdups_adj xs)"
  by (induction xs rule: remdups_adj.induct) auto

lemma of_nat_image: "n < 2 ^ 63 \<Longrightarrow> (of_nat :: nat \<Rightarrow> u64) ` {j. j < n \<and> P j} = {i. unat i < n \<and> P (unat i)}"
proof (intro set_eqI iffI)
  fix i :: u64 assume "i \<in> {i. unat i < n \<and> P (unat i)}"
  then have "unat i \<in> {j. j < n \<and> P j}" "i = of_nat (unat i)" by simp_all
  then show "i \<in> of_nat ` {j. j < n \<and> P j}" by (rule image_eqI [rotated])
qed (auto simp: unat_of_nat_63)

lemma ids_of_spec:
  assumes "length series < 2 ^ 63"
  shows "ascending (ids_of series k v)"
    "set (ids_of series k v) = {i. unat i < length series \<and> carries (bse_ref (series ! unat i)) k v}"
proof -
  show "ascending (ids_of series k v)"
    unfolding ids_of_upt using assms by (intro ascending_of_nat) (auto simp: sorted_wrt_filter sorted_wrt_upt)
  show "set (ids_of series k v) = {i. unat i < length series \<and> carries (bse_ref (series ! unat i)) k v}"
    unfolding ids_of_upt set_map set_filter set_upt
    using of_nat_image [OF assms, of "\<lambda>i. carries (bse_ref (series ! i)) k v"] by (simp only: atLeastLessThan_iff le0 simp_thms)
qed

interpretation blk: lookup_index ir_Lookup block_index block_series
proof
  fix r k v assume "block_index r"
  then obtain series where built: "index_built series r" and ok: "indexed_ok series" by (auto simp: block_index_def)
  note dist = indexed_pairs [OF ok]
  have r: "ir_series r = series" "length series < 2 ^ 63" "ir_all r = map of_nat [0..<length series]"
    using built by (simp_all add: index_built_def Let_def)
  have at: "block_series r i = Some ref \<longleftrightarrow> unat i < length series \<and> ref = bse_ref (series ! unat i)" for i ref
    by (auto simp: block_series_def r(1))
  have has: "(\<exists>s \<in> set series. carries (bse_ref s) k v) \<longleftrightarrow> (\<exists>i ref. block_series r i = Some ref \<and> carries ref k v)" for k v
  proof -
    have "(\<exists>s \<in> set series. carries (bse_ref s) k v) \<longleftrightarrow> set (ids_of series k v) \<noteq> {}"
      using ids_of_nonempty [of series k v] by auto
    then show ?thesis unfolding ids_of_spec(2) [OF r(2)] using at by auto
  qed
  have listed: "(\<exists>l \<in> set (invert series). pl_key l = k \<and> pl_value l = v) \<longleftrightarrow> (\<exists>i ref. block_series r i = Some ref \<and> carries ref k v)" for k v
  proof -
    have "(\<exists>l \<in> set (invert series). pl_key l = k \<and> pl_value l = v) \<longleftrightarrow> ids_of series k v \<noteq> []"
      unfolding Bex_def invert_spec(2) [OF dist] by (metis postingList.select_convs(1,2,3))
    then show ?thesis unfolding ids_of_nonempty has .
  qed
  show "ascending (lk_Postings (ir_Lookup r) k v) \<and>
      set (lk_Postings (ir_Lookup r) k v) = {i. \<exists>ref. block_series r i = Some ref \<and> carries ref k v}"
    using ids_of_spec [OF r(2), of k v] at by (auto simp: ir_Lookup_def ir_Postings_built [OF built dist])
  have "distinct (map (\<lambda>l. (pl_key l, pl_value l)) (invert series))"
    using invert_spec(1) [OF dist] by (simp add: strict_sorted_iff)
  then have "distinct (map pl_value (filter (\<lambda>l. pl_key l = k) (invert series)))"
    by (rule distinct_run)
  moreover have "pl_value ` {l \<in> set (invert series). pl_key l = k} = {v. \<exists>i ref. block_series r i = Some ref \<and> carries ref k v}"
    unfolding listed [symmetric] by auto
  ultimately show "distinct (lk_TagValues (ir_Lookup r) k) \<and>
      set (lk_TagValues (ir_Lookup r) k) = {v. \<exists>i ref. block_series r i = Some ref \<and> carries ref k v}"
    by (simp add: ir_Lookup_def ir_TagValues_built [OF built dist])
  show "distinct (lk_TagKeys (ir_Lookup r)) \<and>
      set (lk_TagKeys (ir_Lookup r)) = {k. \<exists>v i ref. block_series r i = Some ref \<and> carries ref k v}"
  proof -
    have "pl_key ` set (invert series) = {k. \<exists>v i ref. block_series r i = Some ref \<and> carries ref k v}"
      unfolding listed [symmetric] by auto
    then show ?thesis using distinct_remdups_adj [OF keys_sorted(1) [OF built dist]]
      by (simp add: ir_Lookup_def ir_TagKeys_built [OF built dist])
  qed
  show "ascending (lk_AllSeries (ir_Lookup r)) \<and> set (lk_AllSeries (ir_Lookup r)) = dom (block_series r)"
  proof -
    have "set (ir_all r) = dom (block_series r)"
      unfolding r(3) set_map set_upt using of_nat_image [OF r(2), of "\<lambda>_. True"] at
      by (auto simp: dom_def atLeastLessThan_def lessThan_def)
    moreover have "ascending (ir_all r)" unfolding r(3) using r(2) by (intro ascending_of_nat) (auto simp: sorted_wrt_upt)
    ultimately show ?thesis by (simp add: ir_Lookup_def)
  qed
qed

end
