(* ===== verification/Block_File.thy ===== *)
theory Block_File
  imports Block_Lookup
begin

text \<open>
  Blocks (\<open>internal/tsdb/block/write.go\<close>, \<open>block.go\<close> and \<open>meta.go\<close>): the writer that packs series into
  chunks, the files it publishes, and the reads of an opened block. The id of a block comes from the
  ulid library and is a parameter, as is whether that library accepts a text; \<open>meta.json\<close> is kept as the
  value it encodes. Failures of the file system are not modelled.
\<close>

section \<open>Metadata\<close>

record BlockStats =
  bst_Series :: int
  bst_Samples :: int
  bst_Chunks :: int

record Compaction =
  cp_Level :: int
  cp_Sources :: "string list"

record BlockMeta =
  bm_ULID :: string
  bm_Version :: int
  bm_MinTime :: i64
  bm_MaxTime :: i64
  bm_Stats :: BlockStats
  bm_Compaction :: Compaction
  bm_ResolutionS :: int

definition MetaVersion :: int where "MetaVersion = 1"

text \<open>The builtin \<open>min\<close> and \<open>max\<close> on \<open>int64\<close>.\<close>

definition min64 :: "i64 \<Rightarrow> i64 \<Rightarrow> i64" where
  "min64 a b = (if sint b < sint a then b else a)"

definition max64 :: "i64 \<Rightarrow> i64 \<Rightarrow> i64" where
  "max64 a b = (if sint a < sint b then b else a)"

section \<open>The writer\<close>

record WriterOptions =
  wo_Level :: int
  wo_Sources :: "string list"
  wo_ResolutionS :: int

record Writer =
  w_id :: string
  w_opts :: WriterOptions
  w_chunks :: chunkWriter
  w_ix :: "blockSeries list"
  w_stats :: BlockStats
  w_minT :: i64
  w_maxT :: i64
  w_closed :: bool

definition NewWriter :: "string \<Rightarrow> WriterOptions \<Rightarrow> Writer" where
  "NewWriter ulid opts = \<lparr>w_id = ulid, w_opts = opts, w_chunks = newChunkWriter, w_ix = [],
     w_stats = \<lparr>bst_Series = 0, bst_Samples = 0, bst_Chunks = 0\<rparr>, w_minT = word_of_int (2 ^ 63 - 1), w_maxT = word_of_int (- (2 ^ 63)),
     w_closed = False\<rparr>"

definition writeChunk :: "Sample list \<Rightarrow> Writer \<Rightarrow> (block_error + chunkRef) \<times> Writer" where
  "writeChunk samples w =
     (case appender NewChunk of
        Inl e \<Rightarrow> (Inl (BlockChunk e), w)
      | Inr (a, c) \<Rightarrow> (case appendAll a c samples of
          Inl e \<Rightarrow> (Inl (BlockChunk e), w)
        | Inr (a', c') \<Rightarrow>
            let ((off, recLen), cw) = chunk_write EncodingGorilla (Bytes c') (w_chunks w)
            in (Inr \<lparr>cf_minT = fst (hd samples), cf_maxT = fst (last samples), cf_off = off, cf_recLen = recLen\<rparr>,
                w\<lparr>w_chunks := cw\<rparr>)))"

function writeChunks :: "Sample list \<Rightarrow> Writer \<Rightarrow> (block_error + chunkRef list) \<times> Writer" where
  "writeChunks samples w =
     (if samples = [] then (Inr [], w)
      else case writeChunk (take MaxSamplesPerChunk samples) w of
        (Inl e, w1) \<Rightarrow> (Inl e, w1)
      | (Inr c, w1) \<Rightarrow> (case writeChunks (drop MaxSamplesPerChunk samples) w1 of
          (Inl e, w2) \<Rightarrow> (Inl e, w2)
        | (Inr cs, w2) \<Rightarrow> (Inr (c # cs), w2)))"
  by pat_completeness auto
termination
  by (relation "measure (\<lambda>(samples, w). length samples)") (auto simp: MaxSamplesPerChunk_def)

declare writeChunks.simps [simp del]

definition AddSeries :: "SeriesRef \<Rightarrow> Sample list \<Rightarrow> Writer \<Rightarrow> (block_error + unit) \<times> Writer" where
  "AddSeries ref samples w =
     (if w_closed w then (Inl WriterClosed, w)
      else if samples = [] then (Inr (), w)
      else case Validate ref of
        Some e \<Rightarrow> (Inl (InvalidSeries e), w)
      | None \<Rightarrow> (case writeChunks samples w of
          (Inl e, w1) \<Rightarrow> (Inl e, w1)
        | (Inr cs, w1) \<Rightarrow>
            (Inr (), w1\<lparr>w_ix := w_ix w1 @ [\<lparr>bse_ref = ref, bse_chunks = cs\<rparr>],
               w_stats := \<lparr>bst_Series = bst_Series (w_stats w1) + 1, bst_Samples = bst_Samples (w_stats w1) + int (length samples),
                 bst_Chunks = bst_Chunks (w_stats w1) + int (length cs)\<rparr>,
               w_minT := min64 (w_minT w1) (fst (hd samples)), w_maxT := max64 (w_maxT w1) (fst (last samples))\<rparr>)))"

text \<open>The three files of a published block.\<close>

record BlockFiles =
  bf_meta :: BlockMeta
  bf_index :: "byte list"
  bf_chunks :: "byte list"

definition writer_Close :: "(string \<Rightarrow> bool) \<Rightarrow> Writer \<Rightarrow> (block_error + BlockFiles) \<times> Writer" where
  "writer_Close parses w =
     (if w_closed w then (Inl WriterClosed, w)
      else
        let w' = w\<lparr>w_closed := True\<rparr>; opts = w_opts w
        in (if bst_Series (w_stats w) = 0 then Inl ErrEmpty
            else if \<not> parses (w_id w) then Inl (BadULID (w_id w))
            else case find (\<lambda>src. \<not> parses src) (wo_Sources opts) of
              Some src \<Rightarrow> Inl (BadULID src)
            | None \<Rightarrow>
                Inr \<lparr>bf_meta = \<lparr>bm_ULID = w_id w, bm_Version = MetaVersion, bm_MinTime = w_minT w, bm_MaxTime = w_maxT w,
                       bm_Stats = w_stats w, bm_Compaction = \<lparr>cp_Level = wo_Level opts, cp_Sources = wo_Sources opts\<rparr>,
                       bm_ResolutionS = wo_ResolutionS opts\<rparr>,
                     bf_index = index_writeTo (w_ix w), bf_chunks = cw_f (w_chunks w)\<rparr>, w'))"

fun add_all :: "SeriesSamples list \<Rightarrow> Writer \<Rightarrow> (block_error + unit) \<times> Writer" where
  "add_all [] w = (Inr (), w)"
| "add_all (s # ss) w =
     (case AddSeries (ss_Series s) (ss_Samples s) w of
        (Inl e, w1) \<Rightarrow> (Inl e, w1\<lparr>w_closed := True\<rparr>)
      | (Inr _, w1) \<Rightarrow> add_all ss w1)"

definition block_Write :: "(string \<Rightarrow> bool) \<Rightarrow> string \<Rightarrow> SeriesSamples list \<Rightarrow> WriterOptions \<Rightarrow> block_error + BlockFiles" where
  "block_Write parses ulid series opts =
     (case add_all series (NewWriter ulid opts) of
        (Inl e, w) \<Rightarrow> Inl e
      | (Inr _, w) \<Rightarrow> fst (writer_Close parses w))"

section \<open>Reading a block\<close>

record Block =
  b_meta :: BlockMeta
  b_ix :: indexReader
  b_chunks :: chunkReader

definition ReadMeta :: "BlockFiles \<Rightarrow> block_error + BlockMeta" where
  "ReadMeta f = (if bm_Version (bf_meta f) \<noteq> MetaVersion then Inl (BlockMetaVersion (bm_Version (bf_meta f))) else Inr (bf_meta f))"

definition block_Open :: "BlockFiles \<Rightarrow> block_error + Block" where
  "block_Open f =
     (case ReadMeta f of
        Inl e \<Rightarrow> Inl e
      | Inr m \<Rightarrow> (case openIndexReader (bf_index f) of
          Inl e \<Rightarrow> Inl e
        | Inr ix \<Rightarrow> (case openChunkReader (bf_chunks f) of
            Inl e \<Rightarrow> Inl e
          | Inr cr \<Rightarrow> Inr \<lparr>b_meta = m, b_ix = ix, b_chunks = cr\<rparr>)))"

definition Overlaps :: "Block \<Rightarrow> i64 \<Rightarrow> i64 \<Rightarrow> bool" where
  "Overlaps b from to \<longleftrightarrow> sint (bm_MinTime (b_meta b)) \<le> sint to \<and> sint from \<le> sint (bm_MaxTime (b_meta b))"

text \<open>The scan of one chunk, which stops at the first sample after \<open>to\<close>.\<close>

function chunk_scan :: "i64 \<Rightarrow> i64 \<Rightarrow> Iterator \<Rightarrow> Sample list \<times> Iterator" where
  "chunk_scan from to it =
     (case Next it of
        (False, it') \<Rightarrow> ([], it')
      | (True, it') \<Rightarrow>
          if sint (it_t it') < sint from then chunk_scan from to it'
          else if sint to < sint (it_t it') then ([], it')
          else let (xs, it'') = chunk_scan from to it' in ((it_t it', it_v it') # xs, it''))"
  by pat_completeness auto
termination
  by (relation "measure (\<lambda>(from, to, it). it_total it - it_read it)") (auto simp: Next_progress)

declare chunk_scan.simps [simp del]

fun read_chunks :: "chunkReader \<Rightarrow> chunkRef list \<Rightarrow> i64 \<Rightarrow> i64 \<Rightarrow> block_error + Sample list" where
  "read_chunks r [] from to = Inr []"
| "read_chunks r (c # cs) from to =
     (if sint (cf_maxT c) < sint from \<or> sint to < sint (cf_minT c) then read_chunks r cs from to
      else case chunk_at r (cf_off c) (cf_recLen c) of
        Inl e \<Rightarrow> Inl e
      | Inr (encoding, data) \<Rightarrow>
          if encoding \<noteq> EncodingGorilla then Inl (UnknownEncoding encoding)
          else case FromBytes data of
            Inl e \<Rightarrow> Inl (BlockChunk e)
          | Inr ch \<Rightarrow>
              let (xs, it) = chunk_scan from to (newIterator ch)
              in case it_err it of
                   Some e \<Rightarrow> Inl (BlockDecode e)
                 | None \<Rightarrow> (case read_chunks r cs from to of Inl e \<Rightarrow> Inl e | Inr ys \<Rightarrow> Inr (xs @ ys)))"

definition b_samples :: "Block \<Rightarrow> blockSeries \<Rightarrow> i64 \<Rightarrow> i64 \<Rightarrow> block_error + Sample list" where
  "b_samples b s from to = read_chunks (b_chunks b) (bse_chunks s) from to"

text \<open>An id past the table of series is refused.\<close>

definition b_series :: "Block \<Rightarrow> u64 \<Rightarrow> block_error + blockSeries" where
  "b_series b i =
     (let series = ir_series (b_ix b)
      in if of_nat (length series) \<le> i then Inl (SeriesOutside i) else Inr (series ! unat i))"

fun select_ids :: "Block \<Rightarrow> i64 \<Rightarrow> i64 \<Rightarrow> u64 list \<Rightarrow> block_error + SeriesSamples list" where
  "select_ids b from to [] = Inr []"
| "select_ids b from to (i # ids) =
     (case b_series b i of
        Inl e \<Rightarrow> Inl e
      | Inr s \<Rightarrow> (case b_samples b s from to of
          Inl e \<Rightarrow> Inl e
        | Inr samples \<Rightarrow> (case select_ids b from to ids of
            Inl e \<Rightarrow> Inl e
          | Inr out \<Rightarrow>
              Inr (if samples = [] then out else \<lparr>ss_Series = bse_ref s, ss_Samples = samples\<rparr> # out))))"

definition block_Select :: "Block \<Rightarrow> Selector \<Rightarrow> i64 \<Rightarrow> i64 \<Rightarrow> block_error + SeriesSamples list" where
  "block_Select b sel from to =
     (if \<not> Overlaps b from to then Inr []
      else case select_ids b from to (index_Select (ir_Lookup (b_ix b)) sel) of
        Inl e \<Rightarrow> Inl e
      | Inr out \<Rightarrow> Inr (sort_key (\<lambda>s. series_Key (ss_Series s)) out))"

fun read_every :: "Block \<Rightarrow> blockSeries list \<Rightarrow> block_error + SeriesSamples list" where
  "read_every b [] = Inr []"
| "read_every b (s # ss) =
     (case b_samples b s (bm_MinTime (b_meta b)) (bm_MaxTime (b_meta b)) of
        Inl e \<Rightarrow> Inl e
      | Inr samples \<Rightarrow> (case read_every b ss of
          Inl e \<Rightarrow> Inl e
        | Inr out \<Rightarrow> Inr (\<lparr>ss_Series = bse_ref s, ss_Samples = samples\<rparr> # out)))"

definition block_All :: "Block \<Rightarrow> block_error + SeriesSamples list" where
  "block_All b = read_every b (ir_series (b_ix b))"

definition block_Series :: "Block \<Rightarrow> SeriesRef list" where
  "block_Series b = map bse_ref (ir_series (b_ix b))"

fun refs_of :: "Block \<Rightarrow> u64 list \<Rightarrow> block_error + SeriesRef list" where
  "refs_of b [] = Inr []"
| "refs_of b (i # ids) =
     (case b_series b i of
        Inl e \<Rightarrow> Inl e
      | Inr s \<Rightarrow> (case refs_of b ids of Inl e \<Rightarrow> Inl e | Inr out \<Rightarrow> Inr (bse_ref s # out)))"

definition block_SeriesOf :: "Block \<Rightarrow> string \<Rightarrow> block_error + SeriesRef list" where
  "block_SeriesOf b metric = refs_of b (ir_Postings (b_ix b) MetricName metric)"

definition SamplesFor :: "Block \<Rightarrow> string \<Rightarrow> block_error + Sample list" where
  "SamplesFor b key =
     (let series = ir_series (b_ix b);
          i = sort_Search (length series) (\<lambda>i. key \<le> series_Key (bse_ref (series ! i)))
      in if i = length series \<or> series_Key (bse_ref (series ! i)) \<noteq> key then Inr []
         else b_samples b (series ! i) (bm_MinTime (b_meta b)) (bm_MaxTime (b_meta b)))"

end
