(* ===== verification/Block_Roundtrip.thy ===== *)
theory Block_Roundtrip
  imports Block_File
begin

text \<open>
  A block holds what was written to it: the writer's files open to a block whose queries answer
  exactly from the series it was given.
\<close>

section \<open>Chunks of a series\<close>

abbreviation within :: "i64 \<Rightarrow> i64 \<Rightarrow> Sample \<Rightarrow> bool" where
  "within from to \<equiv> \<lambda>(t, v). sint from \<le> sint t \<and> sint t \<le> sint to"

lemma chunk_scan_iterate:
  "iterate it = (xs, it') \<Longrightarrow> it_err it' = None \<Longrightarrow> increasing xs \<Longrightarrow>
    \<exists>it''. chunk_scan from to it = (filter (within from to) xs, it'') \<and> it_err it'' = None"
proof (induction it arbitrary: xs rule: iterate.induct)
  case (1 it)
  obtain more it1 where n: "Next it = (more, it1)" by force
  show ?case
  proof (cases more)
    case False
    then have "xs = []" "it' = it1" using 1(2) n by (simp_all add: iterate.simps [of it])
    with False n 1(3) show ?thesis by (simp add: chunk_scan.simps [of "from" to it])
  next
    case True
    obtain ys where ys: "iterate it1 = (ys, it')" "xs = (it_t it1, it_v it1) # ys"
      using 1(2) n True by (auto simp: iterate.simps [of it] split: prod.splits)
    have inc: "increasing ys" "\<forall>y \<in> set ys. sint (it_t it1) < sint (fst y)" using 1(4) ys(2) by (simp_all add: increasing_def)
    obtain it'' where scan: "chunk_scan from to it1 = (filter (within from to) ys, it'')" "it_err it'' = None"
      using 1(1) [OF n [symmetric] _ ys(1) 1(3) inc(1)] True by blast
    consider "sint (it_t it1) < sint from" | "\<not> sint (it_t it1) < sint from" "sint to < sint (it_t it1)"
      | "\<not> sint (it_t it1) < sint from" "\<not> sint to < sint (it_t it1)" by blast
    then show ?thesis
    proof cases
      case 2
      then have "filter (within from to) xs = []" using inc(2) ys(2) by (fastforce simp: filter_empty_conv)
      moreover have "it_err it1 = None" using n True Next_True(4) [of it it1] by simp
      ultimately show ?thesis using 2 n True by (simp add: chunk_scan.simps [of "from" to it])
    qed (use n True scan ys(2) in \<open>simp_all add: chunk_scan.simps [of "from" to it]\<close>)
  qed
qed

text \<open>A chunk of a file: its record is there, at the place its reference gives.\<close>

definition chunk_stored :: "byte list \<Rightarrow> chunkRef \<Rightarrow> Sample list \<Rightarrow> bool" where
  "chunk_stored f c ys \<longleftrightarrow> ys \<noteq> [] \<and> length ys \<le> MaxSamplesPerChunk \<and> cf_minT c = fst (hd ys) \<and> cf_maxT c = fst (last ys) \<and>
     (\<exists>a ch pre rest. chunk_holds a ch ys \<and> f = pre @ chunk_record EncodingGorilla (Bytes ch) @ rest \<and>
        cf_off c = of_nat (length pre) \<and> cf_recLen c = of_nat (length (chunk_record EncodingGorilla (Bytes ch))))"

lemma chunk_stored_grows: "chunk_stored f c ys \<Longrightarrow> chunk_stored (f @ g) c ys"
  unfolding chunk_stored_def append_assoc by (metis append_assoc)

lemma chunk_stored_read:
  assumes "chunk_stored f c ys" "length f < 2 ^ 63" "increasing ys"
  shows "\<exists>data ch it. chunk_at f (cf_off c) (cf_recLen c) = Inr (EncodingGorilla, data) \<and> FromBytes data = Inr ch \<and>
    chunk_scan from to (newIterator ch) = (filter (within from to) ys, it) \<and> it_err it = None"
proof -
  obtain a ch pre rest where c: "chunk_holds a ch ys" "f = pre @ chunk_record EncodingGorilla (Bytes ch) @ rest"
      "cf_off c = of_nat (length pre)" "cf_recLen c = of_nat (length (chunk_record EncodingGorilla (Bytes ch)))"
    and ys: "length ys \<le> MaxSamplesPerChunk"
    using assms(1) unfolding chunk_stored_def by blast
  note len = length_chunk_bytes [OF c(1) ys]
  have "length (Bytes ch) + 15 \<le> 2 ^ 20" using len(1) by simp
  then have at: "chunk_at f (cf_off c) (cf_recLen c) = Inr (EncodingGorilla, Bytes ch)"
    unfolding c(2-4) by (rule chunk_at_record) (use assms(2) c(2) in simp)
  let ?d = "\<lparr>c_b = \<lparr>bs_stream = Bytes ch, bs_count = 0\<rparr>, c_borrowed = True\<rparr>"
  have bytes: "FromBytes (Bytes ch) = Inr ?d" using len(2) by (simp add: FromBytes_def headerLen_def)
  obtain it where it: "iterate (newIterator ?d) = (ys, it)" "it_err it = None"
    using iterate_holds [OF c(1), of ?d] by (auto simp: Bytes_def)
  from chunk_scan_iterate [OF it assms(3)] at bytes show ?thesis by blast
qed

lemma read_chunks_filter:
  "list_all2 (chunk_stored f) cs yss \<Longrightarrow> length f < 2 ^ 63 \<Longrightarrow> increasing (concat yss) \<Longrightarrow>
    read_chunks f cs from to = Inr (filter (within from to) (concat yss))"
proof (induction cs yss rule: list_all2_induct)
  case (Cons c cs ys yss)
  have inc: "increasing ys" "increasing (concat yss)" using Cons.prems(2) unfolding concat.simps increasing_append by blast+
  have c: "cf_minT c = fst (hd ys)" "cf_maxT c = fst (last ys)" using Cons.hyps(1) by (simp_all add: chunk_stored_def)
  show ?case
  proof (cases "sint (cf_maxT c) < sint from \<or> sint to < sint (cf_minT c)")
    case True
    then have "filter (within from to) ys = []"
      using increasing_bounds [OF inc(1)] c by (fastforce simp: filter_empty_conv)
    with True Cons.IH [OF Cons.prems(1) inc(2)] show ?thesis by simp
  next
    case False
    obtain data ch it where "chunk_at f (cf_off c) (cf_recLen c) = Inr (EncodingGorilla, data)" "FromBytes data = Inr ch"
        "chunk_scan from to (newIterator ch) = (filter (within from to) ys, it)" "it_err it = None"
      using chunk_stored_read [OF Cons.hyps(1) Cons.prems(1) inc(1)] by blast
    with False Cons.IH [OF Cons.prems(1) inc(2)] show ?thesis by simp
  qed
qed simp

section \<open>Writing\<close>

lemma writeChunk_spec:
  assumes "cw_off (w_chunks w) = of_nat (length (cw_f (w_chunks w)))"
    and ys: "increasing ys" "ys \<noteq> []" "length ys \<le> MaxSamplesPerChunk"
  shows "\<exists>c g. writeChunk ys w = (Inr c, w\<lparr>w_chunks := \<lparr>cw_f = cw_f (w_chunks w) @ g, cw_off = of_nat (length (cw_f (w_chunks w) @ g))\<rparr>\<rparr>) \<and>
    chunk_stored (cw_f (w_chunks w) @ g) c ys"
proof -
  obtain a c where ac: "appendAll freshAppender NewChunk ys = Inr (a, c)" "chunk_holds a c ys"
    using appendAll_holds [OF chunk_holds_New, of ys] ys by auto
  let ?f = "cw_f (w_chunks w)" and ?g = "chunk_record EncodingGorilla (Bytes c)"
  let ?c = "\<lparr>cf_minT = fst (hd ys), cf_maxT = fst (last ys), cf_off = of_nat (length ?f), cf_recLen = of_nat (length ?g)\<rparr>"
  have "\<exists>a ch pre rest. chunk_holds a ch ys \<and> ?f @ ?g = pre @ chunk_record EncodingGorilla (Bytes ch) @ rest \<and>
      cf_off ?c = of_nat (length pre) \<and> cf_recLen ?c = of_nat (length (chunk_record EncodingGorilla (Bytes ch)))"
    using ac(2) by (intro exI [of _ a] exI [of _ c] exI [of _ ?f] exI [of _ "[]"]) simp
  then have "chunk_stored (?f @ ?g) ?c ys" using ys by (simp add: chunk_stored_def)
  moreover have "writeChunk ys w = (Inr ?c, w\<lparr>w_chunks := \<lparr>cw_f = ?f @ ?g, cw_off = of_nat (length (?f @ ?g))\<rparr>\<rparr>)"
    using assms(1) by (simp add: writeChunk_def appender_New ac(1) chunk_write_def Let_def)
  ultimately show ?thesis by blast
qed

lemma increasing_take_drop: "increasing xs \<Longrightarrow> increasing (take n xs) \<and> increasing (drop n xs)"
  by (simp add: increasing_def sorted_wrt_take sorted_wrt_drop)

lemma writeChunks_spec:
  "cw_off (w_chunks w) = of_nat (length (cw_f (w_chunks w))) \<Longrightarrow> increasing xs \<Longrightarrow>
    \<exists>cs g yss. writeChunks xs w = (Inr cs, w\<lparr>w_chunks := \<lparr>cw_f = cw_f (w_chunks w) @ g, cw_off = of_nat (length (cw_f (w_chunks w) @ g))\<rparr>\<rparr>) \<and>
      list_all2 (chunk_stored (cw_f (w_chunks w) @ g)) cs yss \<and> concat yss = xs"
proof (induction xs w rule: writeChunks.induct)
  case (1 xs w)
  let ?f = "cw_f (w_chunks w)" and ?N = MaxSamplesPerChunk
  show ?case
  proof (cases "xs = []")
    case True
    then show ?thesis using 1(2) by (intro exI [of _ "[]"]) (simp add: writeChunks.simps)
  next
    case False
    have parts: "increasing (take ?N xs)" "increasing (drop ?N xs)" "take ?N xs \<noteq> []" "length (take ?N xs) \<le> ?N"
      using increasing_take_drop [OF 1(3)] False by (simp_all add: MaxSamplesPerChunk_def)
    obtain c g where c: "writeChunk (take ?N xs) w = (Inr c, w\<lparr>w_chunks := \<lparr>cw_f = ?f @ g, cw_off = of_nat (length (?f @ g))\<rparr>\<rparr>)"
        "chunk_stored (?f @ g) c (take ?N xs)" using writeChunk_spec [OF 1(2) parts(1,3,4)] by blast
    let ?w = "w\<lparr>w_chunks := \<lparr>cw_f = ?f @ g, cw_off = of_nat (length (?f @ g))\<rparr>\<rparr>"
    have "\<exists>cs g' yss. writeChunks (drop ?N xs) ?w = (Inr cs, ?w\<lparr>w_chunks := \<lparr>cw_f = (?f @ g) @ g', cw_off = of_nat (length ((?f @ g) @ g'))\<rparr>\<rparr>) \<and>
        list_all2 (chunk_stored ((?f @ g) @ g')) cs yss \<and> concat yss = drop ?N xs"
      using 1(1) [OF False c(1) [symmetric] refl _ parts(2)] by simp
    then obtain cs g' yss where cs: "writeChunks (drop ?N xs) ?w = (Inr cs, ?w\<lparr>w_chunks := \<lparr>cw_f = (?f @ g) @ g', cw_off = of_nat (length ((?f @ g) @ g'))\<rparr>\<rparr>)"
        "list_all2 (chunk_stored ((?f @ g) @ g')) cs yss" "concat yss = drop ?N xs" by blast
    have "writeChunks xs w = (Inr (c # cs), w\<lparr>w_chunks := \<lparr>cw_f = ?f @ (g @ g'), cw_off = of_nat (length (?f @ (g @ g')))\<rparr>\<rparr>)"
      using False c(1) cs(1) by (simp add: writeChunks.simps [of xs w])
    moreover have "list_all2 (chunk_stored (?f @ (g @ g'))) (c # cs) (take ?N xs # yss)"
      using chunk_stored_grows [OF c(2), of g'] cs(2) by simp
    moreover have "concat (take ?N xs # yss) = xs" using cs(3) by simp
    ultimately show ?thesis by blast
  qed
qed

definition series_stored :: "byte list \<Rightarrow> blockSeries \<Rightarrow> SeriesSamples \<Rightarrow> bool" where
  "series_stored f s x \<longleftrightarrow> bse_ref s = ss_Series x \<and> ss_Samples x \<noteq> [] \<and> increasing (ss_Samples x) \<and>
     (\<exists>yss. list_all2 (chunk_stored f) (bse_chunks s) yss \<and> concat yss = ss_Samples x)"

lemma series_stored_grows: "series_stored f s x \<Longrightarrow> series_stored (f @ g) s x"
  unfolding series_stored_def using list_all2_mono [of "chunk_stored f" _ _ "chunk_stored (f @ g)"] chunk_stored_grows by blast

text \<open>The time range of some series: it covers every sample and both ends are taken.\<close>

definition spans :: "SeriesSamples list \<Rightarrow> i64 \<Rightarrow> i64 \<Rightarrow> bool" where
  "spans xs lo hi \<longleftrightarrow> (\<forall>x \<in> set xs. \<forall>s \<in> set (ss_Samples x). sint lo \<le> sint (fst s) \<and> sint (fst s) \<le> sint hi) \<and>
     (if xs = [] then sint lo = 2 ^ 63 - 1 \<and> sint hi = - (2 ^ 63)
      else (\<exists>x \<in> set xs. lo = fst (hd (ss_Samples x))) \<and> (\<exists>x \<in> set xs. hi = fst (last (ss_Samples x))))"

lemma sint_bounds: "sint (t :: i64) \<le> 2 ^ 63 - 1" "- (2 ^ 63) \<le> sint (t :: i64)"
  using sint_lt [of t] sint_ge [of t] by simp_all

lemma spans_snoc:
  assumes "spans xs lo hi" "increasing ys" "ys \<noteq> []"
  shows "spans (xs @ [\<lparr>ss_Series = ref, ss_Samples = ys\<rparr>]) (min64 lo (fst (hd ys))) (max64 hi (fst (last ys)))"
proof -
  let ?x = "\<lparr>ss_Series = ref, ss_Samples = ys\<rparr>" and ?lo = "min64 lo (fst (hd ys))" and ?hi = "max64 hi (fst (last ys))"
  have le: "sint ?lo \<le> sint lo" "sint ?lo \<le> sint (fst (hd ys))" "sint hi \<le> sint ?hi" "sint (fst (last ys)) \<le> sint ?hi"
    by (simp_all add: min64_def max64_def)
  have old: "sint lo \<le> sint (fst s) \<and> sint (fst s) \<le> sint hi" if "x \<in> set xs" "s \<in> set (ss_Samples x)" for x s
    using assms(1) that unfolding spans_def by blast
  have "sint ?lo \<le> sint (fst s) \<and> sint (fst s) \<le> sint ?hi" if x: "x \<in> set (xs @ [?x])" and s: "s \<in> set (ss_Samples x)" for x s
  proof (cases "x \<in> set xs")
    case True
    from old [OF this s] le(1,3) show ?thesis by linarith
  next
    case False
    then have "s \<in> set ys" using x s by simp
    from increasing_bounds [OF assms(2) this] le(2,4) show ?thesis by linarith
  qed
  moreover have "(\<exists>x \<in> set (xs @ [?x]). ?lo = fst (hd (ss_Samples x))) \<and> (\<exists>x \<in> set (xs @ [?x]). ?hi = fst (last (ss_Samples x)))"
  proof (cases "xs = []")
    case True
    then have "sint lo = 2 ^ 63 - 1" "sint hi = - (2 ^ 63)" using assms(1) by (simp_all add: spans_def)
    then have "?lo = fst (hd ys)" "?hi = fst (last ys)"
      using sint_bounds [of "fst (hd ys)"] sint_bounds [of "fst (last ys)"]
      by (auto simp: min64_def max64_def sint_eq [symmetric])
    with True show ?thesis by simp
  next
    case False
    then have "(\<exists>x \<in> set xs. lo = fst (hd (ss_Samples x))) \<and> (\<exists>x \<in> set xs. hi = fst (last (ss_Samples x)))"
      using assms(1) unfolding spans_def by (simp only: if_False simp_thms)
    then show ?thesis by (auto simp: min64_def max64_def)
  qed
  ultimately show ?thesis unfolding spans_def by simp
qed

definition writer_inv :: "Writer \<Rightarrow> SeriesSamples list \<Rightarrow> bool" where
  "writer_inv w xs \<longleftrightarrow> \<not> w_closed w \<and> cw_off (w_chunks w) = of_nat (length (cw_f (w_chunks w))) \<and>
     (\<exists>g. cw_f (w_chunks w) = cw_f newChunkWriter @ g) \<and>
     list_all2 (series_stored (cw_f (w_chunks w))) (w_ix w) xs \<and> spans xs (w_minT w) (w_maxT w) \<and>
     bst_Series (w_stats w) = int (length xs) \<and> bst_Samples (w_stats w) = int (sum_list (map (\<lambda>x. length (ss_Samples x)) xs))"

lemma writer_inv_new: "writer_inv (NewWriter ulid opts) []"
  by (simp add: writer_inv_def NewWriter_def newChunkWriter_def chunksHeaderLen_def spans_def)

lemma AddSeries_spec:
  assumes inv: "writer_inv w xs" and "Validate ref = None" "increasing ys" "ys \<noteq> []"
  shows "\<exists>w'. AddSeries ref ys w = (Inr (), w') \<and> writer_inv w' (xs @ [\<lparr>ss_Series = ref, ss_Samples = ys\<rparr>]) \<and>
    w_id w' = w_id w \<and> w_opts w' = w_opts w"
proof -
  let ?f = "cw_f (w_chunks w)"
  have w: "\<not> w_closed w" "cw_off (w_chunks w) = of_nat (length ?f)" "list_all2 (series_stored ?f) (w_ix w) xs"
    "spans xs (w_minT w) (w_maxT w)" using inv by (simp_all add: writer_inv_def)
  obtain h where h: "?f = cw_f newChunkWriter @ h" using inv unfolding writer_inv_def by blast
  obtain cs g yss where g: "writeChunks ys w = (Inr cs, w\<lparr>w_chunks := \<lparr>cw_f = ?f @ g, cw_off = of_nat (length (?f @ g))\<rparr>\<rparr>)"
      "list_all2 (chunk_stored (?f @ g)) cs yss" "concat yss = ys" using writeChunks_spec [OF w(2) assms(3)] by blast
  let ?s = "\<lparr>bse_ref = ref, bse_chunks = cs\<rparr>" and ?x = "\<lparr>ss_Series = ref, ss_Samples = ys\<rparr>"
  have "series_stored (?f @ g) ?s ?x" using g(2,3) assms(3,4) by (auto simp: series_stored_def)
  moreover have "list_all2 (series_stored (?f @ g)) (w_ix w) xs"
    by (rule list_all2_mono [OF w(3)]) (rule series_stored_grows)
  ultimately have "list_all2 (series_stored (?f @ g)) (w_ix w @ [?s]) (xs @ [?x])" by (intro list_all2_appendI) simp_all
  moreover have "\<exists>g'. ?f @ g = cw_f newChunkWriter @ g'" unfolding h by auto
  ultimately show ?thesis
    using w(1) g(1) assms(2,4) inv spans_snoc [OF w(4) assms(3,4)] by (simp add: AddSeries_def writer_inv_def)
qed

definition writable :: "SeriesSamples \<Rightarrow> bool" where
  "writable x \<longleftrightarrow> Validate (ss_Series x) = None \<and> increasing (ss_Samples x)"

lemma AddSeries_empty: "\<not> w_closed w \<Longrightarrow> AddSeries ref [] w = (Inr (), w)"
  by (simp add: AddSeries_def)

lemma add_all_spec:
  "writer_inv w xs \<Longrightarrow> list_all writable ss \<Longrightarrow>
    \<exists>w'. add_all ss w = (Inr (), w') \<and> writer_inv w' (xs @ filter (\<lambda>x. ss_Samples x \<noteq> []) ss) \<and> w_id w' = w_id w \<and> w_opts w' = w_opts w"
proof (induction ss arbitrary: w xs)
  case (Cons s ss)
  show ?case
  proof (cases "ss_Samples s = []")
    case True
    with Cons show ?thesis by (simp add: AddSeries_empty writer_inv_def)
  next
    case False
    have s: "Validate (ss_Series s) = None" "increasing (ss_Samples s)" "list_all writable ss"
      using Cons.prems(2) by (simp_all add: writable_def [of s])
    obtain w' where w': "AddSeries (ss_Series s) (ss_Samples s) w = (Inr (), w')" "writer_inv w' (xs @ [s])"
        "w_id w' = w_id w" "w_opts w' = w_opts w"
      using AddSeries_spec [OF Cons.prems(1) s(1,2) False] by (metis SeriesSamples.surjective old.unit.exhaust)
    from Cons.IH [OF w'(2) s(3)] w' False show ?thesis by simp
  qed
qed simp

section \<open>An opened block\<close>

abbreviation skey :: "SeriesSamples \<Rightarrow> string" where
  "skey x \<equiv> series_Key (ss_Series x)"

definition block_holds :: "Block \<Rightarrow> SeriesSamples list \<Rightarrow> bool" where
  "block_holds b xs \<longleftrightarrow> index_built (ir_series (b_ix b)) (b_ix b) \<and> indexed_ok (ir_series (b_ix b)) \<and> length (b_chunks b) < 2 ^ 63 \<and>
     list_all2 (series_stored (b_chunks b)) (ir_series (b_ix b)) xs \<and> sorted_wrt (<) (map skey xs) \<and>
     xs \<noteq> [] \<and> spans xs (bm_MinTime (b_meta b)) (bm_MaxTime (b_meta b))"

lemma all2_member: "list_all2 R as bs \<Longrightarrow> a \<in> set as \<Longrightarrow> \<exists>b \<in> set bs. R a b"
  by (induction rule: list_all2_induct) auto

lemma insort_all2:
  assumes "\<And>a b. R a b \<Longrightarrow> f a = g b" "R a b"
  shows "list_all2 R as bs \<Longrightarrow> list_all2 R (insort_key f a as) (insort_key g b bs)"
  by (induction rule: list_all2_induct) (use assms in \<open>force+\<close>)

lemma sort_all2:
  assumes "\<And>a b. R a b \<Longrightarrow> f a = g b"
  shows "list_all2 R as bs \<Longrightarrow> list_all2 R (sort_key f as) (sort_key g bs)"
  by (induction rule: list_all2_induct) (simp_all add: sort_key_def insort_all2 [OF assms])

lemma spans_set: "set xs = set ys \<Longrightarrow> spans xs lo hi \<Longrightarrow> spans ys lo hi"
  unfolding spans_def by (metis set_empty)

text \<open>Series that a block may hold together.\<close>

definition block_input :: "SeriesSamples list \<Rightarrow> bool" where
  "block_input xs \<longleftrightarrow> list_all (\<lambda>x. Validate (ss_Series x) = None \<and> no_pseudo (ss_Series x) \<and> increasing (ss_Samples x)) xs \<and>
     distinct (map skey xs)"

lemma opened_holds:
  assumes inv: "writer_inv w xs" and ok: "block_input xs" and "xs \<noteq> []"
    and close: "fst (writer_Close parses w) = Inr files"
    and fits: "length (bf_index files) < 2 ^ 63" "length (bf_chunks files) < 2 ^ 63"
  shows "\<exists>b. block_Open files = Inr b \<and> b_meta b = bf_meta files \<and> block_holds b (sort_key skey xs)"
proof -
  have all2: "list_all2 (series_stored (cw_f (w_chunks w))) (w_ix w) xs" and span: "spans xs (w_minT w) (w_maxT w)"
    using inv by (simp_all add: writer_inv_def)
  obtain g where g: "cw_f (w_chunks w) = cw_f newChunkWriter @ g" using inv unfolding writer_inv_def by blast
  have f: "bf_index files = index_writeTo (w_ix w)" "bf_chunks files = cw_f (w_chunks w)" "bm_Version (bf_meta files) = MetaVersion"
      "bm_MinTime (bf_meta files) = w_minT w" "bm_MaxTime (bf_meta files) = w_maxT w"
    using close by (auto simp: writer_Close_def Let_def split: if_splits option.splits)
  obtain r where r: "openIndexReader (bf_index files) = Inr r" "index_built (sort_series (w_ix w)) r"
    using open_writeTo [of "w_ix w"] fits(1) unfolding f(1) by blast
  then have ser: "ir_series r = sort_series (w_ix w)" by (simp add: index_built_def Let_def)
  let ?b = "\<lparr>b_meta = bf_meta files, b_ix = r, b_chunks = bf_chunks files\<rparr>"
  have opened: "block_Open files = Inr ?b"
    using r(1) openChunkReader_new [of g] by (simp add: block_Open_def ReadMeta_def f g)
  have stored: "list_all2 (series_stored (bf_chunks files)) (ir_series r) (sort_key skey xs)"
    unfolding ser sort_series_def f(2) by (rule sort_all2 [OF _ all2]) (simp add: series_stored_def)
  have "\<exists>x \<in> set xs. bse_ref s = ss_Series x" if s: "s \<in> set (ir_series r)" for s
  proof -
    obtain x where "x \<in> set (sort_key skey xs)" "series_stored (bf_chunks files) s x"
      using all2_member [OF stored s] by blast
    then show ?thesis by (auto simp: series_stored_def)
  qed
  then have "indexed_ok (ir_series r)" using ok by (fastforce simp: indexed_ok_def block_input_def list_all_iff)
  moreover have "sorted_wrt (<) (map skey (sort_key skey xs))"
    using ok unfolding strict_sorted_iff by (simp add: block_input_def distinct_map)
  ultimately have "block_holds ?b (sort_key skey xs)"
    unfolding block_holds_def using r(2) stored fits(2) spans_set [OF _ span, of "sort_key skey xs"] assms(3)
    by (simp add: ser f(4,5) set_empty [symmetric] del: set_empty)
  with opened show ?thesis by fastforce
qed

lemma holds_samples:
  assumes "block_holds b xs" "i < length xs"
  shows "bse_ref (ir_series (b_ix b) ! i) = ss_Series (xs ! i)"
    "b_samples b (ir_series (b_ix b) ! i) from to = Inr (filter (within from to) (ss_Samples (xs ! i)))"
proof -
  have s: "series_stored (b_chunks b) (ir_series (b_ix b) ! i) (xs ! i)" "length (b_chunks b) < 2 ^ 63"
    using assms unfolding block_holds_def by (simp_all add: list_all2_conv_all_nth)
  then show "bse_ref (ir_series (b_ix b) ! i) = ss_Series (xs ! i)" by (simp add: series_stored_def)
  obtain yss where "list_all2 (chunk_stored (b_chunks b)) (bse_chunks (ir_series (b_ix b) ! i)) yss"
      "concat yss = ss_Samples (xs ! i)" "increasing (ss_Samples (xs ! i))"
    using s(1) unfolding series_stored_def by blast
  with read_chunks_filter [OF this(1) s(2)]
  show "b_samples b (ir_series (b_ix b) ! i) from to = Inr (filter (within from to) (ss_Samples (xs ! i)))"
    by (simp add: b_samples_def)
qed

lemma holds_length:
  assumes "block_holds b xs"
  shows "length (ir_series (b_ix b)) = length xs" "length xs < 2 ^ 63"
proof -
  show l: "length (ir_series (b_ix b)) = length xs" using assms unfolding block_holds_def by (blast dest: list_all2_lengthD)
  have "length (ir_series (b_ix b)) < 2 ^ 63" using assms unfolding block_holds_def index_built_def Let_def by blast
  then show "length xs < 2 ^ 63" by (simp only: l)
qed

lemma holds_series:
  assumes "block_holds b xs" "i < length xs"
  shows "b_series b (of_nat i) = Inr (ir_series (b_ix b) ! i)"
proof -
  have "unat (of_nat i :: u64) = i" "unat (of_nat (length xs) :: u64) = length xs"
    using holds_length(2) [OF assms(1)] assms(2) by (simp_all add: unat_of_nat_63)
  then show ?thesis using assms(2) by (simp add: b_series_def holds_length [OF assms(1)] word_le_nat_alt)
qed

lemma holds_index: "block_holds b xs \<Longrightarrow> block_index (b_ix b)"
  unfolding block_holds_def block_index_def by blast

lemma holds_block_series:
  assumes "block_holds b xs"
  shows "block_series (b_ix b) i = (if unat i < length xs then Some (ss_Series (xs ! unat i)) else None)"
  using holds_samples(1) [OF assms] holds_length(1) [OF assms] by (simp add: block_series_def)

end
