(* ===== verification/Block_Properties.thy ===== *)
theory Block_Properties
  imports Block_Roundtrip
begin

text \<open>
  The properties of blocks: what the writer is given is what an opened block returns, whole, by key,
  by metric and by selector.
\<close>

section \<open>Reading a block that holds some series\<close>

lemma filter_spanned:
  assumes "spans xs lo hi" "x \<in> set xs"
  shows "filter (within lo hi) (ss_Samples x) = ss_Samples x"
  using assms unfolding spans_def by (intro filter_True) fastforce

lemma holds_All:
  assumes "block_holds b xs"
  shows "block_All b = Inr xs"
proof -
  let ?ss = "ir_series (b_ix b)" and ?m = "b_meta b"
  have sp: "spans xs (bm_MinTime ?m) (bm_MaxTime ?m)" using assms by (simp add: block_holds_def)
  have "read_every b ys = Inr zs" if "\<forall>i < length zs. bse_ref (ys ! i) = ss_Series (zs ! i) \<and>
      b_samples b (ys ! i) (bm_MinTime ?m) (bm_MaxTime ?m) = Inr (ss_Samples (zs ! i))" "length ys = length zs" for ys zs
    using that
  proof (induction ys arbitrary: zs)
    case (Cons y ys)
    then obtain z zs' where z: "zs = z # zs'" by (cases zs) auto
    have "bse_ref y = ss_Series z" "b_samples b y (bm_MinTime ?m) (bm_MaxTime ?m) = Inr (ss_Samples z)"
      using Cons.prems(1) [rule_format, of 0] by (simp_all add: z)
    moreover have "read_every b ys = Inr zs'"
      using Cons.prems by (intro Cons.IH) (auto simp: z dest: spec [of _ "Suc _"])
    ultimately show ?case by (simp add: z)
  qed simp
  moreover have "b_samples b (?ss ! i) (bm_MinTime ?m) (bm_MaxTime ?m) = Inr (ss_Samples (xs ! i))" if "i < length xs" for i
    using holds_samples(2) [OF assms that] filter_spanned [OF sp, of "xs ! i"] that by simp
  ultimately show ?thesis
    unfolding block_All_def using holds_samples(1) [OF assms] holds_length(1) [OF assms] by blast
qed

lemma holds_keys:
  assumes "block_holds b xs" "i < length xs" "j < length xs"
  shows "skey (xs ! i) < skey (xs ! j) \<longleftrightarrow> i < j" "skey (xs ! i) = skey (xs ! j) \<longleftrightarrow> i = j"
proof -
  have "sorted_wrt (<) (map skey xs)" using assms(1) by (simp add: block_holds_def)
  then have l: "skey (xs ! i) < skey (xs ! j)" if "i < j" "j < length xs" for i j
    using sorted_wrt_nth_less [of "(<)" "map skey xs" i j] that by simp
  show "skey (xs ! i) < skey (xs ! j) \<longleftrightarrow> i < j" "skey (xs ! i) = skey (xs ! j) \<longleftrightarrow> i = j"
    using l [of i j] l [of j i] assms(2,3) by (cases i j rule: linorder_cases; auto)+
qed

lemma holds_SamplesFor:
  assumes "block_holds b xs"
  shows "x \<in> set xs \<Longrightarrow> SamplesFor b (skey x) = Inr (ss_Samples x)"
    "\<forall>x \<in> set xs. skey x \<noteq> key \<Longrightarrow> SamplesFor b key = Inr []"
proof -
  let ?ss = "ir_series (b_ix b)" and ?m = "b_meta b"
  have sp: "spans xs (bm_MinTime ?m) (bm_MaxTime ?m)" using assms by (simp add: block_holds_def)
  have key: "series_Key (bse_ref (?ss ! i)) = skey (xs ! i)" if "i < length xs" for i
    using holds_samples(1) [OF assms that] by simp
  note len = holds_length(1) [OF assms]
  have mono: "\<forall>m n. m \<le> n \<and> k \<le> series_Key (bse_ref (?ss ! m)) \<and> n < length xs \<longrightarrow> k \<le> series_Key (bse_ref (?ss ! n))" for k
  proof (intro allI impI)
    fix m n assume a: "m \<le> n \<and> k \<le> series_Key (bse_ref (?ss ! m)) \<and> n < length xs"
    then have "k \<le> skey (xs ! m)" using key [of m] by simp
    also have "\<dots> \<le> skey (xs ! n)" using holds_keys [OF assms, of m n] a by (cases "m = n") (auto intro: less_imp_le)
    finally show "k \<le> series_Key (bse_ref (?ss ! n))" using key [of n] a by simp
  qed
  define n where "n k = sort_Search (length xs) (\<lambda>i. k \<le> series_Key (bse_ref (?ss ! i)))" for k
  note search = search_least [OF mono, folded n_def]
  have def: "SamplesFor b k = (if n k = length xs \<or> series_Key (bse_ref (?ss ! n k)) \<noteq> k then Inr []
      else b_samples b (?ss ! n k) (bm_MinTime ?m) (bm_MaxTime ?m))" for k
    by (simp add: SamplesFor_def Let_def len n_def)
  show "SamplesFor b key = Inr []" if none: "\<forall>x \<in> set xs. skey x \<noteq> key"
    unfolding def using none key [of "n key"] search(1) [of key] by (cases "n key = length xs") auto
  assume "x \<in> set xs"
  then obtain i where i: "i < length xs" "x = xs ! i" by (auto simp: in_set_conv_nth)
  have "\<not> i < n (skey x)" using search(2) [of i "skey x"] key [OF i(1)] i(2) by auto
  then have ni: "n (skey x) \<le> i" "n (skey x) < length xs" using i(1) by simp_all
  have "skey (xs ! i) \<le> skey (xs ! n (skey x))" using search(3) [of "skey x" "n (skey x)"] ni(2) key [OF ni(2)] i(2) by simp
  then have "n (skey x) = i" using holds_keys(1) [OF assms ni(2) i(1)] ni(1) by auto
  then show "SamplesFor b (skey x) = Inr (ss_Samples x)"
    unfolding def using key [OF i(1)] i holds_samples(2) [OF assms i(1)] filter_spanned [OF sp, of x] by simp
qed

text \<open>The ids an index query yields are the positions of the series it is about, in order.\<close>

lemma ascending_positions:
  assumes "ascending ids" "set ids = {i. unat i < length xs \<and> P (xs ! unat i)}" "length xs < 2 ^ 63"
  shows "ids = map of_nat (filter (\<lambda>i. P (xs ! i)) [0..<length xs])"
proof (rule strict_sorted_equal [OF _ assms(1)])
  show "ascending (map of_nat (filter (\<lambda>i. P (xs ! i)) [0..<length xs]))"
    using assms(3) by (intro ascending_of_nat) (auto simp: sorted_wrt_filter sorted_wrt_upt)
  show "set ids = set (map of_nat (filter (\<lambda>i. P (xs ! i)) [0..<length xs]))"
    unfolding assms(2) set_map set_filter set_upt using of_nat_image [OF assms(3), of "\<lambda>i. P (xs ! i)"]
    by (simp only: atLeastLessThan_iff le0 simp_thms)
qed

lemma map_nth_filter: "map ((!) xs) (filter (\<lambda>i. P (xs ! i)) [0..<length xs]) = filter P xs"
  using filter_map [of P "(!) xs" "[0..<length xs]"] by (simp add: map_nth comp_def)

definition cut :: "i64 \<Rightarrow> i64 \<Rightarrow> SeriesSamples \<Rightarrow> SeriesSamples" where
  "cut from to x = \<lparr>ss_Series = ss_Series x, ss_Samples = filter (within from to) (ss_Samples x)\<rparr>"

lemma select_ids_spec:
  assumes "block_holds b xs"
  shows "\<forall>i \<in> set is. i < length xs \<Longrightarrow>
    select_ids b from to (map of_nat is) = Inr (filter (\<lambda>x. ss_Samples x \<noteq> []) (map (cut from to) (map ((!) xs) is)))"
  by (induction "is") (simp_all add: holds_series [OF assms] holds_samples [OF assms] cut_def)

lemma refs_of_spec:
  assumes "block_holds b xs"
  shows "\<forall>i \<in> set is. i < length xs \<Longrightarrow> refs_of b (map of_nat is) = Inr (map ss_Series (map ((!) xs) is))"
  by (induction "is") (simp_all add: holds_series [OF assms] holds_samples [OF assms])

lemma holds_no_pseudo:
  assumes "block_holds b xs"
  shows "\<forall>i ref. block_series (b_ix b) i = Some ref \<longrightarrow> no_pseudo ref"
proof (intro allI impI)
  fix i ref assume "block_series (b_ix b) i = Some ref"
  then have "ref \<in> bse_ref ` set (ir_series (b_ix b))" by (auto simp: block_series_def split: if_splits)
  then show "no_pseudo ref" using assms by (auto simp: block_holds_def indexed_ok_def list_all_iff)
qed

lemma holds_positions:
  assumes "block_holds b xs"
  shows "{i. \<exists>ref. block_series (b_ix b) i = Some ref \<and> P ref} = {i. unat i < length xs \<and> P (ss_Series (xs ! unat i))}"
  by (auto simp: holds_block_series [OF assms] split: if_splits)

lemma sorted_keys_sort: "sorted_wrt (<) (map skey ys) \<Longrightarrow> sort_key skey ys = ys"
  by (intro sort_key_id_if_sorted) (simp add: strict_sorted_iff)

lemma holds_Select:
  assumes "block_holds b xs" "plain_selector sel"
  shows "block_Select b sel from to =
    Inr (filter (\<lambda>x. ss_Samples x \<noteq> []) (map (cut from to) (filter (\<lambda>x. selects sel (ss_Series x)) xs)))" (is "_ = Inr ?out")
proof (cases "Overlaps b from to")
  case True
  let ?P = "\<lambda>x. selects sel (ss_Series x)"
  note sel = blk.Select_those [OF holds_index [OF assms(1)] assms(2) holds_no_pseudo [OF assms(1)]]
  have "index_Select (ir_Lookup (b_ix b)) sel = map of_nat (filter (\<lambda>i. ?P (xs ! i)) [0..<length xs])"
    using sel unfolding holds_positions [OF assms(1)] by (intro ascending_positions holds_length [OF assms(1)])
  then have out: "select_ids b from to (index_Select (ir_Lookup (b_ix b)) sel) = Inr ?out"
    using select_ids_spec [OF assms(1), of "filter (\<lambda>i. ?P (xs ! i)) [0..<length xs]" "from" to]
    by (simp add: map_nth_filter [of xs ?P, symmetric] comp_def)
  have "sorted_wrt (<) (map skey xs)" using assms(1) by (simp add: block_holds_def)
  then have "sorted_wrt (<) (map skey ?out)"
    by (auto simp: sorted_wrt_map sorted_wrt_filter cut_def filter_map comp_def)
  with True out show ?thesis by (simp add: block_Select_def sorted_keys_sort)
next
  case False
  have sp: "spans xs (bm_MinTime (b_meta b)) (bm_MaxTime (b_meta b))" using assms(1) by (simp add: block_holds_def)
  have "ss_Samples (cut from to x) = []" if "x \<in> set xs" for x
    using sp that False unfolding spans_def Overlaps_def cut_def by (fastforce simp: filter_empty_conv)
  then have "?out = []" by (auto simp: filter_empty_conv)
  with False show ?thesis by (simp add: block_Select_def)
qed

lemma holds_SeriesOf:
  assumes "block_holds b xs"
  shows "block_SeriesOf b metric = Inr (filter (\<lambda>ref. ref_Metric ref = metric) (map ss_Series xs))"
proof -
  let ?P = "\<lambda>x. ref_Metric (ss_Series x) = metric"
  note index = holds_index [OF assms]
  have "ascending (lk_Postings (ir_Lookup (b_ix b)) MetricName metric)" using blk.Postings_law [OF index] by blast
  moreover note blk.metric_ids(1) [OF index holds_no_pseudo [OF assms], of metric, unfolded holds_positions [OF assms]]
  ultimately have "lk_Postings (ir_Lookup (b_ix b)) MetricName metric = map of_nat (filter (\<lambda>i. ?P (xs ! i)) [0..<length xs])"
    by (intro ascending_positions holds_length [OF assms])
  then show ?thesis
    using refs_of_spec [OF assms, of "filter (\<lambda>i. ?P (xs ! i)) [0..<length xs]"]
    by (simp add: block_SeriesOf_def ir_Lookup_def map_nth_filter [of xs ?P] filter_map comp_def)
qed

section \<open>Writing and opening\<close>

abbreviation written :: "SeriesSamples list \<Rightarrow> SeriesSamples list" where
  "written xs \<equiv> sort_key skey (filter (\<lambda>x. ss_Samples x \<noteq> []) xs)"

lemma block_input_filter: "block_input xs \<Longrightarrow> block_input (filter P xs)"
  by (auto simp: block_input_def list_all_iff distinct_map inj_on_def)

lemma block_input_writable: "block_input xs \<Longrightarrow> list_all writable xs"
  by (auto simp: block_input_def list_all_iff writable_def)

lemma writer_closes:
  assumes "writer_inv w xs"
  shows "xs \<noteq> [] \<Longrightarrow> parses (w_id w) \<Longrightarrow> list_all parses (wo_Sources (w_opts w)) \<Longrightarrow>
      \<exists>files. fst (writer_Close parses w) = Inr files"
    "fst (writer_Close parses w) = Inr files \<Longrightarrow> xs \<noteq> [] \<and> bm_ULID (bf_meta files) = w_id w \<and>
      bm_Compaction (bf_meta files) = \<lparr>cp_Level = wo_Level (w_opts w), cp_Sources = wo_Sources (w_opts w)\<rparr> \<and>
      bm_ResolutionS (bf_meta files) = wo_ResolutionS (w_opts w) \<and> spans xs (bm_MinTime (bf_meta files)) (bm_MaxTime (bf_meta files))"
proof -
  have w: "\<not> w_closed w" "bst_Series (w_stats w) = int (length xs)" "spans xs (w_minT w) (w_maxT w)"
    using assms by (simp_all add: writer_inv_def)
  show "\<exists>files. fst (writer_Close parses w) = Inr files"
    if "xs \<noteq> []" "parses (w_id w)" "list_all parses (wo_Sources (w_opts w))"
  proof -
    have "find (\<lambda>src. \<not> parses src) (wo_Sources (w_opts w)) = None" using that(3) by (auto simp: find_None_iff list_all_iff)
    then show ?thesis using w that(1,2) by (simp add: writer_Close_def Let_def)
  qed
  show "xs \<noteq> [] \<and> bm_ULID (bf_meta files) = w_id w \<and>
      bm_Compaction (bf_meta files) = \<lparr>cp_Level = wo_Level (w_opts w), cp_Sources = wo_Sources (w_opts w)\<rparr> \<and>
      bm_ResolutionS (bf_meta files) = wo_ResolutionS (w_opts w) \<and> spans xs (bm_MinTime (bf_meta files)) (bm_MaxTime (bf_meta files))"
    if "fst (writer_Close parses w) = Inr files"
    using that w by (auto simp: writer_Close_def Let_def split: if_splits option.splits)
qed

definition files_fit :: "BlockFiles \<Rightarrow> bool" where
  "files_fit files \<longleftrightarrow> length (bf_index files) < 2 ^ 63 \<and> length (bf_chunks files) < 2 ^ 63"

text \<open>What a block writes out of a list of series, when it does.\<close>

lemma written_files:
  assumes "block_input xs" "block_Write parses ulid xs opts = Inr files"
  shows "filter (\<lambda>x. ss_Samples x \<noteq> []) xs \<noteq> []" "bm_ULID (bf_meta files) = ulid"
    "bm_Compaction (bf_meta files) = \<lparr>cp_Level = wo_Level opts, cp_Sources = wo_Sources opts\<rparr>"
    "bm_ResolutionS (bf_meta files) = wo_ResolutionS opts" "spans (written xs) (bm_MinTime (bf_meta files)) (bm_MaxTime (bf_meta files))"
    "files_fit files \<Longrightarrow> \<exists>b. block_Open files = Inr b \<and> b_meta b = bf_meta files \<and> block_holds b (written xs)"
proof -
  let ?xs = "filter (\<lambda>x. ss_Samples x \<noteq> []) xs"
  obtain w where w: "add_all xs (NewWriter ulid opts) = (Inr (), w)" "writer_inv w ?xs" "w_id w = ulid" "w_opts w = opts"
    using add_all_spec [OF writer_inv_new block_input_writable [OF assms(1)], of ulid opts] by (auto simp: NewWriter_def)
  then have close: "fst (writer_Close parses w) = Inr files" using assms(2) by (simp add: block_Write_def)
  note c = writer_closes(2) [OF w(2) close, unfolded w(3,4)]
  show ne: "?xs \<noteq> []" by (rule conjunct1 [OF c])
  show "bm_ULID (bf_meta files) = ulid" by (rule conjunct1 [OF conjunct2 [OF c]])
  show "bm_Compaction (bf_meta files) = \<lparr>cp_Level = wo_Level opts, cp_Sources = wo_Sources opts\<rparr>"
    by (rule conjunct1 [OF conjunct2 [OF conjunct2 [OF c]]])
  show "bm_ResolutionS (bf_meta files) = wo_ResolutionS opts"
    by (rule conjunct1 [OF conjunct2 [OF conjunct2 [OF conjunct2 [OF c]]]])
  have "spans ?xs (bm_MinTime (bf_meta files)) (bm_MaxTime (bf_meta files))"
    by (rule conjunct2 [OF conjunct2 [OF conjunct2 [OF conjunct2 [OF c]]]])
  then show "spans (written xs) (bm_MinTime (bf_meta files)) (bm_MaxTime (bf_meta files))"
    by (rule spans_set [rotated]) simp
  show "\<exists>b. block_Open files = Inr b \<and> b_meta b = bf_meta files \<and> block_holds b (written xs)" if "files_fit files"
    using that unfolding files_fit_def by (intro opened_holds [OF w(2) block_input_filter [OF assms(1)] ne close]) simp_all
qed

lemma found_samples:
  assumes "block_input xs" "block_holds b (written xs)"
  shows "SamplesFor b key = Inr (case find (\<lambda>x. skey x = key) xs of None \<Rightarrow> [] | Some x \<Rightarrow> ss_Samples x)"
proof (cases "find (\<lambda>x. skey x = key) xs")
  case None
  then have "\<forall>x \<in> set (written xs). skey x \<noteq> key" by (auto simp: find_None_iff)
  from holds_SamplesFor(2) [OF assms(2) this] None show ?thesis by simp
next
  case (Some x)
  then have x: "x \<in> set xs" "skey x = key" by (auto simp: find_Some_iff)
  show ?thesis
  proof (cases "ss_Samples x = []")
    case True
    have "y = x" if "y \<in> set xs" "skey y = key" for y
      using assms(1) x that by (auto simp: block_input_def distinct_map inj_on_def)
    with True have "\<forall>y \<in> set (written xs). skey y \<noteq> key" by auto
    from holds_SamplesFor(2) [OF assms(2) this] Some True show ?thesis by simp
  next
    case False
    then have "x \<in> set (written xs)" using x by simp
    from holds_SamplesFor(1) [OF assms(2) this] x Some show ?thesis by simp
  qed
qed

lemma Write_succeeds:
  assumes "block_input xs" "filter (\<lambda>x. ss_Samples x \<noteq> []) xs \<noteq> []" "parses ulid" "list_all parses (wo_Sources opts)"
  shows "\<exists>files. block_Write parses ulid xs opts = Inr files"
proof -
  obtain w where w: "add_all xs (NewWriter ulid opts) = (Inr (), w)"
      "writer_inv w (filter (\<lambda>x. ss_Samples x \<noteq> []) xs)" "w_id w = ulid" "w_opts w = opts"
    using add_all_spec [OF writer_inv_new block_input_writable [OF assms(1)], of ulid opts] by (auto simp: NewWriter_def)
  with writer_closes(1) [OF w(2) assms(2)] assms(3,4) show ?thesis by (simp add: block_Write_def)
qed

section \<open>An example\<close>

definition example_ref :: SeriesRef where
  "example_ref = \<lparr>ref_Metric = ''m'', ref_Tags = [\<lparr>tag_Key = ''k'', tag_Value = ''v''\<rparr>]\<rparr>"

definition example_series :: "SeriesSamples list" where
  "example_series = [\<lparr>ss_Series = example_ref, ss_Samples = [(1000, 5), (2000, 7)]\<rparr>]"

definition example_opts :: WriterOptions where
  "example_opts = \<lparr>wo_Level = 0, wo_Sources = [], wo_ResolutionS = 0\<rparr>"

lemma example_input: "block_input example_series"
  by (simp add: block_input_def example_series_def example_ref_def Validate_def no_pseudo_def MetricName_def increasing_def)

lemma example_written: "filter (\<lambda>x. ss_Samples x \<noteq> []) example_series = example_series" "written example_series = example_series"
  by (simp_all add: example_series_def)

lemma length_putUvarint_le: "length (putUvarint u) \<le> 10" "length (putVarint v) \<le> 10"
  using length_putUvarint(2) by (simp_all add: putVarint_def)

lemma length_concat_le: "(\<And>x. x \<in> set xs \<Longrightarrow> length (f x) \<le> k) \<Longrightarrow> length (concat (map f xs)) \<le> k * length xs"
proof (induction xs)
  case (Cons x xs)
  then have "length (f x) \<le> k" "length (concat (map f xs)) \<le> k * length xs" by simp_all
  then show ?case by simp
qed simp

lemma put_lists_length:
  assumes "\<And>l. l \<in> set ls \<Longrightarrow> length (postings_bytes (pl_ids l)) \<le> k"
  shows "length (fst (put_lists ids ls buf)) = length ls \<and> length (snd (put_lists ids ls buf)) \<le> length buf + k * length ls"
proof -
  obtain table buf' where t: "put_lists ids ls buf = (table, buf')" by force
  from put_lists_spec [OF t] length_concat_le [of ls "\<lambda>l. postings_bytes (pl_ids l)" k] assms show ?thesis by (simp add: t)
qed

lemma length_symbols_bytes:
  assumes "\<forall>s \<in> set syms. length s \<le> n"
  shows "length (symbols_bytes syms) \<le> 10 + (10 + n) * length syms"
proof -
  have "length (concat (map (\<lambda>s. putUvarint (of_nat (length s)) @ string_bytes s) syms)) \<le> (10 + n) * length syms"
  proof (rule length_concat_le)
    fix s assume "s \<in> set syms"
    then show "length (putUvarint (of_nat (length s)) @ string_bytes s) \<le> 10 + n"
      using assms length_putUvarint_le(1) [of "of_nat (length s)"] by (simp add: add_mono)
  qed
  then show ?thesis using length_putUvarint_le(1) [of "of_nat (length syms)"] by (simp add: symbols_bytes_def)
qed

lemma length_series_bytes:
  "length (series_bytes ids s) \<le> 30 + 20 * length (ref_Tags (bse_ref s)) + 40 * length (bse_chunks s)"
proof -
  note u = length_putUvarint_le
  have "length (tag_sym_bytes ids t) \<le> 20" for t
    using u(1) [of "sym_ord ids (tag_Key t)"] u(1) [of "sym_ord ids (tag_Value t)"] by (simp add: tag_sym_bytes_def)
  then have t: "length (concat (map (tag_sym_bytes ids) (ref_Tags (bse_ref s)))) \<le> 20 * length (ref_Tags (bse_ref s))"
    by (intro length_concat_le)
  have "length (chunkRef_bytes c) \<le> 40" for c
    using u(2) [of "cf_minT c"] u(1) [of "cf_maxT c - cf_minT c"] u(1) [of "cf_off c"] u(1) [of "cf_recLen c"]
    by (simp add: chunkRef_bytes_def)
  then have "length (concat (map chunkRef_bytes (bse_chunks s))) \<le> 40 * length (bse_chunks s)" by (intro length_concat_le)
  with t u(1) [of "sym_ord ids (ref_Metric (bse_ref s))"] u(1) [of "of_nat (length (ref_Tags (bse_ref s)))"]
    u(1) [of "of_nat (length (bse_chunks s))"]
  show ?thesis unfolding series_bytes_def length_append by linarith
qed

lemma length_entry_bytes: "length (entry_bytes e) \<le> 30"
  using length_putUvarint_le(1) [of "te_keySym e"] length_putUvarint_le(1) [of "te_valSym e"] length_putUvarint_le(1) [of "te_off e"]
  by (simp add: entry_bytes_def)

lemma length_index_writeTo:
  assumes "sort_series xs = ss" "syms = sort (symbol_set ss)"
    "put_lists (ordinals syms) (invert ss) (putUint32BE indexMagic @ [indexVersion] @ symbols_bytes syms @
       putUvarint (of_nat (length ss)) @ concat (map (series_bytes (ordinals syms)) ss)) = (table, buf)"
  shows "length (index_writeTo xs) = length buf + length (putUvarint (of_nat (length table))) + length (concat (map entry_bytes table)) + 36"
  unfolding index_writeTo_def buildSymbols_def Let_def assms(1) assms(2) [symmetric] prod.case append_assoc assms(3) by simp

lemma example_index: "length (index_writeTo [\<lparr>bse_ref = example_ref, bse_chunks = [c]\<rparr>]) \<le> 1000"
proof -
  let ?s = "\<lparr>bse_ref = example_ref, bse_chunks = [c]\<rparr>" and ?u = "\<lambda>u. length (putUvarint u)"
  define syms where "syms = sort (symbol_set [?s])"
  have one: "sort_series [?s] = [?s]" by (simp add: sort_series_def)
  have inv: "length (invert [?s]) = 2" "\<forall>l \<in> set (invert [?s]). pl_ids l = [0]"
    by (simp_all add: invert_def invert_series_def invert_add_def example_ref_def MetricName_def Let_def)
  have syms: "length syms = 4" "\<forall>s \<in> set syms. length s \<le> 8"
    by (simp_all add: syms_def symbol_set_def example_ref_def MetricName_def)
  note u = length_putUvarint_le(1)
  have S: "length (symbols_bytes syms) \<le> 82" using length_symbols_bytes [OF syms(2)] syms(1) by simp
  have R: "length (series_bytes (ordinals syms) ?s) \<le> 90"
    using length_series_bytes [of "ordinals syms" ?s] by (simp add: example_ref_def)
  define buf where "buf = putUint32BE indexMagic @ indexVersion # symbols_bytes syms @ putUvarint 1 @ series_bytes (ordinals syms) ?s"
  have buf: "length buf \<le> 187" using S R u [of 1] by (simp add: buf_def)
  obtain table buf' where t: "put_lists (ordinals syms) (invert [?s]) buf = (table, buf')" by force
  have "length (postings_bytes (pl_ids l)) \<le> 20" if "l \<in> set (invert [?s])" for l
    using inv(2) that u [of 1] u [of 0] by (simp add: postings_bytes_def)
  from put_lists_length [of "invert [?s]" 20, OF this, of "ordinals syms" buf] inv(1) buf
  have T: "length table = 2" "length buf' \<le> 227" unfolding t fst_conv snd_conv by linarith+
  have "length (concat (map entry_bytes table)) \<le> 60"
    using length_concat_le [of table entry_bytes 30] length_entry_bytes T(1) by simp
  moreover have "length (index_writeTo [?s]) = length buf' + length (putUvarint (of_nat (length table))) +
      length (concat (map entry_bytes table)) + 36"
    by (rule length_index_writeTo [OF one syms_def]) (use t in \<open>simp add: buf_def\<close>)
  ultimately show ?thesis using T u [of "of_nat (length table)"] by linarith
qed

lemma one_series_fits:
  assumes "block_Write parses ulid [\<lparr>ss_Series = example_ref, ss_Samples = ys\<rparr>] opts = Inr files"
    and ys: "increasing ys" "length ys \<le> MaxSamplesPerChunk" "ys \<noteq> []"
  shows "files_fit files"
proof -
  obtain a c where c: "appendAll freshAppender NewChunk ys = Inr (a, c)" "chunk_holds a c ys"
    using appendAll_holds [OF chunk_holds_New, of ys] ys by auto
  let ?g = "chunk_record EncodingGorilla (Bytes c)"
  have len: "length (Bytes c) \<le> 2400" by (rule length_chunk_bytes(1) [OF c(2) ys(2)])
  have "\<exists>r. writeChunks ys w = (Inr [r], w\<lparr>w_chunks := snd (chunk_write EncodingGorilla (Bytes c) (w_chunks w))\<rparr>)" for w
    using ys(2,3) by (simp add: writeChunks.simps [of ys] writeChunks.simps [of "[]"] writeChunk_def appender_New c(1) chunk_write_def Let_def)
  then obtain r where "writeChunks ys (NewWriter ulid opts) =
      (Inr [r], (NewWriter ulid opts)\<lparr>w_chunks := snd (chunk_write EncodingGorilla (Bytes c) (w_chunks (NewWriter ulid opts)))\<rparr>)" by blast
  moreover have "Validate example_ref = None" by (simp add: Validate_def example_ref_def)
  ultimately have "\<exists>w. add_all [\<lparr>ss_Series = example_ref, ss_Samples = ys\<rparr>] (NewWriter ulid opts) = (Inr (), w) \<and>
      w_ix w = [\<lparr>bse_ref = example_ref, bse_chunks = [r]\<rparr>] \<and> cw_f (w_chunks w) = cw_f newChunkWriter @ ?g"
    using ys(3) by (simp add: AddSeries_def NewWriter_def chunk_write_def Let_def)
  then have "bf_index files = index_writeTo [\<lparr>bse_ref = example_ref, bse_chunks = [r]\<rparr>]" "bf_chunks files = cw_f newChunkWriter @ ?g"
    using assms(1) by (auto simp: block_Write_def writer_Close_def Let_def split: if_splits option.splits)
  moreover have "length (cw_f newChunkWriter @ ?g) \<le> 2420"
    using len length_putUvarint_le(1) [of "of_nat (length (Bytes c)) + 1"]
    by (simp add: newChunkWriter_def length_chunk_record)
  moreover have "length (index_writeTo [\<lparr>bse_ref = example_ref, bse_chunks = [r]\<rparr>]) \<le> 1000" by (rule example_index)
  ultimately show ?thesis unfolding files_fit_def by simp
qed

lemma example_fits: "block_Write parses ulid example_series opts = Inr files \<Longrightarrow> files_fit files"
  by (rule one_series_fits [of parses ulid "[(1000, 5), (2000, 7)]" opts])
    (simp_all add: example_series_def increasing_def MaxSamplesPerChunk_def)

section \<open>Properties\<close>

text \<open>C5: A block gives back what was written to it. Writing series with distinct keys, canonical tags and
  ascending timestamps succeeds when one of them has samples, and records the provenance it was given. The
  files, when their sizes can be counted in 63 bits, open to a block that returns every non-empty series, in key
  order and with exactly its samples, and looks up any key to the samples of its series, or to none.\<close>

theorem block_roundtrip:
  assumes "block_input xs" "\<exists>x \<in> set xs. ss_Samples x \<noteq> []" "parses ulid" "list_all parses (wo_Sources opts)"
  shows "\<exists>files. block_Write parses ulid xs opts = Inr files \<and> bm_ULID (bf_meta files) = ulid \<and>
    bm_Compaction (bf_meta files) = \<lparr>cp_Level = wo_Level opts, cp_Sources = wo_Sources opts\<rparr> \<and>
    (files_fit files \<longrightarrow> (\<exists>b. block_Open files = Inr b \<and> b_meta b = bf_meta files \<and>
       block_All b = Inr (sort_key skey (filter (\<lambda>x. ss_Samples x \<noteq> []) xs)) \<and>
       (\<forall>key. SamplesFor b key = Inr (case find (\<lambda>x. skey x = key) xs of None \<Rightarrow> [] | Some x \<Rightarrow> ss_Samples x))))"
proof -
  have "filter (\<lambda>x. ss_Samples x \<noteq> []) xs \<noteq> []" using assms(2) by (auto simp: filter_empty_conv)
  from Write_succeeds [OF assms(1) this assms(3,4)] obtain files where
    f: "block_Write parses ulid xs opts = Inr files" by blast
  note wf = written_files [OF assms(1) f]
  have "\<forall>key. SamplesFor b key = Inr (case find (\<lambda>x. skey x = key) xs of None \<Rightarrow> [] | Some x \<Rightarrow> ss_Samples x)"
    if h: "block_holds b (written xs)" for b
  proof
    fix key
    show "SamplesFor b key = Inr (case find (\<lambda>x. skey x = key) xs of None \<Rightarrow> [] | Some x \<Rightarrow> ss_Samples x)"
      by (rule found_samples [OF assms(1) h])
  qed
  with wf(2,3,6) holds_All f show ?thesis by blast
qed

theorem block_roundtrip_witness:
  "\<exists>files b. block_Write (\<lambda>s. s = ''id'') ''id'' example_series example_opts = Inr files \<and> block_Open files = Inr b \<and>
    block_All b = Inr example_series \<and> SamplesFor b ''m|k:v'' = Inr [(1000, 5), (2000, 7)] \<and> SamplesFor b ''m|'' = Inr []"
proof -
  have "\<exists>x \<in> set example_series. ss_Samples x \<noteq> []" "list_all (\<lambda>s. s = ''id'') (wo_Sources example_opts)"
    by (simp_all add: example_series_def example_opts_def)
  from block_roundtrip [OF example_input this(1), of "\<lambda>s. s = ''id''" "''id''", OF refl this(2), unfolded example_written]
  obtain files where f: "block_Write (\<lambda>s. s = ''id'') ''id'' example_series example_opts = Inr files"
    and "files_fit files \<longrightarrow> (\<exists>b. block_Open files = Inr b \<and> b_meta b = bf_meta files \<and> block_All b = Inr (sort_key skey example_series) \<and>
       (\<forall>key. SamplesFor b key = Inr (case find (\<lambda>x. skey x = key) example_series of None \<Rightarrow> [] | Some x \<Rightarrow> ss_Samples x)))"
    by blast
  with example_fits [OF f] obtain b where "block_Open files = Inr b" "block_All b = Inr (sort_key skey example_series)"
    and key: "\<And>key. SamplesFor b key = Inr (case find (\<lambda>x. skey x = key) example_series of None \<Rightarrow> [] | Some x \<Rightarrow> ss_Samples x)" by blast
  with f show ?thesis
    by (intro exI [of _ files] exI [of _ b]) (simp add: key, simp add: example_series_def example_ref_def series_Key_def tag_String_def)
qed

text \<open>C9: Queries of a block are exact. On a block opened from what was written, selecting over a time range returns,
  in key order, exactly the matching series with their samples in the range, leaving out those with none there, and
  listing a metric returns exactly its series.\<close>

theorem block_queries_exact:
  assumes "block_input xs" "block_Write parses ulid xs opts = Inr files" "files_fit files" "plain_selector sel"
  shows "\<exists>b. block_Open files = Inr b \<and>
    block_Select b sel from to = Inr (filter (\<lambda>x. ss_Samples x \<noteq> [])
      (map (cut from to) (filter (\<lambda>x. selects sel (ss_Series x)) (sort_key skey xs)))) \<and>
    block_SeriesOf b metric = Inr (filter (\<lambda>ref. ref_Metric ref = metric)
      (map ss_Series (sort_key skey (filter (\<lambda>x. ss_Samples x \<noteq> []) xs))))"
proof -
  obtain b where b: "block_Open files = Inr b" "block_holds b (written xs)"
    using written_files(6) [OF assms(1,2,3)] by blast
  have "filter (\<lambda>x. ss_Samples x \<noteq> []) (map (cut from to) (filter (\<lambda>x. selects sel (ss_Series x)) (written xs))) =
      filter (\<lambda>x. ss_Samples x \<noteq> []) (map (cut from to) (filter (\<lambda>x. selects sel (ss_Series x)) (sort_key skey xs)))"
    unfolding filter_sort [symmetric] by (simp add: filter_map comp_def conj_commute) (rule arg_cong [of _ _ "map _"], rule filter_cong, auto simp: cut_def)
  with holds_Select [OF b(2) assms(4)] holds_SeriesOf [OF b(2)] b(1) show ?thesis by auto
qed

theorem block_queries_exact_witness:
  "\<exists>files b. block_Write (\<lambda>s. s = ''id'') ''id'' example_series example_opts = Inr files \<and> block_Open files = Inr b \<and>
    block_Select b \<lparr>sel_Metric = ''m'', sel_Matchers = [\<lparr>m_Key = ''k'', m_Value = ''v'', m_Type = Equal\<rparr>]\<rparr> 1500 3000 =
      Inr [\<lparr>ss_Series = example_ref, ss_Samples = [(2000, 7)]\<rparr>] \<and> block_SeriesOf b ''m'' = Inr [example_ref]"
proof -
  let ?sel = "\<lparr>sel_Metric = ''m'', sel_Matchers = [\<lparr>m_Key = ''k'', m_Value = ''v'', m_Type = Equal\<rparr>]\<rparr>"
  have "plain_selector ?sel" by (simp add: plain_selector_def MetricName_def)
  moreover obtain files where f: "block_Write (\<lambda>s. s = ''id'') ''id'' example_series example_opts = Inr files"
    using Write_succeeds [OF example_input, of "\<lambda>s. s = ''id''" "''id''" example_opts]
    by (auto simp: example_series_def example_opts_def)
  ultimately obtain b where b: "block_Open files = Inr b"
      "block_Select b ?sel 1500 3000 = Inr (filter (\<lambda>x. ss_Samples x \<noteq> [])
         (map (cut 1500 3000) (filter (\<lambda>x. selects ?sel (ss_Series x)) (sort_key skey example_series))))"
      "block_SeriesOf b ''m'' = Inr (filter (\<lambda>ref. ref_Metric ref = ''m'') (map ss_Series (written example_series)))"
    using block_queries_exact [OF example_input f example_fits [OF f], of ?sel 1500 3000 "''m''"] by blast
  have "selects ?sel example_ref" by (simp add: selects_def matcher_Matches_def example_ref_def)
  then have "filter (\<lambda>x. selects ?sel (ss_Series x)) (sort_key skey example_series) = example_series" by (simp add: example_series_def)
  then have "block_Select b ?sel 1500 3000 = Inr [\<lparr>ss_Series = example_ref, ss_Samples = [(2000, 7)]\<rparr>]"
    unfolding b(2) by (simp add: example_series_def cut_def)
  moreover have "block_SeriesOf b ''m'' = Inr [example_ref]" unfolding b(3) example_written(2)
    by (simp add: example_series_def) (simp add: example_ref_def)
  ultimately show ?thesis using f b(1) by blast
qed

end
