(* ===== verification/Compact.thy ===== *)
theory Compact
  imports Block_Properties
begin

text \<open>
  Compaction (\<open>internal/tsdb/compact/compact.go\<close>): the planner that picks a run of blocks of one level, and
  the merge of their series into one block. The number of a block id is a parameter, as the ulid library
  compares ids; deleting the sources is an operation on directories and is not modelled.
\<close>

section \<open>Planning\<close>

definition DefaultMinBlocks :: int where "DefaultMinBlocks = 3"

text \<open>Durations are in nanoseconds.\<close>

definition DefaultMaxBlockRange :: i64 where "DefaultMaxBlockRange = 54 * 3600000000000"

record CompactOptions =
  co_MinBlocks :: int
  co_MaxBlockRange :: i64

definition setDefaults :: "CompactOptions \<Rightarrow> CompactOptions" where
  "setDefaults o1 =
     (let o2 = (if co_MinBlocks o1 \<le> 0 then o1\<lparr>co_MinBlocks := DefaultMinBlocks\<rparr> else o1)
      in if sint (co_MaxBlockRange o2) \<le> 0 then o2\<lparr>co_MaxBlockRange := DefaultMaxBlockRange\<rparr> else o2)"

definition Milliseconds :: "i64 \<Rightarrow> i64" where
  "Milliseconds d = int64_quot d 1000000"

record Plan =
  plan_Sources :: "Block list"
  plan_Level :: int

abbreviation minTime :: "Block \<Rightarrow> i64" where "minTime b \<equiv> bm_MinTime (b_meta b)"
abbreviation maxTime :: "Block \<Rightarrow> i64" where "maxTime b \<equiv> bm_MaxTime (b_meta b)"
abbreviation level :: "Block \<Rightarrow> int" where "level b \<equiv> cp_Level (bm_Compaction (b_meta b))"
abbreviation resolution :: "Block \<Rightarrow> int" where "resolution b \<equiv> bm_ResolutionS (b_meta b)"

definition Span :: "Plan \<Rightarrow> i64 \<times> i64" where
  "Span p = fold (\<lambda>b (lo, hi). (min64 lo (minTime b), max64 hi (maxTime b))) (tl (plan_Sources p))
     (minTime (hd (plan_Sources p)), maxTime (hd (plan_Sources p)))"

text \<open>The loop over the blocks after the start of a run: other levels and resolutions are skipped, and a block
  that would make the run too wide ends it.\<close>

fun extend :: "int \<Rightarrow> i64 \<Rightarrow> int \<Rightarrow> int \<Rightarrow> i64 \<Rightarrow> i64 \<Rightarrow> Block list \<Rightarrow> Block list \<Rightarrow> Block list option" where
  "extend minBlocks maxRange lev res minT maxT run [] = None"
| "extend minBlocks maxRange lev res minT maxT run (b # bs) =
     (if level b \<noteq> lev \<or> resolution b \<noteq> res then extend minBlocks maxRange lev res minT maxT run bs
      else if sint maxRange < sint (max64 maxT (maxTime b) - minT) then None
      else let run' = run @ [b]
           in if minBlocks \<le> int (length run') then Some run'
              else extend minBlocks maxRange lev res minT (max64 maxT (maxTime b)) run' bs)"

fun plan_from :: "int \<Rightarrow> i64 \<Rightarrow> Block list \<Rightarrow> Plan option" where
  "plan_from minBlocks maxRange [] = None"
| "plan_from minBlocks maxRange (b # bs) =
     (case extend minBlocks maxRange (level b) (resolution b) (minTime b) (maxTime b) [b] bs of
        Some run \<Rightarrow> Some \<lparr>plan_Sources = run, plan_Level = level b + 1\<rparr>
      | None \<Rightarrow> plan_from minBlocks maxRange bs)"

definition compact_Next :: "(string \<Rightarrow> nat) \<Rightarrow> Block list \<Rightarrow> CompactOptions \<Rightarrow> Plan option" where
  "compact_Next ulid_num blocks opts0 =
     (let opts = setDefaults opts0;
          maxRange = Milliseconds (co_MaxBlockRange opts);
          sorted = sort_key (\<lambda>b. (sint (minTime b), ulid_num (bm_ULID (b_meta b)))) blocks
      in plan_from (co_MinBlocks opts) maxRange sorted)"

section \<open>Merging\<close>

text \<open>The first head with the least key.\<close>

fun smallest :: "SeriesRef list list \<Rightarrow> SeriesRef option \<Rightarrow> SeriesRef option" where
  "smallest [] best = best"
| "smallest (l # ls) best =
     (if l = [] then smallest ls best
      else case best of
        None \<Rightarrow> smallest ls (Some (hd l))
      | Some s \<Rightarrow> smallest ls (if series_Key (hd l) < series_Key s then Some (hd l) else best))"

definition advance_lists :: "string \<Rightarrow> SeriesRef list list \<Rightarrow> SeriesRef list list" where
  "advance_lists key = map (\<lambda>l. if l \<noteq> [] \<and> series_Key (hd l) = key then tl l else l)"

text \<open>What \<open>smallest\<close> finds is the head of a list, so advancing makes the lists shorter.\<close>

lemma smallest_head:
  "smallest ls best = Some s \<Longrightarrow> best = Some s \<or> (\<exists>l \<in> set ls. l \<noteq> [] \<and> hd l = s)"
  by (induction ls best rule: smallest.induct) (auto split: if_splits option.splits)

lemma advance_le: "sum_list (map length (advance_lists k ls)) \<le> sum_list (map length ls)"
  by (induction ls) (auto simp: advance_lists_def)

lemma advance_less:
  "l \<in> set ls \<Longrightarrow> l \<noteq> [] \<Longrightarrow> series_Key (hd l) = k \<Longrightarrow> sum_list (map length (advance_lists k ls)) < sum_list (map length ls)"
proof (induction ls)
  case (Cons a ls)
  show ?case
  proof (cases "l = a")
    case True
    with Cons.prems have a: "a \<noteq> []" "series_Key (hd a) = k" by simp_all
    then obtain x xs where "a = x # xs" by (cases a) auto
    with a advance_le [of k ls] show ?thesis by (simp add: advance_lists_def)
  next
    case False
    with Cons have "sum_list (map length (advance_lists k ls)) < sum_list (map length ls)" by simp
    then show ?thesis using advance_le [of k "[a]"] by (simp add: advance_lists_def)
  qed
qed simp

function merge_lists :: "SeriesRef list list \<Rightarrow> SeriesRef list" where
  "merge_lists ls =
     (case smallest ls None of
        None \<Rightarrow> []
      | Some s \<Rightarrow> s # merge_lists (advance_lists (series_Key s) ls))"
  by pat_completeness auto
termination
proof (relation "measure (\<lambda>ls. sum_list (map length ls))", goal_cases)
  case (2 ls s)
  then obtain l where "l \<in> set ls" "l \<noteq> []" "hd l = s" using smallest_head by fastforce
  with advance_less show ?case by auto
qed simp

declare merge_lists.simps [simp del]

definition mergedSeries :: "Block list \<Rightarrow> SeriesRef list" where
  "mergedSeries sources = merge_lists (map block_Series sources)"

definition keep_later :: "Sample list \<Rightarrow> Sample list \<Rightarrow> Sample list" where
  "keep_later = fold (\<lambda>s out. if out \<noteq> [] \<and> sint (fst s) \<le> sint (fst (last out)) then out else out @ [s])"

fun gather_into :: "Sample list \<Rightarrow> Block list \<Rightarrow> string \<Rightarrow> block_error + Sample list" where
  "gather_into out [] key = Inr out"
| "gather_into out (b # bs) key =
     (case SamplesFor b key of
        Inl e \<Rightarrow> Inl e
      | Inr samples \<Rightarrow> gather_into (keep_later samples out) bs key)"

definition gather :: "Block list \<Rightarrow> string \<Rightarrow> block_error + Sample list" where
  "gather sources key = gather_into [] sources key"

fun merge_into :: "Block list \<Rightarrow> SeriesRef list \<Rightarrow> Writer \<Rightarrow> (block_error + unit) \<times> Writer" where
  "merge_into sources [] w = (Inr (), w)"
| "merge_into sources (ref # refs) w =
     (case gather sources (series_Key ref) of
        Inl e \<Rightarrow> (Inl e, w\<lparr>w_closed := True\<rparr>)
      | Inr samples \<Rightarrow>
          if samples = [] then merge_into sources refs w
          else case AddSeries ref samples w of
            (Inl e, w1) \<Rightarrow> (Inl e, w1\<lparr>w_closed := True\<rparr>)
          | (Inr _, w1) \<Rightarrow> merge_into sources refs w1)"

definition compact_merge :: "(string \<Rightarrow> bool) \<Rightarrow> string \<Rightarrow> Plan \<Rightarrow> string list \<Rightarrow> block_error + BlockFiles" where
  "compact_merge parses ulid p sources =
     (let w = NewWriter ulid \<lparr>wo_Level = plan_Level p, wo_Sources = sources, wo_ResolutionS = resolution (hd (plan_Sources p))\<rparr>
      in case merge_into (plan_Sources p) (mergedSeries (plan_Sources p)) w of
           (Inl e, w1) \<Rightarrow> Inl e
         | (Inr _, w1) \<Rightarrow> fst (writer_Close parses w1))"

definition compact_Run :: "(string \<Rightarrow> bool) \<Rightarrow> string \<Rightarrow> Plan option \<Rightarrow> block_error + BlockFiles" where
  "compact_Run parses ulid p =
     (case p of
        None \<Rightarrow> Inl PlanTooSmall
      | Some p \<Rightarrow>
          if length (plan_Sources p) < 2 then Inl PlanTooSmall
          else compact_merge parses ulid p (map (\<lambda>b. bm_ULID (b_meta b)) (plan_Sources p)))"

end
