(* ===== verification/Compact_Properties.thy ===== *)
theory Compact_Properties
  imports Compact "HOL-Library.Sublist"
begin

text \<open>
  Compaction: the planner picks blocks that belong together and stays within its limits, and the block the
  merge writes holds, for every series, exactly the samples of the sources.
\<close>

section \<open>The planner\<close>

lemma extend_spec:
  "extend mb mr lev res minT maxT run bs = Some run' \<Longrightarrow>
    \<exists>more. run' = run @ more \<and> more \<noteq> [] \<and> subseq more bs \<and> (\<forall>b \<in> set more. level b = lev \<and> resolution b = res) \<and>
      mb \<le> int (length run') \<and> sint (fold (\<lambda>b hi. max64 hi (maxTime b)) more maxT - minT) \<le> sint mr"
proof (induction mb mr lev res minT maxT run bs arbitrary: run' rule: extend.induct)
  case (2 mb mr lev res minT maxT run b bs)
  consider (skip) "level b \<noteq> lev \<or> resolution b \<noteq> res"
    | (stop) "level b = lev" "resolution b = res" "\<not> sint mr < sint (max64 maxT (maxTime b) - minT)" "mb \<le> int (length (run @ [b]))"
    | (go) "level b = lev" "resolution b = res" "\<not> sint mr < sint (max64 maxT (maxTime b) - minT)" "\<not> mb \<le> int (length (run @ [b]))"
    using 2(3) by (auto split: if_splits)
  then show ?case
  proof cases
    case skip
    then have "extend mb mr lev res minT maxT run bs = Some run'" using 2(3) by simp
    from 2(1) [OF skip this] obtain more where m: "run' = run @ more" "more \<noteq> []" "subseq more bs"
        "\<forall>b \<in> set more. level b = lev \<and> resolution b = res" "mb \<le> int (length run')"
        "sint (fold (\<lambda>b hi. max64 hi (maxTime b)) more maxT - minT) \<le> sint mr" by blast
    from m(3) have "subseq more (b # bs)" by (rule list_emb_Cons)
    with m show ?thesis by blast
  next
    case stop
    then have "run' = run @ [b]" using 2(3) by (simp add: Let_def)
    with stop show ?thesis by (intro exI [of _ "[b]"]) auto
  next
    case go
    then have e: "extend mb mr lev res minT (max64 maxT (maxTime b)) (run @ [b]) bs = Some run'" using 2(3) by (simp add: Let_def)
    have "\<not> (level b \<noteq> lev \<or> resolution b \<noteq> res)" using go by simp
    from 2(2) [OF this go(3) refl go(4) e] obtain more where m: "run' = (run @ [b]) @ more" "subseq more bs"
        "\<forall>b \<in> set more. level b = lev \<and> resolution b = res" "mb \<le> int (length run')"
        "sint (fold (\<lambda>b hi. max64 hi (maxTime b)) more (max64 maxT (maxTime b)) - minT) \<le> sint mr" by blast
    with go show ?thesis by (intro exI [of _ "b # more"]) auto
  qed
qed simp

lemma plan_from_spec:
  "plan_from mb mr bs = Some p \<Longrightarrow>
    \<exists>b more. plan_Sources p = b # more \<and> more \<noteq> [] \<and> subseq (b # more) bs \<and> plan_Level p = level b + 1 \<and>
      (\<forall>c \<in> set more. level c = level b \<and> resolution c = resolution b) \<and>
      mb \<le> int (length (b # more)) \<and> sint (fold (\<lambda>b hi. max64 hi (maxTime b)) more (maxTime b) - minTime b) \<le> sint mr"
proof (induction mb mr bs rule: plan_from.induct)
  case (2 mb mr b bs)
  show ?case
  proof (cases "extend mb mr (level b) (resolution b) (minTime b) (maxTime b) [b] bs")
    case None
    from 2(1) [OF None] 2(2) None obtain c more where c: "plan_Sources p = c # more" "subseq (c # more) bs" "more \<noteq> []"
        "plan_Level p = level c + 1" "\<forall>d \<in> set more. level d = level c \<and> resolution d = resolution c"
        "mb \<le> int (length (c # more))" "sint (fold (\<lambda>b hi. max64 hi (maxTime b)) more (maxTime c) - minTime c) \<le> sint mr"
      by auto
    from c(2) have "subseq (c # more) (b # bs)" by (rule list_emb_Cons)
    with c show ?thesis by blast
  next
    case (Some run)
    then have "plan_Sources p = run" "plan_Level p = level b + 1" using 2(2) by auto
    with extend_spec [OF Some] show ?thesis by auto
  qed
qed simp

lemma plan_from_run:
  assumes "plan_from mb mr bs = Some p"
  obtains b more where "plan_Sources p = b # more" "more \<noteq> []" "subseq (b # more) bs" "plan_Level p = level b + 1"
    "\<forall>c \<in> set more. level c = level b \<and> resolution c = resolution b" "mb \<le> int (length (b # more))"
    "sint (fold (\<lambda>b hi. max64 hi (maxTime b)) more (maxTime b) - minTime b) \<le> sint mr"
  using plan_from_spec [OF assms] by (elim exE conjE) (rule that)

lemma subseq_sorted: "subseq xs ys \<Longrightarrow> sorted_wrt R ys \<Longrightarrow> sorted_wrt R xs"
  by (induction rule: list_emb.induct) (auto dest: list_emb_set)

lemma sorted_wrt_distinct: "sorted_wrt R xs \<Longrightarrow> distinct xs \<Longrightarrow> sorted_wrt (\<lambda>a c. R a c \<and> a \<noteq> c) xs"
  by (induction xs) auto

lemma subseq_set: "subseq xs ys \<Longrightarrow> set xs \<subseteq> set ys"
  by (induction rule: list_emb.induct) auto

lemma subseq_distinct: "subseq xs ys \<Longrightarrow> distinct ys \<Longrightarrow> distinct xs"
  by (induction rule: list_emb.induct) (auto dest: subseq_set)

section \<open>Spans\<close>

lemma fold_span:
  "\<forall>b \<in> set bs. sint lo \<le> sint (minTime b) \<Longrightarrow>
    fold (\<lambda>b (lo, hi). (min64 lo (minTime b), max64 hi (maxTime b))) bs (lo, hi) = (lo, fold (\<lambda>b hi. max64 hi (maxTime b)) bs hi)"
  by (induction bs arbitrary: hi) (auto simp: min64_def)

abbreviation small_time :: "i64 \<Rightarrow> bool" where
  "small_time t \<equiv> \<bar>sint t\<bar> < 2 ^ 62"

lemma fold_max_small: "small_time hi \<Longrightarrow> \<forall>b \<in> set bs. small_time (maxTime b) \<Longrightarrow> small_time (fold (\<lambda>b hi. max64 hi (maxTime b)) bs hi)"
  by (induction bs arbitrary: hi) (simp_all add: max64_def)

lemma sint_diff_small:
  assumes "small_time a" "small_time b"
  shows "sint (a - b) = sint a - sint b"
proof -
  have "sint (a - b) = signed_take_bit 63 (sint a - sint b)" by (simp add: sint_word_ariths)
  also have "\<dots> = sint a - sint b" using assms by (intro signed_take_bit_int_eq_self) auto
  finally show ?thesis .
qed

section \<open>Merging the lists of series\<close>

abbreviation keys_ascend :: "SeriesRef list \<Rightarrow> bool" where
  "keys_ascend l \<equiv> sorted_wrt (<) (map series_Key l)"

lemma smallest_least:
  "smallest ls best = Some s \<Longrightarrow> (\<forall>l \<in> set ls. l \<noteq> [] \<longrightarrow> series_Key s \<le> series_Key (hd l)) \<and>
     (\<forall>t. best = Some t \<longrightarrow> series_Key s \<le> series_Key t)"
  by (induction ls best rule: smallest.induct) (force split: if_splits option.splits)+

lemma smallest_None: "smallest ls best = None \<longleftrightarrow> best = None \<and> (\<forall>l \<in> set ls. l = [])"
  by (induction ls best rule: smallest.induct) (auto split: option.splits)

lemma advance_lists_spec:
  assumes "\<forall>l \<in> set ls. keys_ascend l" "smallest ls None = Some s"
  shows "\<forall>l \<in> set (advance_lists (series_Key s) ls). keys_ascend l \<and> (\<forall>r \<in> set l. series_Key s < series_Key r)"
    "(\<Union>l \<in> set ls. series_Key ` set l) = insert (series_Key s) (\<Union>l \<in> set (advance_lists (series_Key s) ls). series_Key ` set l)"
    "(\<Union>l \<in> set (advance_lists (series_Key s) ls). set l) \<subseteq> (\<Union>l \<in> set ls. set l)" "s \<in> (\<Union>l \<in> set ls. set l)"
proof -
  define f where "f = (\<lambda>l. if l \<noteq> [] \<and> series_Key (hd l) = series_Key s then tl l else l)"
  note least = smallest_least [OF assms(2)]
  have one: "keys_ascend (f l)" "\<forall>r \<in> set (f l). series_Key s < series_Key r"
      "series_Key ` set l \<subseteq> insert (series_Key s) (series_Key ` set (f l))" "set (f l) \<subseteq> set l" if l: "l \<in> set ls" for l
  proof -
    have k: "keys_ascend l" "l \<noteq> [] \<longrightarrow> series_Key s \<le> series_Key (hd l)" using assms(1) least l by blast+
    show "keys_ascend (f l)" using k by (cases l) (auto simp: f_def)
    show "\<forall>r \<in> set (f l). series_Key s < series_Key r"
    proof (cases l)
      case (Cons a m)
      with k have m: "\<forall>r \<in> set m. series_Key a < series_Key r" "series_Key s \<le> series_Key a" by simp_all
      show ?thesis
      proof (cases "series_Key a = series_Key s")
        case False
        with m(2) have "series_Key s < series_Key a" by simp
        with m(1) have "\<forall>r \<in> set m. series_Key s < series_Key r" using less_trans by blast
        with \<open>series_Key s < series_Key a\<close> show ?thesis by (simp add: Cons f_def)
      qed (use m(1) in \<open>simp add: Cons f_def\<close>)
    qed (simp add: f_def)
    show "series_Key ` set l \<subseteq> insert (series_Key s) (series_Key ` set (f l))" by (cases l) (auto simp: f_def)
    show "set (f l) \<subseteq> set l" by (cases l) (auto simp: f_def)
  qed
  obtain l where l: "l \<in> set ls" "l \<noteq> []" "hd l = s" using smallest_head [OF assms(2)] by blast
  then show s: "s \<in> (\<Union>l \<in> set ls. set l)" by (auto intro: hd_in_set)
  have set: "set (advance_lists (series_Key s) ls) = f ` set ls" by (simp add: advance_lists_def f_def)
  show "\<forall>l \<in> set (advance_lists (series_Key s) ls). keys_ascend l \<and> (\<forall>r \<in> set l. series_Key s < series_Key r)"
    unfolding set by (intro ballI conjI; elim imageE; hypsubst; rule one(1) one(2) [THEN bspec]; assumption)
  show "(\<Union>l \<in> set (advance_lists (series_Key s) ls). set l) \<subseteq> (\<Union>l \<in> set ls. set l)"
    unfolding set UN_simps by (rule UN_mono [OF subset_refl one(4)])
  show "(\<Union>l \<in> set ls. series_Key ` set l) = insert (series_Key s) (\<Union>l \<in> set (advance_lists (series_Key s) ls). series_Key ` set l)"
  proof (intro equalityI subsetI)
    fix k assume "k \<in> (\<Union>l \<in> set ls. series_Key ` set l)"
    then obtain l where l: "l \<in> set ls" "k \<in> series_Key ` set l" by blast
    then have "k = series_Key s \<or> k \<in> series_Key ` set (f l)" using subsetD [OF one(3) [OF l(1)] l(2)] by simp
    then show "k \<in> insert (series_Key s) (\<Union>l \<in> set (advance_lists (series_Key s) ls). series_Key ` set l)"
      unfolding set using l(1) by blast
  next
    fix k assume k: "k \<in> insert (series_Key s) (\<Union>l \<in> set (advance_lists (series_Key s) ls). series_Key ` set l)"
    show "k \<in> (\<Union>l \<in> set ls. series_Key ` set l)"
    proof (cases "k = series_Key s")
      case True
      then show ?thesis using s by blast
    next
      case False
      then obtain l where "l \<in> set ls" "k \<in> series_Key ` set (f l)" using k unfolding set by blast
      then show ?thesis using one(4) [of l] by blast
    qed
  qed
qed

lemma merge_lists_spec:
  "\<forall>l \<in> set ls. keys_ascend l \<Longrightarrow> keys_ascend (merge_lists ls) \<and> set (merge_lists ls) \<subseteq> (\<Union>l \<in> set ls. set l) \<and>
    series_Key ` set (merge_lists ls) = (\<Union>l \<in> set ls. series_Key ` set l)"
proof (induction ls rule: merge_lists.induct)
  case (1 ls)
  show ?case
  proof (cases "smallest ls None")
    case None
    then have "\<forall>l \<in> set ls. l = []" by (simp add: smallest_None)
    with None show ?thesis by (simp add: merge_lists.simps [of ls])
  next
    case (Some s)
    let ?ls = "advance_lists (series_Key s) ls"
    note a = advance_lists_spec [OF 1(2) Some]
    have IH: "keys_ascend (merge_lists ?ls)" "set (merge_lists ?ls) \<subseteq> (\<Union>l \<in> set ?ls. set l)"
        "series_Key ` set (merge_lists ?ls) = (\<Union>l \<in> set ?ls. series_Key ` set l)"
      using 1(1) [OF Some] a(1) by blast+
    have m: "merge_lists ls = s # merge_lists ?ls" by (simp add: merge_lists.simps [of ls] Some)
    have "\<forall>r \<in> set (merge_lists ?ls). series_Key s < series_Key r" using IH(2) a(1) by blast
    then have "keys_ascend (merge_lists ls)" using IH(1) by (simp add: m)
    moreover have "set (merge_lists ls) \<subseteq> (\<Union>l \<in> set ls. set l)"
      unfolding m list.set using a(4) subset_trans [OF IH(2) a(3)] by (rule insert_subsetI)
    moreover have "series_Key ` set (merge_lists ls) = (\<Union>l \<in> set ls. series_Key ` set l)"
      unfolding m list.set image_insert IH(3) a(2) ..
    ultimately show ?thesis by blast
  qed
qed

section \<open>Gathering the samples of a series\<close>

definition samples_at :: "string \<Rightarrow> SeriesSamples list \<Rightarrow> Sample list" where
  "samples_at key xs = (case find (\<lambda>x. skey x = key) xs of None \<Rightarrow> [] | Some x \<Rightarrow> ss_Samples x)"

lemma samples_at_member: "samples_at key xs = [] \<or> (\<exists>x \<in> set xs. skey x = key \<and> samples_at key xs = ss_Samples x)"
  unfolding samples_at_def by (auto split: option.split simp: find_Some_iff)

lemma samples_at_absent: "\<forall>x \<in> set xs. skey x \<noteq> key \<Longrightarrow> samples_at key xs = []"
  using samples_at_member by fastforce

lemma holds_at:
  assumes "block_holds b xs"
  shows "SamplesFor b key = Inr (samples_at key xs)" "increasing (samples_at key xs)"
    "\<forall>s \<in> set (samples_at key xs). sint (minTime b) \<le> sint (fst s) \<and> sint (fst s) \<le> sint (maxTime b)"
proof -
  show "SamplesFor b key = Inr (samples_at key xs)"
  proof (cases "find (\<lambda>x. skey x = key) xs")
    case None
    then have "\<forall>x \<in> set xs. skey x \<noteq> key" by (auto simp: find_None_iff)
    from holds_SamplesFor(2) [OF assms this] None show ?thesis by (simp add: samples_at_def)
  next
    case (Some x)
    then have "x \<in> set xs" "skey x = key" by (auto simp: find_Some_iff)
    with holds_SamplesFor(1) [OF assms, of x] Some show ?thesis by (simp add: samples_at_def)
  qed
  have sp: "spans xs (minTime b) (maxTime b)" and st: "list_all2 (series_stored (b_chunks b)) (ir_series (b_ix b)) xs"
    using assms by (simp_all add: block_holds_def)
  have inc: "increasing (ss_Samples x)" if x: "x \<in> set xs" for x
  proof -
    obtain i where "i < length xs" "x = xs ! i" using x by (auto simp: in_set_conv_nth)
    then show ?thesis using st by (auto simp: list_all2_conv_all_nth series_stored_def)
  qed
  let ?in = "\<forall>s \<in> set (samples_at key xs). sint (minTime b) \<le> sint (fst s) \<and> sint (fst s) \<le> sint (maxTime b)"
  have "increasing (samples_at key xs) \<and> ?in"
  proof (cases "samples_at key xs = []")
    case False
    then obtain x where x: "x \<in> set xs" "samples_at key xs = ss_Samples x" using samples_at_member by blast
    then show ?thesis using inc sp unfolding spans_def by (simp only:) blast
  qed (simp add: increasing_def)
  then show "increasing (samples_at key xs)" ?in by (rule conjunct1, rule conjunct2)
qed

lemma keep_later_increasing: "increasing (out @ ss) \<Longrightarrow> keep_later ss out = out @ ss"
proof (induction ss arbitrary: out)
  case (Cons s ss)
  have inc: "increasing ((out @ [s]) @ ss)" using Cons.prems by simp
  moreover have "\<not> (out \<noteq> [] \<and> sint (fst s) \<le> sint (fst (last out)))"
  proof
    assume "out \<noteq> [] \<and> sint (fst s) \<le> sint (fst (last out))"
    moreover from this have "last out \<in> set out" by simp
    then have "sint (fst (last out)) < sint (fst s)" using Cons.prems unfolding increasing_append by simp
    ultimately show False by simp
  qed
  ultimately have "keep_later (s # ss) out = keep_later ss (out @ [s])" by (simp only: keep_later_def fold_simps if_False)
  with Cons.IH [OF inc] show ?case by simp
qed (simp add: keep_later_def)

lemma gather_into_concat:
  "\<forall>b \<in> set bs. block_holds b (f b) \<Longrightarrow> increasing (out @ concat (map (\<lambda>b. samples_at key (f b)) bs)) \<Longrightarrow>
    gather_into out bs key = Inr (out @ concat (map (\<lambda>b. samples_at key (f b)) bs))"
proof (induction bs arbitrary: out)
  case (Cons b bs)
  have "increasing (out @ samples_at key (f b))" using Cons.prems(2) by (simp add: increasing_append)
  with Cons.IH [of "out @ samples_at key (f b)"] Cons.prems holds_at(1) [of b "f b" key] show ?case
    by (simp add: keep_later_increasing)
qed simp

abbreviation in_time_order :: "Block list \<Rightarrow> bool" where
  "in_time_order \<equiv> sorted_wrt (\<lambda>a b. sint (maxTime a) < sint (minTime b))"

lemma concat_increasing:
  "in_time_order bs \<Longrightarrow> \<forall>b \<in> set bs. block_holds b (f b) \<Longrightarrow> increasing (concat (map (\<lambda>b. samples_at key (f b)) bs))"
proof (induction bs)
  case (Cons b bs)
  have "sint (fst x) < sint (fst y)" if x: "x \<in> set (samples_at key (f b))" and y: "y \<in> set (concat (map (\<lambda>b. samples_at key (f b)) bs))" for x y
  proof -
    obtain c where c: "c \<in> set bs" "y \<in> set (samples_at key (f c))" using y by auto
    have "sint (fst x) \<le> sint (maxTime b)" using holds_at(3) [of b "f b" key] Cons.prems(2) x by simp
    moreover have "sint (maxTime b) < sint (minTime c)" using Cons.prems(1) c(1) by simp
    moreover have "sint (minTime c) \<le> sint (fst y)" using holds_at(3) [of c "f c" key] Cons.prems(2) c by simp
    ultimately show ?thesis by linarith
  qed
  with Cons holds_at(2) [of b "f b" key] show ?case by (simp add: increasing_append)
qed (simp add: increasing_def)

section \<open>The merged block\<close>

lemma merge_into_add_all:
  "\<forall>ref \<in> set refs. gather sources (series_Key ref) = Inr (g ref) \<Longrightarrow>
    merge_into sources refs w = add_all (map (\<lambda>ref. \<lparr>ss_Series = ref, ss_Samples = g ref\<rparr>) (filter (\<lambda>ref. g ref \<noteq> []) refs)) w"
  by (induction refs arbitrary: w) (auto split: prod.split sum.split)

lemma holds_refs:
  assumes "block_holds b xs"
  shows "block_Series b = map ss_Series xs" "\<forall>ref \<in> set (block_Series b). Validate ref = None \<and> no_pseudo ref"
proof -
  show "block_Series b = map ss_Series xs"
    unfolding block_Series_def using holds_samples(1) [OF assms] holds_length(1) [OF assms] by (intro nth_equalityI) simp_all
  show "\<forall>ref \<in> set (block_Series b). Validate ref = None \<and> no_pseudo ref"
    using assms by (auto simp: block_Series_def block_holds_def indexed_ok_def list_all_iff)
qed

definition joined :: "(Block \<Rightarrow> SeriesSamples list) \<Rightarrow> Block list \<Rightarrow> string \<Rightarrow> Sample list" where
  "joined f bs key = concat (map (\<lambda>b. samples_at key (f b)) bs)"

definition joined_series :: "(Block \<Rightarrow> SeriesSamples list) \<Rightarrow> Block list \<Rightarrow> SeriesSamples list" where
  "joined_series f bs = map (\<lambda>ref. \<lparr>ss_Series = ref, ss_Samples = joined f bs (series_Key ref)\<rparr>)
     (filter (\<lambda>ref. joined f bs (series_Key ref) \<noteq> []) (mergedSeries bs))"

lemma mergedSeries_spec:
  assumes "\<forall>b \<in> set bs. block_holds b (f b)"
  shows "keys_ascend (mergedSeries bs)" "set (mergedSeries bs) \<subseteq> (\<Union>b \<in> set bs. set (block_Series b))"
    "series_Key ` set (mergedSeries bs) = (\<Union>b \<in> set bs. skey ` set (f b))"
proof -
  have keys: "map series_Key (block_Series b) = map skey (f b)" if "b \<in> set bs" for b
    using holds_refs(1) [of b "f b"] assms that by simp
  have "\<forall>l \<in> set (map block_Series bs). keys_ascend l" using keys assms by (auto simp: block_holds_def)
  note m = merge_lists_spec [OF this]
  show "keys_ascend (mergedSeries bs)" "set (mergedSeries bs) \<subseteq> (\<Union>b \<in> set bs. set (block_Series b))"
    using m by (simp_all add: mergedSeries_def)
  have "series_Key ` set (block_Series b) = skey ` set (f b)" if "b \<in> set bs" for b
    using arg_cong [OF keys [OF that], of set] by simp
  then show "series_Key ` set (mergedSeries bs) = (\<Union>b \<in> set bs. skey ` set (f b))"
    using m by (simp add: mergedSeries_def)
qed

lemma joined_key:
  assumes "\<forall>b \<in> set bs. block_holds b (f b)" "joined f bs key \<noteq> []"
  shows "\<exists>ref \<in> set (mergedSeries bs). series_Key ref = key"
proof -
  obtain b where b: "b \<in> set bs" "samples_at key (f b) \<noteq> []" using assms(2) by (auto simp: joined_def)
  then have "key \<in> skey ` set (f b)" using samples_at_member [of key "f b"] by auto
  then have "key \<in> series_Key ` set (mergedSeries bs)" unfolding mergedSeries_spec(3) [OF assms(1)] using b(1) by blast
  then show ?thesis by blast
qed

lemma joined_series_spec:
  assumes holds: "\<forall>b \<in> set bs. block_holds b (f b)" and order: "in_time_order bs"
  shows "block_input (joined_series f bs)" "written (joined_series f bs) = joined_series f bs"
    "samples_at key (joined_series f bs) = joined f bs key" "bs \<noteq> [] \<Longrightarrow> joined_series f bs \<noteq> []"
proof -
  let ?zs = "joined_series f bs" and ?keep = "filter (\<lambda>ref. joined f bs (series_Key ref) \<noteq> []) (mergedSeries bs)"
  note m = mergedSeries_spec [OF holds]
  have keys: "map skey ?zs = map series_Key ?keep" by (simp add: joined_series_def comp_def)
  have asc: "sorted_wrt (<) (map skey ?zs)" unfolding keys using m(1) by (simp add: sorted_wrt_map sorted_wrt_filter)
  have ne: "filter (\<lambda>x. ss_Samples x \<noteq> []) ?zs = ?zs" by (auto simp: joined_series_def intro: filter_True)
  show "written ?zs = ?zs" unfolding ne by (rule sorted_keys_sort [OF asc])
  have "Validate ref = None \<and> no_pseudo ref" if ref: "ref \<in> set (mergedSeries bs)" for ref
  proof -
    obtain b where "b \<in> set bs" "ref \<in> set (block_Series b)" using m(2) ref by blast
    then show ?thesis using holds_refs(2) [of b "f b"] holds by blast
  qed
  moreover have "increasing (joined f bs k)" for k unfolding joined_def by (rule concat_increasing [OF order holds])
  moreover have "distinct (map skey ?zs)" using asc by (simp add: strict_sorted_iff)
  ultimately show "block_input ?zs" by (auto simp: block_input_def list_all_iff joined_series_def)
  show at: "samples_at key ?zs = joined f bs key" for key
  proof (cases "joined f bs key = []")
    case True
    then have "\<forall>x \<in> set ?zs. skey x \<noteq> key" by (auto simp: joined_series_def)
    with True show ?thesis by (simp add: samples_at_absent)
  next
    case False
    from joined_key [OF holds this] obtain ref where "ref \<in> set (mergedSeries bs)" "series_Key ref = key" by blast
    with False have "\<lparr>ss_Series = ref, ss_Samples = joined f bs key\<rparr> \<in> set ?zs" by (auto simp: joined_series_def)
    then have "find (\<lambda>x. skey x = key) ?zs \<noteq> None" using \<open>series_Key ref = key\<close> by (auto simp: find_None_iff)
    then obtain x where x: "find (\<lambda>x. skey x = key) ?zs = Some x" by blast
    then have "x \<in> set ?zs" "skey x = key" by (auto simp: find_Some_iff)
    with x show ?thesis by (auto simp: samples_at_def joined_series_def)
  qed
  show "?zs \<noteq> []" if "bs \<noteq> []"
  proof -
    have b: "hd bs \<in> set bs" using that by simp
    then have h: "block_holds (hd bs) (f (hd bs))" using holds by blast
    then obtain x xs where x: "f (hd bs) = x # xs" by (cases "f (hd bs)") (auto simp: block_holds_def)
    have "ss_Samples x \<noteq> []" using h by (auto simp: block_holds_def x list_all2_Cons2 series_stored_def)
    then have "samples_at (skey x) (f (hd bs)) \<noteq> []" by (simp add: samples_at_def x)
    then have "joined f bs (skey x) \<noteq> []" using b by (auto simp: joined_def)
    with at [of "skey x"] show ?thesis by (auto simp: samples_at_def)
  qed
qed

lemma Run_writes:
  assumes holds: "\<forall>b \<in> set (plan_Sources p). block_holds b (f b)" and order: "in_time_order (plan_Sources p)"
    and two: "2 \<le> length (plan_Sources p)"
  shows "compact_Run parses ulid (Some p) = block_Write parses ulid (joined_series f (plan_Sources p))
    \<lparr>wo_Level = plan_Level p, wo_Sources = map (\<lambda>b. bm_ULID (b_meta b)) (plan_Sources p),
     wo_ResolutionS = resolution (hd (plan_Sources p))\<rparr>"
proof -
  let ?bs = "plan_Sources p"
  have "gather ?bs key = Inr (joined f ?bs key)" for key
    using gather_into_concat [OF holds, of "[]" key] concat_increasing [OF order holds, of key] by (simp add: gather_def joined_def)
  then have "merge_into ?bs (mergedSeries ?bs) w = add_all (joined_series f ?bs) w" for w
    unfolding joined_series_def by (intro merge_into_add_all) simp
  then show ?thesis using two by (simp add: compact_Run_def compact_merge_def block_Write_def)
qed

section \<open>A plan of the planner\<close>

text \<open>The blocks of one level and resolution cover disjoint times, none of them extreme.\<close>

definition separate :: "Block list \<Rightarrow> bool" where
  "separate bs \<longleftrightarrow> distinct bs \<and> (\<forall>b \<in> set bs. small_time (minTime b) \<and> small_time (maxTime b)) \<and>
     (\<forall>b \<in> set bs. \<forall>c \<in> set bs. b \<noteq> c \<and> level b = level c \<and> resolution b = resolution c \<longrightarrow>
        sint (maxTime b) < sint (minTime c) \<or> sint (maxTime c) < sint (minTime b))"

lemma holds_min_max:
  assumes "block_holds b xs"
  shows "sint (minTime b) \<le> sint (maxTime b)"
proof -
  have sp: "spans xs (minTime b) (maxTime b)" and "xs \<noteq> []" using assms by (simp_all add: block_holds_def)
  then obtain x where x: "x \<in> set xs" by (cases xs) auto
  obtain i where "i < length xs" "x = xs ! i" using x by (auto simp: in_set_conv_nth)
  then have "ss_Samples x \<noteq> []" using assms by (auto simp: block_holds_def list_all2_conv_all_nth series_stored_def)
  then have "hd (ss_Samples x) \<in> set (ss_Samples x)" by simp
  then have "sint (minTime b) \<le> sint (fst (hd (ss_Samples x))) \<and> sint (fst (hd (ss_Samples x))) \<le> sint (maxTime b)"
    using sp x unfolding spans_def by blast
  then show ?thesis by linarith
qed

lemma plan_spec:
  assumes plan: "compact_Next ulid_num bs opts = Some p" and sep: "separate bs"
    and ends: "\<forall>b \<in> set bs. sint (minTime b) \<le> sint (maxTime b)"
  shows "set (plan_Sources p) \<subseteq> set bs" "distinct (plan_Sources p)" "in_time_order (plan_Sources p)"
    "2 \<le> length (plan_Sources p)" "co_MinBlocks (setDefaults opts) \<le> int (length (plan_Sources p))"
    "\<forall>b \<in> set (plan_Sources p). level b + 1 = plan_Level p \<and> resolution b = resolution (hd (plan_Sources p))"
    "sint (snd (Span p)) - sint (fst (Span p)) \<le> sint (Milliseconds (co_MaxBlockRange (setDefaults opts)))"
proof -
  let ?k = "\<lambda>b. (sint (minTime b), ulid_num (bm_ULID (b_meta b)))" and ?mr = "Milliseconds (co_MaxBlockRange (setDefaults opts))"
  obtain b more where p: "plan_Sources p = b # more" "more \<noteq> []" "subseq (b # more) (sort_key ?k bs)" "plan_Level p = level b + 1"
      "\<forall>c \<in> set more. level c = level b \<and> resolution c = resolution b" "co_MinBlocks (setDefaults opts) \<le> int (length (b # more))"
      "sint (fold (\<lambda>b hi. max64 hi (maxTime b)) more (maxTime b) - minTime b) \<le> sint ?mr"
    by (rule plan_from_run [OF plan [unfolded compact_Next_def Let_def]])
  have sub: "set (b # more) \<subseteq> set bs" using subseq_set [OF p(3)] by (simp only: set_sort)
  have dist: "distinct (b # more)" using subseq_distinct [OF p(3)] sep by (simp only: separate_def distinct_sort simp_thms)
  have "sorted_wrt (\<lambda>a c. ?k a \<le> ?k c) (b # more)"
    using subseq_sorted [OF p(3)] sorted_sort_key [of ?k bs] unfolding sorted_wrt_map by blast
  then have mono: "sorted_wrt (\<lambda>a c. sint (minTime a) \<le> sint (minTime c)) (b # more)"
    by (rule sorted_wrt_mono_rel [rotated]) (auto simp: less_eq_prod_def)
  show "set (plan_Sources p) \<subseteq> set bs" "distinct (plan_Sources p)" using sub dist by (simp_all only: p(1))
  show "2 \<le> length (plan_Sources p)" using p(1,2) by (cases more) auto
  show "co_MinBlocks (setDefaults opts) \<le> int (length (plan_Sources p))" using p(6) by (simp only: p(1))
  show same: "\<forall>b \<in> set (plan_Sources p). level b + 1 = plan_Level p \<and> resolution b = resolution (hd (plan_Sources p))"
    using p(4,5) by (simp add: p(1))
  have "sorted_wrt (\<lambda>a c. sint (minTime a) \<le> sint (minTime c) \<and> a \<noteq> c) (b # more)"
    by (rule sorted_wrt_distinct [OF mono dist])
  then show "in_time_order (plan_Sources p)" unfolding p(1)
  proof (rule sorted_wrt_mono_rel [rotated])
    fix a c assume ac: "a \<in> set (b # more)" "c \<in> set (b # more)" "sint (minTime a) \<le> sint (minTime c) \<and> a \<noteq> c"
    have "level a = level c" "resolution a = resolution c" using ac(1,2) p(5) by auto
    then have "sint (maxTime a) < sint (minTime c) \<or> sint (maxTime c) < sint (minTime a)"
      using sep ac sub unfolding separate_def by blast
    moreover have "sint (minTime c) \<le> sint (maxTime c)" using ends ac(2) sub by blast
    ultimately show "sint (maxTime a) < sint (minTime c)" using ac(3) by linarith
  qed
  have small: "small_time (minTime c)" "small_time (maxTime c)" if "c \<in> set (b # more)" for c
    using that sub sep unfolding separate_def by blast+
  let ?hi = "fold (\<lambda>b hi. max64 hi (maxTime b)) more (maxTime b)"
  have "Span p = (minTime b, ?hi)" using fold_span [of more "minTime b" "maxTime b"] mono by (simp add: Span_def p(1))
  moreover have "small_time ?hi" using small by (intro fold_max_small) simp_all
  ultimately show "sint (snd (Span p)) - sint (fst (Span p)) \<le> sint ?mr"
    using p(7) sint_diff_small [of ?hi "minTime b"] small(1) [of b] by simp
qed


lemma example_block:
  assumes ys: "increasing ys" "length ys \<le> MaxSamplesPerChunk" "ys \<noteq> []"
  shows "\<exists>b. block_holds b [\<lparr>ss_Series = example_ref, ss_Samples = ys\<rparr>] \<and> minTime b = fst (hd ys) \<and> maxTime b = fst (last ys) \<and>
    level b = 0 \<and> resolution b = 0 \<and> bm_ULID (b_meta b) = u"
proof -
  let ?xs = "[\<lparr>ss_Series = example_ref, ss_Samples = ys\<rparr>]"
  have input: "block_input ?xs"
    using ys(1) by (simp add: block_input_def example_ref_def Validate_def no_pseudo_def MetricName_def)
  moreover have "filter (\<lambda>x. ss_Samples x \<noteq> []) ?xs \<noteq> []" using ys(3) by simp
  moreover have "list_all (\<lambda>s. True) (wo_Sources example_opts)" by (simp add: list_all_iff)
  ultimately obtain files where f: "block_Write (\<lambda>s. True) u ?xs example_opts = Inr files"
    using Write_succeeds [of ?xs "\<lambda>s. True" u example_opts] by blast
  note w = written_files [OF input f]
  have x: "written ?xs = ?xs" using ys(3) by simp
  obtain b where b: "block_holds b ?xs" "b_meta b = bf_meta files"
    using w(6) [OF one_series_fits [OF f ys]] unfolding x by blast
  have "minTime b = fst (hd ys)" "maxTime b = fst (last ys)" using b(1) by (simp_all add: block_holds_def spans_def)
  with b w(2,3,4) show ?thesis by (intro exI [of _ b]) (simp add: example_opts_def)
qed


end
