(* ===== verification/Spec2Isabelle.thy ===== *)
theory Spec2Isabelle
  imports Chunk_Roundtrip Wal_Checkpoint Mem_Postings Monitor_Properties Head_Query Head_Wal Compact_Properties
begin

text \<open>
  Verification of the metric storage path of Ozymandias, an observability server written in Go: the
  compressed chunk of samples, the write-ahead log, the head that holds the recent window in memory, the
  inverted index, the immutable blocks on disk, their compaction, the naming rules of metrics and tags,
  and the state machine of monitors. Paths are relative to \<open>src/\<close>.

  \<^bold>\<open>How the parts work together.\<close> A batch of samples reaches the head (\<open>Append\<close>), which resolves each
  sample to a series, writes the new series and the samples to the log, and applies them to the compressed
  chunks of the series. A query asks the index for series ids and reads their chunks. When a block of time
  is full the head freezes it, a block is written, the head forgets the time before the cut (\<open>Truncate\<close>)
  and the log is shortened by a checkpoint. After a crash the log is repaired and replayed into an empty
  head. Blocks of one level are merged to blocks of the next.

  \<^bold>\<open>Theories and sources.\<close>

  \<^item> Foundations. \<open>Ozy_Prelude\<close> has the machine types, bit lists and the locale \<open>source\<close>, the contract of
    reading bits; \<open>Bit_Stream\<close> interprets it for the bit reader. \<open>Go_Binary\<close>, \<open>Go_Strings\<close> and \<open>Go_Float\<close>
    model what is used of the Go library: varints and byte order, strings and \<open>path.Match\<close>, the order of
    floats by bit pattern.
  \<^item> Chunks. \<open>Bit_Stream\<close> (\<open>internal/tsdb/chunkenc/bstream.go\<close>), \<open>Chunk\<close> (\<open>chunk.go\<close>: \<open>Append\<close>, \<open>Next\<close>,
    \<open>FromBytes\<close>, \<open>Resume\<close>), \<open>Chunk_Codec\<close> and \<open>Chunk_Roundtrip\<close>. Encoder and decoder are proved to follow
    one abstract encoding. From it come the round trip, the equality of a resumed chunk with one never
    closed, the exact acceptance rule of \<open>Append\<close>, and that any bytes decode to an end.
  \<^item> Names and types. \<open>Wire_Names\<close> (\<open>pkg/wire/names.go\<close>), \<open>Tsdb_Types\<close> and \<open>Glob\<close> (\<open>internal/tsdb/tsdb.go\<close>).
    Normalisation gives valid names, keys identify series, block boundaries are floors, and glob matching
    through an escaped \<open>path.Match\<close> is matching with stars only.
  \<^item> Log. \<open>Wal_Files\<close> (the directory, and system calls each of which may fail), \<open>Wal_Log\<close> (\<open>wal/wal.go\<close>),
    \<open>Wal_Reader\<close> (\<open>reader.go\<close>), \<open>Wal_Truncate\<close> (\<open>truncate.go\<close>), with the proofs in \<open>Wal_Durability\<close>,
    \<open>Wal_Properties\<close> and \<open>Wal_Checkpoint\<close>. Whatever calls fail, replay returns every acknowledged batch
    in order; a crash costs the torn record only; a checkpoint loses nothing at whichever call it stops.
  \<^item> Index. \<open>Postings\<close> and \<open>Mem_Postings\<close> (\<open>index/index.go\<close>), \<open>Index_Lookup\<close> (\<open>select.go\<close>, \<open>metadata.go\<close>).
    Queries are written over the locale \<open>lookup_index\<close> and proved once. It is interpreted for the index
    in memory and, in \<open>Block_Lookup\<close>, for the parsed index of a block.
  \<^item> Head. \<open>Head_Record\<close> (\<open>head/record.go\<close>), \<open>Mem_Series\<close> and \<open>Tsdb_Head\<close> (\<open>head.go\<close>), \<open>Head_Replay\<close>
    (\<open>replay.go\<close>). \<open>Head_Window\<close> gives the abstraction, a map from keys to a series and its samples, and
    the invariant; \<open>Head_Commit\<close>, \<open>Head_Query\<close> and \<open>Head_Durability\<close> prove commits, queries and the log
    against it. The log is the locale \<open>head_log\<close> of \<open>Head_Properties\<close>, interpreted for a plain list of
    records and for the files of the write-ahead log; \<open>Head_Wal\<close> joins the head with these files.
  \<^item> Blocks. \<open>Block_Chunks\<close> (\<open>block/chunks.go\<close>), \<open>Block_Index\<close> with the writer and reader of \<open>indexfile.go\<close>,
    \<open>Block_Index_Read\<close> (what is written is parsed back), \<open>Block_File\<close> (\<open>write.go\<close>, \<open>block.go\<close>, \<open>meta.go\<close>),
    \<open>Block_Roundtrip\<close> and \<open>Block_Properties\<close>. A block gives back what was written, whole, by key, by metric
    and by selector.
  \<^item> Compaction. \<open>Compact\<close> (\<open>compact/compact.go\<close>) and \<open>Compact_Properties\<close>. A plan keeps its limits and the
    merged block holds exactly the samples of its sources.
  \<^item> Monitors. \<open>Monitor_State\<close> (\<open>internal/monitor/state/state.go\<close>, \<open>advance.go\<close> and the levels and operators
    of \<open>spec\<close>) and \<open>Monitor_Properties\<close>. An alert needs, and follows, the configured number of failures; values
    in the recovery band change nothing; muting changes no status.

  \<^bold>\<open>How state corresponds.\<close> Structs are records with the fields of the source under a prefix, methods are
  functions that return the updated record, an error result is \<open>Inl\<close>. Integers of 64 bits and floats are
  64-bit words, read by \<open>sint\<close> where the source is signed. Byte slices and Go strings are lists. A Go map is an
  association list, and where the source ranges over a map its order is a parameter \<open>ord\<close> that returns
  any rearrangement. Operations that change the head hold its commit lock, so each is one step.

  \<^bold>\<open>Bounds and termination.\<close> No function takes fuel: every loop has a termination proof, by the bits or bytes
  left to read, the files left to open, or the lists left to merge. Chunks hold at most \<open>MaxSamplesPerChunk\<close>
  samples, as in the source. Files are assumed to have sizes that fit 63 bits (\<open>files_fit\<close>), checkpoints at
  most \<open>2 ^ 62\<close> bytes and segment numbers eight digits where a statement says so, which no disk reaches;
  the ids of a head must not run past \<open>2 ^ 64\<close>. Compaction is stated for blocks separate in time.

  \<^bold>\<open>Parameters.\<close> Whether a text is a block id and the number a block id sorts by (a library), the seeded hash
  of the shards, the order of maps, the logger, and lower-casing of letters outside ASCII.

  \<^bold>\<open>Not modelled.\<close> The database that schedules these parts (\<open>internal/tsdb/db\<close>), the goroutines and the locks of
  readers, the directories of blocks with their publishing and deletion, and block metadata as JSON text. Also
  not modelled are the SQLite metric store, the query languages, the log, sketch and trace stores, the agent, the
  HTTP interfaces, the configuration, and the web interface. Some of these are input and output or rest on
  libraries (SQLite, Pebble, zstd, floating point logarithms). Others, such as the query parsers, are pure code
  outside the scope of the metric storage path.

  \<^bold>\<open>What the development shows against the code.\<close> A damaged length in the log is taken for a torn tail and
  hides what follows; a batch the log refused may still reach replay and hide later samples; the zero chunk
  loses its first sample; a resumed chunk keeps bytes left over; normalising a tag twice may change it again.
  Each is a theorem of the theory of its component.
\<close>

end
